(* ===== verification/Prelude.thy ===== *)
theory Prelude
  imports Main "HOL-Library.Word" "HOL-Library.Multiset"
    "HOL-Library.Char_ord" "HOL-Library.List_Lexorder"
begin

unbundle bit_operations_syntax

text \<open>
  Shared vocabulary of the development.

  \<^item> \<open>type_synonym\<close>s for Go's fixed-width integers and byte slices;
  \<^item> the big-endian reads and writes of Go's \<open>encoding/binary\<close>, with their bit-level
    characterisation and their round trips;
  \<^item> \<open>named_theorems\<close> collections the component theories fill: \<open>bits\<close> (bit-level
    rewriting), \<open>ops\<close> (definitions of operations to unfold);
  \<^item> generic facts on lists, maps and sorting that several components use.
\<close>

type_synonym u8 = "8 word"
type_synonym u16 = "16 word"
type_synonym u32 = "32 word"
type_synonym u64 = "64 word"
type_synonym u128 = "128 word"
type_synonym bytes = "8 word list"

named_theorems bits \<open>bit-level characterisations\<close>
named_theorems ops \<open>definitions of operations\<close>

section \<open>Big-endian integers\<close>

text \<open>\<open>be_word bs\<close> is \<open>binary.BigEndian.UintN(bs)\<close>: the bytes of \<open>bs\<close>, most significant
  first. \<open>be_bytes k w\<close> is \<open>binary.BigEndian.PutUintN\<close> into a fresh slice of \<open>k\<close> bytes.\<close>

fun be_acc :: "'a::len word \<Rightarrow> bytes \<Rightarrow> 'a word" where
  "be_acc acc [] = acc"
| "be_acc acc (b # bs) = be_acc (push_bit 8 acc OR ucast b) bs"

definition be_word :: "bytes \<Rightarrow> 'a::len word" where
  "be_word bs = be_acc 0 bs"

definition be_byte :: "nat \<Rightarrow> nat \<Rightarrow> 'a::len word \<Rightarrow> u8" where
  "be_byte k i w = ucast (drop_bit (8 * (k - 1 - i)) w)"

definition be_bytes :: "nat \<Rightarrow> 'a::len word \<Rightarrow> bytes" where
  "be_bytes k w = map (\<lambda>i. be_byte k i w) [0..<k]"

lemma length_be_bytes [simp]: "length (be_bytes k w) = k"
  by (simp add: be_bytes_def)

lemma nth_be_bytes [simp]: "i < k \<Longrightarrow> be_bytes k w ! i = be_byte k i w"
  by (simp add: be_bytes_def)

lemma bit_be_byte [bits]:
  "bit (be_byte k i (w :: 'a::len word)) n \<longleftrightarrow> n < 8 \<and> bit w (8 * (k - 1 - i) + n)"
  by (auto simp: be_byte_def bit_unsigned_iff bit_drop_bit_eq dest: bit_imp_le_length)

lemma bit_be_acc:
  "bit (be_acc (acc :: 'a::len word) bs) n \<longleftrightarrow> n < LENGTH('a) \<and>
     (if n < 8 * length bs then bit (bs ! (length bs - 1 - n div 8)) (n mod 8)
      else bit acc (n - 8 * length bs))"
proof (induction acc bs arbitrary: n rule: be_acc.induct)
  case (1 acc)
  then show ?case by (auto dest: bit_imp_le_length)
next
  case (2 acc b bs)
  let ?m = "8 * length bs"
  have step: "bit (be_acc acc (b # bs)) n \<longleftrightarrow> n < LENGTH('a) \<and>
     (if n < ?m then bit (bs ! (length bs - 1 - n div 8)) (n mod 8)
      else (8 \<le> n - ?m \<and> bit acc (n - ?m - 8)) \<or> bit b (n - ?m))"
    unfolding be_acc.simps "2.IH"
    by (auto simp: bit_or_iff bit_push_bit_iff bit_unsigned_iff dest: bit_imp_le_length)
  consider (low) "n < ?m" | (mid) "?m \<le> n" "n < ?m + 8" | (high) "?m + 8 \<le> n"
    by linarith
  then show ?case
  proof cases
    case low
    then have "length bs - n div 8 = Suc (length bs - Suc (n div 8))" by auto
    with low show ?thesis unfolding step by simp
  next
    case mid
    then obtain r where r: "n = ?m + r" "r < 8"
      by (metis add_less_cancel_left le_Suc_ex)
    then show ?thesis unfolding step by simp
  next
    case high
    then obtain r where r: "n = ?m + 8 + r" by (metis le_Suc_ex)
    have "\<not> bit b (8 + r)" using bit_imp_le_length [of b "8 + r"] by auto
    with r show ?thesis unfolding step by (simp add: ac_simps)
  qed
qed

lemma bit_be_word [bits]:
  "bit (be_word bs :: 'a::len word) n \<longleftrightarrow> n < LENGTH('a) \<and> n < 8 * length bs \<and>
     bit (bs ! (length bs - 1 - n div 8)) (n mod 8)"
  by (auto simp: be_word_def bit_be_acc)

lemma be_word_be_bytes [simp]:
  assumes "8 * k = LENGTH('a::len)"
  shows "be_word (be_bytes k (w :: 'a word)) = w"
proof (rule bit_word_eqI)
  fix n
  assume "n < LENGTH('a)"
  with assms have n: "n div 8 < k" by auto
  then have "8 * (n div 8) + n mod 8 = n" "k - 1 - n div 8 < k" "k - 1 - (k - 1 - n div 8) = n div 8"
    by auto
  with assms n \<open>n < LENGTH('a)\<close> show "bit (be_word (be_bytes k w) :: 'a word) n = bit w n"
    by (simp add: bits)
qed

lemma be_bytes_be_word [simp]:
  assumes "8 * length bs = LENGTH('a::len)" "k = length bs"
  shows "be_bytes k (be_word bs :: 'a word) = bs"
proof (rule nth_equalityI)
  fix i
  assume "i < length (be_bytes k (be_word bs :: 'a word))"
  then have i: "i < length bs" using assms by simp
  show "be_bytes k (be_word bs :: 'a word) ! i = bs ! i"
  proof (rule bit_word_eqI)
    fix n
    assume n: "n < LENGTH(8)"
    then have "(8 * (length bs - 1 - i) + n) div 8 = length bs - 1 - i"
      "(8 * (length bs - 1 - i) + n) mod 8 = n"
      "8 * (length bs - 1 - i) + n < 8 * length bs" using i by auto
    with i n assms show "bit (be_bytes k (be_word bs :: 'a word) ! i) n = bit (bs ! i) n"
      by (simp add: bits)
  qed
qed (use assms in simp)

text \<open>Reading a concatenation, and reading a narrower integer into a wider one.\<close>

lemma be_word_append:
  "be_word (xs @ ys) = (push_bit (8 * length ys) (be_word xs) OR be_word ys :: 'a::len word)"
proof (rule bit_word_eqI)
  fix n assume n: "n < LENGTH('a)"
  show "bit (be_word (xs @ ys) :: 'a word) n =
      bit (push_bit (8 * length ys) (be_word xs) OR be_word ys :: 'a word) n"
  proof (cases "n < 8 * length ys")
    case True
    then have "length xs + length ys - 1 - n div 8 = length xs + (length ys - 1 - n div 8)" by auto
    with n True show ?thesis
      by (auto simp: bits bit_or_iff bit_push_bit_iff nth_append)
  next
    case False
    define m where "m = n - 8 * length ys"
    with False have m: "n = m + 8 * length ys" by simp
    show ?thesis
    proof (cases "m < 8 * length xs")
      case True
      then have "length xs + length ys - 1 - (m div 8 + length ys) = length xs - 1 - m div 8"
        "length xs - 1 - m div 8 < length xs" by auto
      with True n m show ?thesis
        by (auto simp: bits bit_or_iff bit_push_bit_iff nth_append)
    next
      case False
      with n m show ?thesis by (auto simp: bits bit_or_iff bit_push_bit_iff)
    qed
  qed
qed

lemma be_word_ucast:
  assumes "8 * k = LENGTH('b::len)" "LENGTH('b) \<le> LENGTH('a::len)"
  shows "(be_word (be_bytes k (w :: 'b word)) :: 'a word) = ucast w"
proof (rule bit_word_eqI)
  fix n assume n: "n < LENGTH('a)"
  have "bit (be_word (be_bytes k w) :: 'a word) n \<longleftrightarrow> n < LENGTH('b) \<and> bit (be_word (be_bytes k w) :: 'b word) n"
    using n assms unfolding bit_be_word by auto
  also have "\<dots> \<longleftrightarrow> bit (ucast w :: 'a word) n"
    using n assms by (auto simp: bit_unsigned_iff dest: bit_imp_le_length)
  finally show "bit (be_word (be_bytes k w) :: 'a word) n = bit (ucast w :: 'a word) n" .
qed

section \<open>Bounded words\<close>

lemma unat_exp: "k < LENGTH('a::len) \<Longrightarrow> unat (2 ^ k :: 'a word) = 2 ^ k"
  using unat_of_nat [of "2 ^ k", where 'a = 'a] by simp

lemma less_exp_iff_take_bit:
  assumes "k < LENGTH('a::len)"
  shows "(x :: 'a word) < 2 ^ k \<longleftrightarrow> take_bit k x = x"
proof -
  have "x < 2 ^ k \<longleftrightarrow> unat x < 2 ^ k" using assms by (simp add: word_less_nat_alt unat_exp)
  also have "\<dots> \<longleftrightarrow> take_bit k (unat x) = unat x" by (simp add: take_bit_nat_eq_self_iff)
  also have "\<dots> \<longleftrightarrow> take_bit k x = x"
    by (metis unsigned_take_bit_eq unsigned_word_eqI)
  finally show ?thesis .
qed

lemma bit_less_exp: "(x :: 'a::len word) < 2 ^ k \<Longrightarrow> k < LENGTH('a) \<Longrightarrow> bit x n \<Longrightarrow> n < k"
  using less_exp_iff_take_bit [of k x] bit_take_bit_iff [of k x n] by auto

lemma less_exp_iff_bits:
  assumes "k < LENGTH('a::len)"
  shows "(x :: 'a word) < 2 ^ k \<longleftrightarrow> (\<forall>n. bit x n \<longrightarrow> n < k)"
  unfolding less_exp_iff_take_bit [OF assms]
  by (auto simp: bit_eq_iff bit_take_bit_iff dest: bit_imp_le_length)

lemma and_0F: "(x :: u8) AND 0x0F = take_bit 4 x"
  by (simp add: take_bit_eq_mask mask_eq_exp_minus_1)

section \<open>Modular arithmetic\<close>

lemma mod_add_cancel:
  assumes "((x :: nat) + k) mod m = (y + k) mod m"
  shows "x mod m = y mod m"
proof -
  have "int (x + k) mod int m = int (y + k) mod int m" using assms by (metis zmod_int)
  then have "int m dvd int x - int y" by (simp add: mod_eq_dvd_iff)
  then have "int x mod int m = int y mod int m" by (simp add: mod_eq_dvd_iff)
  then show ?thesis by (metis nat_int zmod_int)
qed

lemma unat_u16_less: "unat (x :: u16) < 65536"
  using unsigned_less [of x, where 'a = nat] by simp

lemma unat_ucast_u16: "unat (ucast (a :: u16) :: u32) = unat a"
  using unat_u16_less [of a] by (simp add: unsigned_ucast_eq take_bit_eq_mod)

lemma unat_or_disjoint:
  assumes "x AND y = (0 :: 'a::len word)"
  shows "unat (x OR y) = unat x + unat y"
proof -
  have "\<not> bit (unat x) n \<or> \<not> bit (unat y) n" for n
    using assms by (auto simp: bit_eq_iff bit_and_iff bit_unsigned_iff dest: bit_imp_le_length)
  then have "unat x AND unat y = 0" by (auto simp: bit_eq_iff bit_and_iff)
  then have "unat x + unat y = unat x OR unat y" by (simp add: disjunctive_add_eq_or)
  then show ?thesis by (simp add: unsigned_or_eq)
qed

lemma unat_byte_pair: "unat (push_bit 8 (ucast (x :: u8)) OR ucast (y :: u8) :: u16) = 256 * unat x + unat y"
proof -
  have b: "unat x < 256" "unat y < 256"
    using unsigned_less [of x, where 'a = nat] unsigned_less [of y, where 'a = nat] by simp_all
  have "push_bit 8 (ucast x) AND ucast y = (0 :: u16)"
    by (auto simp: bit_eq_iff bit_and_iff bit_push_bit_iff bit_unsigned_iff dest: bit_imp_le_length)
  then have "unat (push_bit 8 (ucast x) OR ucast y :: u16) = unat (push_bit 8 (ucast x) :: u16) + unat (ucast y :: u16)"
    by (simp add: unat_or_disjoint)
  also have "unat (ucast y :: u16) = unat y" using b by (simp add: unsigned_ucast_eq take_bit_eq_mod)
  also have "unat (push_bit 8 (ucast x) :: u16) = 256 * unat x"
    using b by (simp add: push_bit_eq_mult unat_word_ariths unsigned_ucast_eq take_bit_eq_mod)
  finally show ?thesis .
qed

end
