(* ===== verification/Netip.thy ===== *)
theory Netip
  imports Prelude
begin

unbundle bit_operations_syntax

text \<open>
  The part of Go's \<open>net/netip\<close> the program computes with: \<open>netip.Addr\<close> (the zero value,
  an IPv4 address, or an IPv6 address with a zone) and \<open>netip.Prefix\<close> (an address without
  zone and a length, or an invalid prefix). Equality of \<open>addr\<close> is Go's \<open>==\<close>: it tells an
  IPv4 address from the IPv4-mapped IPv6 address, and it compares zones.
\<close>

datatype addr = AddrZero | Addr4 u32 | Addr6 u128 string

definition Is4 :: "addr \<Rightarrow> bool" where
  "Is4 a = (case a of Addr4 _ \<Rightarrow> True | _ \<Rightarrow> False)"

definition Is6 :: "addr \<Rightarrow> bool" where
  "Is6 a = (case a of Addr6 _ _ \<Rightarrow> True | _ \<Rightarrow> False)"

text \<open>\<open>Is4In6\<close>: the upper 96 bits are \<open>::ffff\<close>.\<close>

definition Is4In6 :: "addr \<Rightarrow> bool" where
  "Is4In6 a = (case a of Addr6 w _ \<Rightarrow> drop_bit 32 w = 0xFFFF | _ \<Rightarrow> False)"

definition Zone :: "addr \<Rightarrow> string" where
  "Zone a = (case a of Addr6 _ z \<Rightarrow> z | _ \<Rightarrow> [])"

definition BitLen :: "addr \<Rightarrow> nat" where
  "BitLen a = (case a of AddrZero \<Rightarrow> 0 | Addr4 _ \<Rightarrow> 32 | Addr6 _ _ \<Rightarrow> 128)"

definition As16 :: "addr \<Rightarrow> bytes" where
  "As16 a = be_bytes 16 (case a of AddrZero \<Rightarrow> (0 :: u128)
     | Addr4 w \<Rightarrow> push_bit 32 0xFFFF OR ucast w | Addr6 w _ \<Rightarrow> w)"

definition AddrFrom16 :: "bytes \<Rightarrow> addr" where
  "AddrFrom16 b = Addr6 (be_word b) []"

fun withoutZone :: "addr \<Rightarrow> addr" where
  "withoutZone (Addr6 w _) = Addr6 w []"
| "withoutZone a = a"

definition Unmap :: "addr \<Rightarrow> addr" where
  "Unmap a = (if Is4In6 a then (case a of Addr6 w _ \<Rightarrow> Addr4 (ucast w) | _ \<Rightarrow> a) else a)"

text \<open>A prefix is invalid when its length field is \<open>None\<close>; Go's zero \<open>Prefix{}\<close> is
  \<open>PrefixZero\<close>.\<close>

record prefix =
  p_addr :: addr
  p_bits :: "nat option"

definition PrefixZero :: prefix where
  "PrefixZero = \<lparr>p_addr = AddrZero, p_bits = None\<rparr>"

definition PrefixFrom :: "addr \<Rightarrow> int \<Rightarrow> prefix" where
  "PrefixFrom a n = \<lparr>p_addr = withoutZone a,
     p_bits = (if a \<noteq> AddrZero \<and> 0 \<le> n \<and> n \<le> int (BitLen a) then Some (nat n) else None)\<rparr>"

definition IsValid :: "prefix \<Rightarrow> bool" where
  "IsValid p = (p_bits p \<noteq> None)"

text \<open>\<open>prefix_mask\<close>: the word whose upper \<open>n\<close> bits are one (\<open>mask6\<close> of the library).\<close>

definition prefix_mask :: "nat \<Rightarrow> 'a::len word" where
  "prefix_mask n = NOT (mask (LENGTH('a) - n))"

definition Masked :: "prefix \<Rightarrow> prefix" where
  "Masked p = (case p_bits p of None \<Rightarrow> PrefixZero
     | Some n \<Rightarrow> (case p_addr p of AddrZero \<Rightarrow> PrefixZero
        | Addr4 w \<Rightarrow> p\<lparr>p_addr := Addr4 (w AND prefix_mask n)\<rparr>
        | Addr6 w z \<Rightarrow> p\<lparr>p_addr := Addr6 (w AND prefix_mask n) z\<rparr>))"

definition Contains :: "prefix \<Rightarrow> addr \<Rightarrow> bool" where
  "Contains p a = (case p_bits p of None \<Rightarrow> False
     | Some n \<Rightarrow> Zone a = [] \<and>
        (case (p_addr p, a) of
           (Addr4 w, Addr4 v) \<Rightarrow> drop_bit (32 - n) (v XOR w) = 0
         | (Addr6 w _, Addr6 v _) \<Rightarrow> (v XOR w) AND prefix_mask n = 0
         | _ \<Rightarrow> False))"

text \<open>The prefixes \<open>PrefixFrom\<close> and \<open>ParsePrefix\<close> build from an address without error.\<close>

definition wf_prefix :: "prefix \<Rightarrow> bool" where
  "wf_prefix p \<longleftrightarrow> (case p_bits p of None \<Rightarrow> False
     | Some n \<Rightarrow> n \<le> BitLen (p_addr p) \<and> p_addr p \<noteq> AddrZero \<and> Zone (p_addr p) = [])"

section \<open>Facts\<close>

lemmas addr_ops [ops] = Is4_def Is6_def Is4In6_def Zone_def BitLen_def

lemma Is6_cases: "Is6 a \<Longrightarrow> (\<And>w z. a = Addr6 w z \<Longrightarrow> P) \<Longrightarrow> P"
  by (cases a) (auto simp: Is6_def)

lemma length_As16 [simp]: "length (As16 a) = 16"
  by (simp add: As16_def)

lemma As16_AddrFrom16 [simp]: "length b = 16 \<Longrightarrow> As16 (AddrFrom16 b) = b"
  by (simp add: As16_def AddrFrom16_def)

lemma AddrFrom16_As16: "Is6 a \<Longrightarrow> AddrFrom16 (As16 a) = withoutZone a"
  by (auto elim!: Is6_cases simp: As16_def AddrFrom16_def)

lemma Is6_AddrFrom16 [simp]: "Is6 (AddrFrom16 b)"
  by (simp add: AddrFrom16_def Is6_def)

lemma bit_prefix_mask [bits]:
  "bit (prefix_mask n :: 'a::len word) i \<longleftrightarrow> i < LENGTH('a) \<and> LENGTH('a) - n \<le> i"
  by (auto simp: prefix_mask_def bit_not_iff bit_mask_iff possible_bit_word not_less)

text \<open>A prefix contains only addresses of its own family.\<close>

lemma Contains_family: "Contains p a \<Longrightarrow> Is4 (p_addr p) = Is4 a"
  by (auto simp: Contains_def Is4_def split: option.splits addr.splits)

lemma Contains_valid: "Contains p a \<Longrightarrow> IsValid p"
  by (auto simp: Contains_def IsValid_def split: option.splits)

lemma Contains_not_zero: "Contains p a \<Longrightarrow> a \<noteq> AddrZero"
  by (auto simp: Contains_def split: option.splits addr.splits)

lemma Contains6_iff:
  "p_bits p = Some n \<Longrightarrow> p_addr p = Addr6 w [] \<Longrightarrow>
   Contains p (Addr6 v []) \<longleftrightarrow> v AND prefix_mask n = w AND prefix_mask n"
proof -
  assume p: "p_bits p = Some n" "p_addr p = Addr6 w []"
  have "((v XOR w) AND prefix_mask n = 0) \<longleftrightarrow> (v AND prefix_mask n = w AND prefix_mask n)"
    by (auto simp: bit_eq_iff bits bit_and_iff bit_xor_iff)
  with p show ?thesis by (simp add: Contains_def Zone_def)
qed

lemma Contains_host6 [simp]:
  "Contains (PrefixFrom (Addr6 w []) 128) (Addr6 v []) \<longleftrightarrow> v = w"
  by (subst Contains6_iff [where n = 128 and w = w])
     (auto simp: PrefixFrom_def BitLen_def prefix_mask_def)

lemma Contains_host4 [simp]: "Contains (PrefixFrom (Addr4 w) 32) (Addr4 v) \<longleftrightarrow> v = w"
  by (auto simp: PrefixFrom_def BitLen_def Contains_def Zone_def bit_eq_iff bit_xor_iff)

lemma Zone_withoutZone [simp]: "Zone (withoutZone a) = []"
  by (cases a) (simp_all add: Zone_def)

lemma withoutZone_zero [simp]: "withoutZone a = AddrZero \<longleftrightarrow> a = AddrZero"
  by (cases a) simp_all

lemma BitLen_withoutZone [simp]: "BitLen (withoutZone a) = BitLen a"
  by (cases a) (simp_all add: BitLen_def)

lemma Is4_withoutZone [simp]: "Is4 (withoutZone a) = Is4 a"
  by (cases a) (simp_all add: Is4_def)

lemma withoutZone_id: "Zone a = [] \<Longrightarrow> withoutZone a = a"
  by (cases a) (simp_all add: Zone_def)

lemma wf_PrefixFrom: "a \<noteq> AddrZero \<Longrightarrow> 0 \<le> n \<Longrightarrow> n \<le> int (BitLen a) \<Longrightarrow> wf_prefix (PrefixFrom a n)"
  by (auto simp: wf_prefix_def PrefixFrom_def)

lemma wf_prefix_valid: "wf_prefix p \<Longrightarrow> IsValid p"
  by (auto simp: wf_prefix_def IsValid_def split: option.splits)

lemma wf_prefix_contains_self: "wf_prefix p \<Longrightarrow> Contains p (p_addr p)"
  by (cases "p_addr p") (auto simp: wf_prefix_def Contains_def split: option.splits)

lemma PrefixFrom_addr [simp]: "p_addr (PrefixFrom a n) = withoutZone a"
  by (simp add: PrefixFrom_def)

lemma Contains_same:
  "Contains p a \<Longrightarrow> (\<exists>w v. p_addr p = Addr4 w \<and> a = Addr4 v) \<or> (\<exists>w z v. p_addr p = Addr6 w z \<and> a = Addr6 v [])"
  by (auto simp: Contains_def Zone_def split: option.splits addr.splits)

text \<open>A full-length prefix contains exactly its own address.\<close>

lemma Contains_host:
  assumes "a \<noteq> AddrZero" "Zone a = []"
  shows "Contains (PrefixFrom a (int (BitLen a))) b \<longleftrightarrow> b = a"
proof (cases a)
  case (Addr4 w)
  then show ?thesis
    using Contains_same [of "PrefixFrom a (int (BitLen a))" b]
    by (cases b) (auto simp: BitLen_def)
next
  case (Addr6 w z)
  then have "a = Addr6 w []" using assms(2) by (simp add: Zone_def)
  then show ?thesis
    using Contains_same [of "PrefixFrom a (int (BitLen a))" b]
    by (cases b) (auto simp: BitLen_def)
qed (use assms in auto)

end
