(* ===== verification/Netip_Parse.thy ===== *)
theory Netip_Parse
  imports Netip
begin

unbundle bit_operations_syntax

text \<open>
  \<open>netip.ParseAddr\<close> and \<open>netip.ParsePrefix\<close>, the textual form of addresses and prefixes the API
  types carry. The program only tests whether the error is nil, so a failure is \<open>None\<close>.
  The theory shows what the callers rely on: a parsed address is not the zero \<open>Addr\<close>, and a parsed
  prefix is valid, has no zone and a length within its family.
\<close>

section \<open>The parsers\<close>

definition char_between :: "char \<Rightarrow> char \<Rightarrow> char \<Rightarrow> bool" where
  "char_between lo hi c = ((of_char lo :: nat) \<le> of_char c \<and> (of_char c :: nat) \<le> of_char hi)"

definition char_offset :: "char \<Rightarrow> char \<Rightarrow> nat" where
  "char_offset lo c = of_char c - of_char lo"

text \<open>\<open>parseIPv4Fields\<close>: the previous character, the value and number of digits of the current
  field, and the fields completed so far.\<close>

fun parseIPv4Fields :: "char option \<Rightarrow> nat \<Rightarrow> nat \<Rightarrow> bytes \<Rightarrow> string \<Rightarrow> bytes option" where
  "parseIPv4Fields prev v digLen fs [] = (if length fs < 3 then None else Some (fs @ [of_nat v]))"
| "parseIPv4Fields prev v digLen fs (c # s) =
     (if char_between CHR ''0'' CHR ''9'' c
      then (if digLen = 1 \<and> v = 0 then None
            else (let v' = v * 10 + char_offset CHR ''0'' c
                  in if v' > 255 then None else parseIPv4Fields (Some c) v' (digLen + 1) fs s))
      else if c = CHR ''.''
      then (if prev = None \<or> s = [] \<or> prev = Some CHR ''.'' then None
            else if length fs = 3 then None
            else parseIPv4Fields (Some c) 0 0 (fs @ [of_nat v]) s)
      else None)"

definition parseIPv4 :: "string \<Rightarrow> addr option" where
  "parseIPv4 s = map_option (\<lambda>fs. Addr4 (be_word fs)) (parseIPv4Fields None 0 0 [] s)"

definition hex_digit :: "char \<Rightarrow> nat option" where
  "hex_digit c =
     (if char_between CHR ''0'' CHR ''9'' c then Some (char_offset CHR ''0'' c)
      else if char_between CHR ''a'' CHR ''f'' c then Some (char_offset CHR ''a'' c + 10)
      else if char_between CHR ''A'' CHR ''F'' c then Some (char_offset CHR ''A'' c + 10)
      else None)"

text \<open>One hexadecimal field: its value and the number of characters read.\<close>

fun hex_field :: "nat \<Rightarrow> nat \<Rightarrow> string \<Rightarrow> (nat \<times> nat) option" where
  "hex_field acc off [] = Some (acc, off)"
| "hex_field acc off (c # s) =
     (case hex_digit c of None \<Rightarrow> Some (acc, off)
      | Some d \<Rightarrow> (let acc' = acc * 16 + d
                  in if off > 3 then None else if acc' > 65535 then None else hex_field acc' (off + 1) s))"

text \<open>The loop of \<open>parseIPv6\<close>: \<open>room\<close> is the number of fields that still fit, \<open>ip\<close> the bytes
  read so far and \<open>ellipsis\<close> the position of \<open>::\<close>.\<close>

fun parseIPv6_loop :: "nat \<Rightarrow> bytes \<Rightarrow> nat option \<Rightarrow> string \<Rightarrow> (bytes \<times> nat option \<times> string) option" where
  "parseIPv6_loop 0 ip ellipsis s = Some (ip, ellipsis, s)"
| "parseIPv6_loop (Suc room) ip ellipsis s =
     (case hex_field 0 0 s of None \<Rightarrow> None
      | Some (acc, off) \<Rightarrow>
          (let rest = drop off s
           in if off = 0 then None
              else if rest \<noteq> [] \<and> hd rest = CHR ''.''
              then (if ellipsis = None \<and> length ip \<noteq> 12 then None
                    else if length ip + 4 > 16 then None
                    else map_option (\<lambda>fs. (ip @ fs, ellipsis, [])) (parseIPv4Fields None 0 0 [] s))
              else
               (let ip' = ip @ [of_nat (acc div 256), of_nat acc]
                in if rest = [] then Some (ip', ellipsis, [])
                   else if hd rest \<noteq> CHR '':'' then None
                   else if tl rest = [] then None
                   else if hd (tl rest) = CHR '':''
                   then (if ellipsis \<noteq> None then None
                         else if tl (tl rest) = [] then Some (ip', Some (length ip'), [])
                         else parseIPv6_loop room ip' (Some (length ip')) (tl (tl rest)))
                   else parseIPv6_loop room ip' ellipsis (tl rest))))"

definition WithZone :: "addr \<Rightarrow> string \<Rightarrow> addr" where
  "WithZone a zone = (case a of Addr6 w _ \<Rightarrow> Addr6 w zone | _ \<Rightarrow> a)"

definition parseIPv6 :: "string \<Rightarrow> addr option" where
  "parseIPv6 s =
     (let (s, rest) = (takeWhile (\<lambda>c. c \<noteq> CHR ''%'') s, dropWhile (\<lambda>c. c \<noteq> CHR ''%'') s);
          zone = tl rest
      in if rest \<noteq> [] \<and> zone = [] then None
         else
          (let leading = (take 2 s = ''::'');
               s' = (if leading then drop 2 s else s)
           in if leading \<and> s' = [] then Some (WithZone (Addr6 0 []) zone)
              else
               (case parseIPv6_loop 8 [] (if leading then Some 0 else None) s' of None \<Rightarrow> None
                | Some (ip, ellipsis, left) \<Rightarrow>
                    (if left \<noteq> [] then None
                     else if length ip < 16
                     then (case ellipsis of None \<Rightarrow> None
                           | Some e \<Rightarrow> Some (WithZone (AddrFrom16
                               (take e ip @ replicate (16 - length ip) 0 @ drop e ip)) zone))
                     else if ellipsis \<noteq> None then None
                     else Some (WithZone (AddrFrom16 ip) zone)))))"

fun find_separator :: "string \<Rightarrow> char option" where
  "find_separator [] = None"
| "find_separator (c # s) = (if c = CHR ''.'' \<or> c = CHR '':'' \<or> c = CHR ''%'' then Some c else find_separator s)"

definition ParseAddr :: "string \<Rightarrow> addr option" where
  "ParseAddr s =
     (case find_separator s of None \<Rightarrow> None
      | Some c \<Rightarrow> (if c = CHR ''.'' then parseIPv4 s else if c = CHR '':'' then parseIPv6 s else None))"

text \<open>\<open>strconv.Atoi\<close> on the digits after the slash. A first character that is not a digit is
  only possible for a single character, where a lone sign is an error too.\<close>

fun atoi_acc :: "nat \<Rightarrow> string \<Rightarrow> nat option" where
  "atoi_acc n [] = Some n"
| "atoi_acc n (c # s) =
     (if char_between CHR ''0'' CHR ''9'' c then atoi_acc (n * 10 + char_offset CHR ''0'' c) s else None)"

definition ParsePrefix :: "string \<Rightarrow> prefix option" where
  "ParsePrefix s =
     (let back = rev s;
          bitsStr = rev (takeWhile (\<lambda>c. c \<noteq> CHR ''/'') back);
          ip = rev (tl (dropWhile (\<lambda>c. c \<noteq> CHR ''/'') back))
      in if CHR ''/'' \<notin> set s then None
         else
          (case ParseAddr ip of None \<Rightarrow> None
           | Some a \<Rightarrow>
               (if Zone a \<noteq> [] then None
                else if length bitsStr > 1 \<and> \<not> char_between CHR ''1'' CHR ''9'' (hd bitsStr) then None
                else if bitsStr = [] then None
                else case atoi_acc 0 bitsStr of None \<Rightarrow> None
                     | Some n \<Rightarrow> (if n > (if Is6 a then 128 else 32) then None
                                 else Some (PrefixFrom a (int n))))))"

section \<open>Facts\<close>

lemma WithZone_zero [simp]: "WithZone a z = AddrZero \<longleftrightarrow> a = AddrZero"
  by (cases a) (simp_all add: WithZone_def)

lemma AddrFrom16_not_zero [simp]: "AddrFrom16 b \<noteq> AddrZero"
  by (simp add: AddrFrom16_def)

lemma parseIPv6_not_zero: "parseIPv6 s = Some a \<Longrightarrow> a \<noteq> AddrZero"
  by (auto simp: parseIPv6_def Let_def split: if_splits option.splits prod.splits)

lemma ParseAddr_not_zero: "ParseAddr s = Some a \<Longrightarrow> a \<noteq> AddrZero"
  by (auto simp: ParseAddr_def parseIPv4_def split: option.splits if_splits dest: parseIPv6_not_zero)

lemma ParsePrefix_wf: "ParsePrefix s = Some p \<Longrightarrow> wf_prefix p"
  by (auto simp: ParsePrefix_def Let_def Is6_def BitLen_def split: option.splits if_splits addr.splits
      intro!: wf_PrefixFrom dest: ParseAddr_not_zero)

end
