(* ===== verification/Netpkg.thy ===== *)
theory Netpkg
  imports Netip
begin

unbundle bit_operations_syntax

text \<open>
  The part of Go's package \<open>net\<close> the program computes with: \<open>net.IP\<close> is a byte slice (the nil
  slice is \<open>[]\<close>), \<open>net.IPMask\<close> a byte slice, \<open>net.IPNet\<close> a pair of both.
\<close>

type_synonym IP = bytes

record IPNet =
  nIP :: IP
  nMask :: bytes

definition v4InV6Prefix :: bytes where
  "v4InV6Prefix = replicate 10 0 @ [0xFF, 0xFF]"

definition To4 :: "IP \<Rightarrow> IP" where
  "To4 ip = (if length ip = 4 then ip
     else if length ip = 16 \<and> take 12 ip = v4InV6Prefix then drop 12 ip else [])"

definition To16 :: "IP \<Rightarrow> IP" where
  "To16 ip = (if length ip = 4 then v4InV6Prefix @ ip else if length ip = 16 then ip else [])"

text \<open>\<open>IPMask.Size\<close>: the number of leading one bits and the width, or \<open>(0, 0)\<close> when the mask is
  not canonical (\<open>simpleMaskLength\<close>).\<close>

fun leading_ones :: "nat \<Rightarrow> u8 \<Rightarrow> nat \<times> u8" where
  "leading_ones 0 v = (0, v)"
| "leading_ones (Suc k) v =
     (if v AND 0x80 \<noteq> 0 then (let (n, r) = leading_ones k (push_bit 1 v) in (Suc n, r)) else (0, v))"

fun simpleMaskLength :: "bytes \<Rightarrow> nat option" where
  "simpleMaskLength [] = Some 0"
| "simpleMaskLength (v # vs) =
     (if v = 0xFF then map_option (\<lambda>n. 8 + n) (simpleMaskLength vs)
      else (let (n, r) = leading_ones 8 v
            in if r \<noteq> 0 \<or> (\<exists>x \<in> set vs. x \<noteq> 0) then None else Some n))"

definition mask_Size :: "bytes \<Rightarrow> nat \<times> nat" where
  "mask_Size m = (case simpleMaskLength m of None \<Rightarrow> (0, 0) | Some n \<Rightarrow> (n, 8 * length m))"

text \<open>\<open>CIDRMask(ones, bits)\<close>, for \<open>ones \<le> bits\<close> and \<open>bits\<close> 32 or 128.\<close>

definition mask_byte :: "nat \<Rightarrow> nat \<Rightarrow> u8" where
  "mask_byte ones i = prefix_mask (ones - 8 * i)"

definition CIDRMask :: "nat \<Rightarrow> nat \<Rightarrow> bytes" where
  "CIDRMask ones n = map (mask_byte ones) [0..<n div 8]"

definition networkNumberAndMask :: "IPNet \<Rightarrow> (IP \<times> bytes) option" where
  "networkNumberAndMask n =
     (let ip = (if To4 (nIP n) \<noteq> [] then To4 (nIP n) else nIP n); m = nMask n
      in if length ip \<noteq> 4 \<and> length ip \<noteq> 16 then None
         else if length m = 4 then (if length ip \<noteq> 4 then None else Some (ip, m))
         else if length m = 16 then Some (ip, if length ip = 4 then drop 12 m else m)
         else None)"

definition net_Contains :: "IPNet \<Rightarrow> IP \<Rightarrow> bool" where
  "net_Contains n ip =
     (let ip = (if To4 ip \<noteq> [] then To4 ip else ip)
      in case networkNumberAndMask n of
           None \<Rightarrow> ip = []
         | Some (nn, m) \<Rightarrow> length ip = length nn \<and>
             list_all (\<lambda>i. nn ! i AND m ! i = ip ! i AND m ! i) [0..<length ip])"

text \<open>What \<open>net.ParseCIDR\<close> returns for an IPv6 prefix: a canonical 128-bit mask and an address
  that is zero beyond it.\<close>

definition cidr6 :: "nat \<Rightarrow> IPNet \<Rightarrow> bool" where
  "cidr6 n p \<longleftrightarrow> n \<le> 128 \<and> nMask p = CIDRMask n 128 \<and> length (nIP p) = 16 \<and>
     list_all (\<lambda>i. nIP p ! i AND mask_byte n i = nIP p ! i) [0..<16]"

lemma cidr6_iff: "cidr6 n p \<longleftrightarrow> n \<le> 128 \<and> nMask p = CIDRMask n 128 \<and> length (nIP p) = 16 \<and>
     (\<forall>i < 16. nIP p ! i AND mask_byte n i = nIP p ! i)"
  unfolding cidr6_def list_all_iff set_upt by auto

section \<open>Facts\<close>

lemma length_CIDRMask [simp]: "length (CIDRMask n b) = b div 8"
  by (simp add: CIDRMask_def)

lemma nth_CIDRMask [simp]: "i < b div 8 \<Longrightarrow> CIDRMask n b ! i = mask_byte n i"
  by (simp add: CIDRMask_def)

lemma bit_mask_byte [bits]: "bit (mask_byte n i) j \<longleftrightarrow> j < 8 \<and> 8 - (n - 8 * i) \<le> j"
  by (simp add: mask_byte_def bits)

lemma mask_byte_0 [simp]: "n \<le> 8 * i \<Longrightarrow> mask_byte n i = 0"
  by (simp add: mask_byte_def prefix_mask_def mask_eq_exp_minus_1)

lemma mask_byte_FF: "8 * Suc i \<le> n \<Longrightarrow> mask_byte n i = 0xFF"
proof -
  assume "8 * Suc i \<le> n"
  then have "8 - (n - 8 * i) = 0" by auto
  then show ?thesis by (simp add: mask_byte_def prefix_mask_def)
qed

lemma mask_byte_full: "8 * Suc i \<le> n \<Longrightarrow> mask_byte n i = - 1"
  using mask_byte_FF [of i n] by simp

lemma leading_ones_mask: "n < 8 \<Longrightarrow> leading_ones 8 (prefix_mask n) = (n, 0)"
proof -
  have "\<forall>n \<in> set [0, 1, 2, 3, 4, 5, 6, 7]. leading_ones 8 (prefix_mask n) = (n, 0)" by code_simp
  moreover assume "n < 8"
  then have "n \<in> set [0, 1, 2, 3, 4, 5, 6, 7]" by auto
  ultimately show ?thesis by blast
qed

lemma simpleMaskLength_mask_bytes:
  "8 * i \<le> n \<Longrightarrow> n \<le> 8 * (i + k) \<Longrightarrow> simpleMaskLength (map (mask_byte n) [i..<i + k]) = Some (n - 8 * i)"
proof (induction k arbitrary: i)
  case 0
  then show ?case by simp
next
  case (Suc k)
  have upt: "[i..<i + Suc k] = i # [Suc i..<Suc i + k]" by (simp add: upt_conv_Cons)
  show ?case
  proof (cases "8 * Suc i \<le> n")
    case True
    with Suc have "simpleMaskLength (map (mask_byte n) [Suc i..<Suc i + k]) = Some (n - 8 * Suc i)"
      by (metis add_Suc_right add_Suc_shift)
    with True show ?thesis unfolding upt by (simp add: mask_byte_FF)
  next
    case False
    then have n: "n - 8 * i < 8" by auto
    then have "\<not> bit (mask_byte n i) 0" by (simp add: bits)
    then have "mask_byte n i \<noteq> 0xFF" by (metis bit_0 odd_numeral)
    moreover have "x = 0" if "x \<in> set (map (mask_byte n) [Suc i..<Suc i + k])" for x
      using that False by auto
    ultimately show ?thesis
      unfolding upt using leading_ones_mask [OF n] by (auto simp: mask_byte_def)
  qed
qed

lemma mask_Size_CIDRMask: "n \<le> 128 \<Longrightarrow> mask_Size (CIDRMask n 128) = (n, 128)"
  using simpleMaskLength_mask_bytes [of 0 n 16] by (simp add: mask_Size_def CIDRMask_def)

text \<open>A prefix of at most 48 bits is never IPv4-mapped.\<close>

lemma cidr6_short_zero: "cidr6 n p \<Longrightarrow> n \<le> 48 \<Longrightarrow> 6 \<le> i \<Longrightarrow> i < 16 \<Longrightarrow> nIP p ! i = 0"
proof -
  assume p: "cidr6 n p" and n: "n \<le> 48" and i: "6 \<le> i" "i < 16"
  have "nIP p ! i = nIP p ! i AND mask_byte n i" using p i by (simp add: cidr6_iff)
  also have "\<dots> = 0" using n i by simp
  finally show ?thesis .
qed

end
