(* ===== verification/Uformat.thy ===== *)
theory Uformat
  imports Netip
begin

unbundle bit_operations_syntax

text \<open>
  \<open>internal/plumbing/ebpf/uformat\<close>: the uFMT 48+16 SRv6 uSID carrier format. A uSID is a
  128-bit address with five fixed-offset fields,
  \<open>Block (48) | Node-ID (16) | Function (4) | Argument (12) | Slot (16) | padding (32)\<close>.
  The theory holds the field accessors, the validators, \<open>Encode\<close>/\<open>Decode\<close> and the keys of the
  datapath's locator, function and VRF tables, and shows that decoding and encoding are inverse,
  that the accessors agree with \<open>Decode\<close>, and that the composite table keys are collision free.
\<close>

section \<open>Constants, fields and validation\<close>

definition BlockMax :: u64 where "BlockMax = 0xFFFFFFFFFFFF"
definition BlockIngressSidecar :: u64 where "BlockIngressSidecar = BlockMax"
definition NodeIDMin :: u16 where "NodeIDMin = 0x0001"
definition NodeIDMax :: u16 where "NodeIDMax = 0xDFFF"
definition FunctionEndDT46 :: u8 where "FunctionEndDT46 = 0xE"
definition FunctionEndDT2 :: u8 where "FunctionEndDT2 = 0xF"
definition ArgumentMin :: u16 where "ArgumentMin = 0x001"
definition ArgumentMax :: u16 where "ArgumentMax = 0xFFF"

record Fields =
  fBlock :: u64
  fNodeID :: u16
  fFunction :: u8
  fArgument :: u16
  fSlot :: u16

datatype uformat_error =
    BlockOverflow u64
  | NodeIDOutOfRange u16
  | FunctionNotDefined u8
  | ArgumentOutOfRange u16
  | NotIPv6 addr
  | NonZeroPadding nat
  | FunctionOverflow u8
  | ArgumentOverflow u16

definition ValidateBlock :: "u64 \<Rightarrow> uformat_error option" where
  "ValidateBlock block = (if block > BlockMax then Some (BlockOverflow block) else None)"

definition ValidateNodeID :: "u16 \<Rightarrow> uformat_error option" where
  "ValidateNodeID n = (if n < NodeIDMin \<or> n > NodeIDMax then Some (NodeIDOutOfRange n) else None)"

definition ValidateFunction :: "u8 \<Rightarrow> uformat_error option" where
  "ValidateFunction f = (if f \<noteq> FunctionEndDT46 \<and> f \<noteq> FunctionEndDT2
     then Some (FunctionNotDefined f) else None)"

definition ValidateArgument :: "u16 \<Rightarrow> uformat_error option" where
  "ValidateArgument a = (if a < ArgumentMin \<or> a > ArgumentMax
     then Some (ArgumentOutOfRange a) else None)"

text \<open>\<open>errors.Join\<close> collects the errors that are not nil, in order; the joined error is nil
  when the list is empty.\<close>

definition Validate :: "Fields \<Rightarrow> uformat_error list" where
  "Validate f = List.map_filter id
     [ValidateBlock (fBlock f), ValidateNodeID (fNodeID f),
      ValidateFunction (fFunction f), ValidateArgument (fArgument f)]"

section \<open>Accessors\<close>

definition as16 :: "addr \<Rightarrow> uformat_error + bytes" where
  "as16 a = (if \<not> Is6 a then Inl (NotIPv6 a) else Inr (As16 a))"

definition Block :: "addr \<Rightarrow> uformat_error + u64" where
  "Block a = (case as16 a of Inl e \<Rightarrow> Inl e
     | Inr b \<Rightarrow> Inr (drop_bit 16 (be_word (take 8 b))))"

definition NodeID :: "addr \<Rightarrow> uformat_error + u16" where
  "NodeID a = (case as16 a of Inl e \<Rightarrow> Inl e | Inr b \<Rightarrow> Inr (be_word [b ! 6, b ! 7]))"

definition Function :: "addr \<Rightarrow> uformat_error + u8" where
  "Function a = (case as16 a of Inl e \<Rightarrow> Inl e | Inr b \<Rightarrow> Inr (drop_bit 4 (b ! 8)))"

definition Argument :: "addr \<Rightarrow> uformat_error + u16" where
  "Argument a = (case as16 a of Inl e \<Rightarrow> Inl e
     | Inr b \<Rightarrow> Inr (push_bit 8 (ucast (b ! 8 AND 0x0F)) OR ucast (b ! 9)))"

definition Slot :: "addr \<Rightarrow> uformat_error + u16" where
  "Slot a = (case as16 a of Inl e \<Rightarrow> Inl e | Inr b \<Rightarrow> Inr (be_word [b ! 10, b ! 11]))"

section \<open>Decode and Encode\<close>

text \<open>The padding loop reports the first of bytes 12 to 15 that is not zero.\<close>

definition padding_byte :: "bytes \<Rightarrow> nat option" where
  "padding_byte b = find (\<lambda>i. b ! i \<noteq> 0) [12..<16]"

definition Decode :: "addr \<Rightarrow> uformat_error + Fields" where
  "Decode a = (case as16 a of Inl e \<Rightarrow> Inl e
     | Inr b \<Rightarrow> (case padding_byte b of
         Some i \<Rightarrow> Inl (NonZeroPadding i)
       | None \<Rightarrow> Inr \<lparr>fBlock = drop_bit 16 (be_word (take 8 b)),
                    fNodeID = be_word [b ! 6, b ! 7],
                    fFunction = drop_bit 4 (b ! 8),
                    fArgument = push_bit 8 (ucast (b ! 8 AND 0x0F)) OR ucast (b ! 9),
                    fSlot = be_word [b ! 10, b ! 11]\<rparr>))"

definition Encode :: "Fields \<Rightarrow> uformat_error + addr" where
  "Encode f = (case ValidateBlock (fBlock f) of Some e \<Rightarrow> Inl e
     | None \<Rightarrow>
       if fFunction f > 0x0F then Inl (FunctionOverflow (fFunction f))
       else if fArgument f > ArgumentMax then Inl (ArgumentOverflow (fArgument f))
       else Inr (AddrFrom16
         (be_bytes 8 (push_bit 16 (fBlock f) OR (ucast (fNodeID f) :: u64))
          @ [push_bit 4 (fFunction f) OR (ucast (drop_bit 8 (fArgument f)) AND 0x0F),
             ucast (fArgument f)]
          @ be_bytes 2 (fSlot f)
          @ [0, 0, 0, 0])))"

section \<open>Map keys\<close>

definition LocatorKeyFromAddr :: "addr \<Rightarrow> uformat_error + u64" where
  "LocatorKeyFromAddr a = (case as16 a of Inl e \<Rightarrow> Inl e | Inr b \<Rightarrow> Inr (be_word (take 8 b)))"

definition NewLocatorKey :: "u64 \<Rightarrow> u16 \<Rightarrow> uformat_error + u64" where
  "NewLocatorKey block nodeID = (case ValidateBlock block of Some e \<Rightarrow> Inl e
     | None \<Rightarrow> Inr (push_bit 16 block OR ucast nodeID))"

definition NewFunctionKey :: "u64 \<Rightarrow> u8 \<Rightarrow> uformat_error + u64" where
  "NewFunctionKey block function = (case ValidateBlock block of Some e \<Rightarrow> Inl e
     | None \<Rightarrow> if function > 0x0F then Inl (FunctionOverflow function)
              else Inr (push_bit 4 block OR ucast function))"

definition FunctionKeyFromAddr :: "addr \<Rightarrow> uformat_error + u64" where
  "FunctionKeyFromAddr a = (case Block a of Inl e \<Rightarrow> Inl e
     | Inr block \<Rightarrow> (case Function a of Inl e \<Rightarrow> Inl e
       | Inr function \<Rightarrow> NewFunctionKey block function))"

definition NewVRFKey :: "u64 \<Rightarrow> u16 \<Rightarrow> uformat_error + u64" where
  "NewVRFKey block argument = (case ValidateBlock block of Some e \<Rightarrow> Inl e
     | None \<Rightarrow> if argument > ArgumentMax then Inl (ArgumentOverflow argument)
              else Inr (push_bit 12 block OR ucast argument))"

definition VRFKeyFromAddr :: "addr \<Rightarrow> uformat_error + u64" where
  "VRFKeyFromAddr a = (case Block a of Inl e \<Rightarrow> Inl e
     | Inr block \<Rightarrow> (case Argument a of Inl e \<Rightarrow> Inl e
       | Inr argument \<Rightarrow> NewVRFKey block argument))"

section \<open>Fields as bit ranges of the address\<close>

lemma bit_be_bytes_nth [bits]:
  "i < 16 \<Longrightarrow> bit (As16 (Addr6 w z) ! i) n \<longleftrightarrow> n < 8 \<and> bit w (8 * (15 - i) + n)"
  by (simp add: As16_def bits)

lemma be_word_pair: "be_word [x, y] = (push_bit 8 (ucast x) OR ucast y :: 'a::len word)"
  by (simp add: be_word_def)

lemma bit_pair:
  "bit (push_bit 8 (ucast (x :: u8)) OR ucast (y :: u8) :: u16) n \<longleftrightarrow>
     (if n < 8 then bit y n else bit x (n - 8))"
  by (auto simp: bit_or_iff bit_push_bit_iff bit_unsigned_iff dest: bit_imp_le_length)

lemma addr_top64: "be_word (take 8 (As16 (Addr6 w z))) = (ucast (drop_bit 64 w) :: u64)"
proof (rule bit_word_eqI)
  fix n assume n: "n < LENGTH(64)"
  then have "n div 8 < 8" by auto
  then have "8 * (8 + n div 8) + n mod 8 = 64 + n" "7 - n div 8 < 16" "15 - (7 - n div 8) = 8 + n div 8"
    by auto
  with n show "bit (be_word (take 8 (As16 (Addr6 w z))) :: u64) n = bit (ucast (drop_bit 64 w) :: u64) n"
    by (simp add: bits bit_unsigned_iff bit_drop_bit_eq add.commute [of n])
qed

lemma addr_byte_pair:
  assumes "i < 15"
  shows "be_word [As16 (Addr6 w z) ! i, As16 (Addr6 w z) ! Suc i] = (ucast (drop_bit (8 * (14 - i)) w) :: u16)"
proof (rule bit_word_eqI)
  fix n assume n: "n < LENGTH(16)"
  have "15 - i = Suc (14 - i)" using assms by auto
  then have "8 \<le> n \<Longrightarrow> 8 * (15 - i) + (n - 8) = 8 * (14 - i) + n" by simp
  with n assms show "bit (be_word [As16 (Addr6 w z) ! i, As16 (Addr6 w z) ! Suc i] :: u16) n =
      bit (ucast (drop_bit (8 * (14 - i)) w) :: u16) n"
    by (auto simp: be_word_pair bit_pair bits bit_unsigned_iff bit_drop_bit_eq)
qed

lemma Block_Addr6: "Block (Addr6 w z) = Inr (ucast (drop_bit 80 w))"
  by (auto simp: Block_def as16_def Is6_def addr_top64 bit_eq_iff bit_unsigned_iff
      bit_drop_bit_eq dest: bit_imp_le_length)

lemma NodeID_Addr6: "NodeID (Addr6 w z) = Inr (ucast (drop_bit 64 w))"
  using addr_byte_pair [of 6 w z] by (simp add: NodeID_def as16_def Is6_def)

lemma Slot_Addr6: "Slot (Addr6 w z) = Inr (ucast (drop_bit 32 w))"
  using addr_byte_pair [of 10 w z] by (simp add: Slot_def as16_def Is6_def)

lemma Function_Addr6: "Function (Addr6 w z) = Inr (take_bit 4 (ucast (drop_bit 60 w)))"
  by (auto simp: Function_def as16_def Is6_def bit_eq_iff bits bit_unsigned_iff bit_take_bit_iff
      bit_drop_bit_eq)

lemma Argument_Addr6: "Argument (Addr6 w z) = Inr (take_bit 12 (ucast (drop_bit 48 w)))"
  by (auto simp: Argument_def as16_def Is6_def bit_eq_iff bit_pair bits bit_unsigned_iff
      bit_take_bit_iff bit_drop_bit_eq and_0F)

lemmas accessors_Addr6 = Block_Addr6 NodeID_Addr6 Function_Addr6 Argument_Addr6 Slot_Addr6

lemma padding_zero: "padding_byte (As16 (Addr6 w z)) = None \<longleftrightarrow> take_bit 32 w = 0"
proof -
  have byte: "As16 (Addr6 w z) ! i = 0 \<longleftrightarrow> (\<forall>n < 8. \<not> bit w (8 * (15 - i) + n))" if "i < 16" for i
    using that by (auto simp: bit_eq_iff bits)
  have "padding_byte (As16 (Addr6 w z)) = None \<longleftrightarrow> (\<forall>i \<in> {12..<16}. As16 (Addr6 w z) ! i = 0)"
    unfolding padding_byte_def find_None_iff set_upt by blast
  also have "\<dots> \<longleftrightarrow> (\<forall>n < 32. \<not> bit w n)"
  proof (intro iffI allI impI ballI)
    fix n :: nat assume all: "\<forall>i \<in> {12..<16}. As16 (Addr6 w z) ! i = 0" and n: "n < 32"
    then have "15 - n div 8 \<in> {12..<16}" "8 * (15 - (15 - n div 8)) + n mod 8 = n" by auto
    with all byte [of "15 - n div 8"] show "\<not> bit w n"
      by (metis atLeastLessThan_iff mod_less_divisor zero_less_numeral)
  next
    fix i :: nat assume "\<forall>n < 32. \<not> bit w n" "i \<in> {12..<16}"
    then show "As16 (Addr6 w z) ! i = 0" by (auto simp: byte)
  qed
  finally show ?thesis by (auto simp: bit_eq_iff bit_take_bit_iff)
qed

text \<open>The field values an address carries, and the address a field set denotes, as one word
  each: the reference the byte-level code is compared with.\<close>

definition fields_of_word :: "u128 \<Rightarrow> Fields" where
  "fields_of_word w = \<lparr>fBlock = ucast (drop_bit 80 w), fNodeID = ucast (drop_bit 64 w),
     fFunction = take_bit 4 (ucast (drop_bit 60 w)), fArgument = take_bit 12 (ucast (drop_bit 48 w)),
     fSlot = ucast (drop_bit 32 w)\<rparr>"

definition word_of_fields :: "Fields \<Rightarrow> u128" where
  "word_of_fields f = push_bit 80 (ucast (fBlock f)) OR push_bit 64 (ucast (fNodeID f))
     OR push_bit 60 (ucast (fFunction f)) OR push_bit 48 (ucast (fArgument f))
     OR push_bit 32 (ucast (fSlot f))"

text \<open>The field values \<open>Encode\<close> accepts.\<close>

definition fits :: "Fields \<Rightarrow> bool" where
  "fits f \<longleftrightarrow> fBlock f \<le> BlockMax \<and> fFunction f \<le> 0x0F \<and> fArgument f \<le> ArgumentMax"

lemma Decode_Addr6:
  "take_bit 32 w = 0 \<Longrightarrow> Decode (Addr6 w z) = Inr (fields_of_word w)"
  using Block_Addr6 [of w z] NodeID_Addr6 [of w z] Function_Addr6 [of w z]
    Argument_Addr6 [of w z] Slot_Addr6 [of w z] padding_zero [of w z]
  by (simp add: Decode_def as16_def Is6_def fields_of_word_def
      Block_def NodeID_def Function_def Argument_def Slot_def)

lemma Decode_Inr:
  assumes "Decode a = Inr f"
  obtains w z where "a = Addr6 w z" "take_bit 32 w = 0" "f = fields_of_word w"
proof -
  from assms obtain w z where a: "a = Addr6 w z"
    by (cases a) (auto simp: Decode_def as16_def Is6_def)
  from assms a have "padding_byte (As16 (Addr6 w z)) = None"
    by (auto simp: Decode_def as16_def Is6_def split: option.splits)
  then have "take_bit 32 w = 0" by (simp only: padding_zero)
  with assms a that show thesis by (auto simp: Decode_Addr6)
qed

lemma fits_bits:
  assumes "fits f"
  shows "bit (fBlock f) n \<Longrightarrow> n < 48" "bit (fFunction f) n \<Longrightarrow> n < 4" "bit (fArgument f) n \<Longrightarrow> n < 12"
proof -
  from assms have "fBlock f < 2 ^ 48" "fFunction f < 2 ^ 4" "fArgument f < 2 ^ 12"
    by (auto simp: fits_def BlockMax_def ArgumentMax_def word_less_nat_alt word_le_nat_alt)
  then show "bit (fBlock f) n \<Longrightarrow> n < 48" "bit (fFunction f) n \<Longrightarrow> n < 4" "bit (fArgument f) n \<Longrightarrow> n < 12"
    using bit_less_exp [of "fBlock f" 48 n] bit_less_exp [of "fFunction f" 4 n]
      bit_less_exp [of "fArgument f" 12 n] by simp_all
qed

lemma function_argument_word:
  assumes "fits f"
  shows "(be_word [push_bit 4 (fFunction f) OR (ucast (drop_bit 8 (fArgument f)) AND 0x0F),
      ucast (fArgument f)] :: u128) = push_bit 12 (ucast (fFunction f)) OR ucast (fArgument f)"
proof (rule bit_word_eqI)
  fix n
  assume "n < LENGTH(128)"
  consider "n < 8" | "8 \<le> n" "n < 12" | "12 \<le> n" "n < 16" | "16 \<le> n" by linarith
  then show "bit (be_word [push_bit 4 (fFunction f) OR (ucast (drop_bit 8 (fArgument f)) AND 0x0F),
      ucast (fArgument f)] :: u128) n =
      bit (push_bit 12 (ucast (fFunction f)) OR ucast (fArgument f) :: u128) n"
    using \<open>n < LENGTH(128)\<close>
    by cases (auto simp: be_word_pair bit_or_iff bit_push_bit_iff bit_unsigned_iff
        bit_drop_bit_eq and_0F bit_take_bit_iff dest: bit_imp_le_length fits_bits [OF assms])
qed

lemma Encode_fits: "fits f \<Longrightarrow> Encode f = Inr (Addr6 (word_of_fields f) [])"
proof -
  assume f: "fits f"
  let ?fa = "[push_bit 4 (fFunction f) OR (ucast (drop_bit 8 (fArgument f)) AND 0x0F), ucast (fArgument f)]"
  let ?top = "be_bytes 8 (push_bit 16 (fBlock f) OR (ucast (fNodeID f) :: u64))"
  have "(be_word (?top @ ?fa @ be_bytes 2 (fSlot f) @ [0, 0, 0, 0]) :: u128) =
      push_bit 64 (ucast (push_bit 16 (fBlock f) OR (ucast (fNodeID f) :: u64)))
      OR push_bit 48 (be_word ?fa) OR push_bit 32 (ucast (fSlot f))"
    unfolding be_word_append
    by (simp add: be_word_ucast push_bit_or or.assoc) (simp add: be_word_def)
  also have "\<dots> = word_of_fields f"
    unfolding function_argument_word [OF f] word_of_fields_def
    by (auto simp: bit_eq_iff bit_or_iff bit_push_bit_iff bit_unsigned_iff
        dest: bit_imp_le_length fits_bits [OF f])
  finally show ?thesis
    using f by (auto simp: Encode_def ValidateBlock_def fits_def AddrFrom16_def not_less)
qed

lemma Encode_Inr_fits: "Encode f = Inr a \<Longrightarrow> fits f"
  by (auto simp: Encode_def ValidateBlock_def fits_def not_less split: option.splits if_splits)

section \<open>Round trips\<close>

lemma fields_word_id: "fits f \<Longrightarrow> fields_of_word (word_of_fields f) = f"
proof -
  assume f: "fits f"
  note simps = word_of_fields_def bit_eq_iff bit_or_iff bit_push_bit_iff bit_unsigned_iff
    bit_drop_bit_eq bit_take_bit_iff
  note dests = bit_imp_le_length fits_bits [OF f]
  have "ucast (drop_bit 80 (word_of_fields f)) = fBlock f" by (auto simp: simps dest: dests)
  moreover have "ucast (drop_bit 64 (word_of_fields f)) = fNodeID f" by (auto simp: simps dest: dests)
  moreover have "take_bit 4 (ucast (drop_bit 60 (word_of_fields f))) = fFunction f"
    by (auto simp: simps dest: dests)
  moreover have "take_bit 12 (ucast (drop_bit 48 (word_of_fields f))) = fArgument f"
    by (auto simp: simps dest: dests)
  moreover have "ucast (drop_bit 32 (word_of_fields f)) = fSlot f" by (auto simp: simps dest: dests)
  ultimately show ?thesis by (simp add: fields_of_word_def)
qed

lemma padding_word_of_fields: "take_bit 32 (word_of_fields f) = 0"
  by (auto simp: word_of_fields_def bit_eq_iff bit_or_iff bit_push_bit_iff bit_take_bit_iff)

lemma block_of_word_le: "(ucast (drop_bit 80 (w :: u128)) :: u64) \<le> BlockMax"
proof -
  have "(ucast (drop_bit 80 w) :: u64) < 2 ^ 48"
    by (subst less_exp_iff_bits) (auto simp: bit_unsigned_iff bit_drop_bit_eq dest: bit_imp_le_length)
  then show ?thesis by (simp add: BlockMax_def word_less_nat_alt word_le_nat_alt)
qed

lemma function_of_word_le: "take_bit 4 (x :: u8) \<le> 0x0F"
proof -
  have "take_bit 4 x < 2 ^ 4" by (subst less_exp_iff_bits) (auto simp: bit_take_bit_iff)
  then show ?thesis by (simp add: word_less_nat_alt word_le_nat_alt)
qed

lemma argument_of_word_le: "take_bit 12 (x :: u16) \<le> ArgumentMax"
proof -
  have "take_bit 12 x < 2 ^ 12" by (subst less_exp_iff_bits) (auto simp: bit_take_bit_iff)
  then show ?thesis by (simp add: ArgumentMax_def word_less_nat_alt word_le_nat_alt)
qed

lemma fits_fields_of_word: "fits (fields_of_word w)"
  by (simp add: fits_def fields_of_word_def block_of_word_le function_of_word_le argument_of_word_le)

lemma word_fields_id: "take_bit 32 w = 0 \<Longrightarrow> word_of_fields (fields_of_word w) = w"
proof (rule bit_word_eqI)
  fix n
  assume "take_bit 32 w = 0" and n: "n < LENGTH(128)"
  then have low: "n < 32 \<Longrightarrow> \<not> bit w n" by (auto simp: bit_eq_iff bit_take_bit_iff)
  consider "n < 32" | "32 \<le> n" "n < 48" | "48 \<le> n" "n < 60" | "60 \<le> n" "n < 64"
    | "64 \<le> n" "n < 80" | "80 \<le> n" by linarith
  then show "bit (word_of_fields (fields_of_word w)) n = bit w n"
    using low n
    by cases (auto simp: word_of_fields_def fields_of_word_def bit_or_iff bit_push_bit_iff
        bit_unsigned_iff bit_drop_bit_eq bit_take_bit_iff)
qed

section \<open>Composite table keys\<close>

text \<open>
  The three key constructors share a contract: a key packs a Block and one narrower field of
  a fixed width below it, and refuses a value that overflows its part. A table keyed this way
  is collision free, and the key read from a packet is the key composed from its fields.
\<close>

locale composite_key =
  fixes new_key :: "u64 \<Rightarrow> 'f::len word \<Rightarrow> uformat_error + u64"
    and key_from_addr :: "addr \<Rightarrow> uformat_error + u64"
    and field :: "addr \<Rightarrow> uformat_error + 'f word"
    and width :: nat
  assumes width: "48 + width \<le> 64" "width \<le> LENGTH('f)"
    and new_key_Inr: "new_key b x = Inr k \<longleftrightarrow>
      b \<le> BlockMax \<and> (\<forall>n. bit x n \<longrightarrow> n < width) \<and> k = push_bit width b OR ucast x"
    and field_Addr6: "\<exists>x. field (Addr6 w z) = Inr x \<and> (\<forall>n. bit x n \<longrightarrow> n < width)"
    and from_addr_Addr6: "Block (Addr6 w z) = Inr b \<Longrightarrow> field (Addr6 w z) = Inr x \<Longrightarrow>
      key_from_addr (Addr6 w z) = new_key b x"
begin

lemma key_parts:
  assumes "new_key b x = Inr k"
  shows "drop_bit width k = b" and "take_bit width k = ucast x"
proof -
  from assms have b: "b \<le> BlockMax" and x: "\<And>n. bit x n \<Longrightarrow> n < width"
    and k: "k = push_bit width b OR ucast x" by (auto simp: new_key_Inr)
  have "b < 2 ^ 48" using b by (simp add: BlockMax_def word_less_nat_alt word_le_nat_alt)
  then have bb: "\<And>n. bit b n \<Longrightarrow> n < 48" using bit_less_exp [of b 48] by simp
  show "drop_bit width k = b"
    using width(1) by (auto simp: k bit_eq_iff bit_drop_bit_eq bit_or_iff bit_push_bit_iff
        bit_unsigned_iff dest: bb x)
  show "take_bit width k = ucast x"
    using width(1) by (auto simp: k bit_eq_iff bit_take_bit_iff bit_or_iff bit_push_bit_iff
        bit_unsigned_iff dest: x)
qed

lemma new_key_inj:
  assumes "new_key b x = Inr k" "new_key b' x' = Inr k"
  shows "b = b' \<and> x = x'"
proof -
  from assms have "b = b'" using key_parts(1) by metis
  have ux: "(ucast x :: u64) = ucast x'" using assms key_parts(2) by metis
  have "x = x'"
  proof (rule bit_word_eqI)
    fix n assume "n < LENGTH('f)"
    have "bit (ucast x :: u64) n = bit (ucast x' :: u64) n" by (simp add: ux)
    moreover have "bit x n \<Longrightarrow> n < 64" "bit x' n \<Longrightarrow> n < 64"
      using assms width(1) by (fastforce simp: new_key_Inr)+
    ultimately show "bit x n = bit x' n" by (auto simp: bit_unsigned_iff)
  qed
  with \<open>b = b'\<close> show ?thesis by simp
qed

lemma key_from_addr_total:
  assumes "Is6 a"
  obtains b x k where "Block a = Inr b" "field a = Inr x" "new_key b x = Inr k" "key_from_addr a = Inr k"
proof -
  from assms obtain w z where a: "a = Addr6 w z" by (elim Is6_cases)
  obtain x where x: "field a = Inr x" "\<forall>n. bit x n \<longrightarrow> n < width" using field_Addr6 a by blast
  let ?b = "ucast (drop_bit 80 w) :: u64"
  have b: "Block a = Inr ?b" by (simp add: a Block_Addr6)
  have "new_key ?b x = Inr (push_bit width ?b OR ucast x)"
    using x(2) by (simp add: new_key_Inr block_of_word_le)
  with a b x from_addr_Addr6 [of w z ?b x] that show thesis by simp
qed

lemma key_collision_free:
  assumes "Is6 a" "Is6 a'"
  shows "key_from_addr a = key_from_addr a' \<longleftrightarrow> Block a = Block a' \<and> field a = field a'"
proof -
  obtain b x k where k: "Block a = Inr b" "field a = Inr x" "new_key b x = Inr k" "key_from_addr a = Inr k"
    using key_from_addr_total [OF assms(1)] .
  obtain b' x' k' where k': "Block a' = Inr b'" "field a' = Inr x'" "new_key b' x' = Inr k'"
    "key_from_addr a' = Inr k'" using key_from_addr_total [OF assms(2)] .
  show ?thesis using k k' new_key_inj [of b x k b' x'] by auto
qed

lemma key_from_addr_eq_new:
  assumes "Is6 a" "Block a = Inr b" "field a = Inr x"
  shows "key_from_addr a = new_key b x"
  using assms from_addr_Addr6 by (elim Is6_cases) simp

end

lemma function_overflow_iff: "(x :: u8) > 0x0F \<longleftrightarrow> \<not> (\<forall>n. bit x n \<longrightarrow> n < 4)"
proof -
  have "x > 0x0F \<longleftrightarrow> \<not> x < 2 ^ 4" by (simp add: word_less_nat_alt) arith
  then show ?thesis using less_exp_iff_bits [of 4 x] by simp
qed

lemma argument_overflow_iff: "(x :: u16) > ArgumentMax \<longleftrightarrow> \<not> (\<forall>n. bit x n \<longrightarrow> n < 12)"
proof -
  have "x > ArgumentMax \<longleftrightarrow> \<not> x < 2 ^ 12" by (simp add: ArgumentMax_def word_less_nat_alt) arith
  then show ?thesis using less_exp_iff_bits [of 12 x] by simp
qed

interpretation function_key: composite_key NewFunctionKey FunctionKeyFromAddr Function 4
proof unfold_locales
  fix b :: u64 and x :: u8 and k
  show "NewFunctionKey b x = Inr k \<longleftrightarrow>
      b \<le> BlockMax \<and> (\<forall>n. bit x n \<longrightarrow> n < 4) \<and> k = push_bit 4 b OR ucast x"
    by (auto simp: NewFunctionKey_def ValidateBlock_def function_overflow_iff not_less)
qed (auto simp: Function_Addr6 FunctionKeyFromAddr_def bit_take_bit_iff)

interpretation vrf_key: composite_key NewVRFKey VRFKeyFromAddr Argument 12
proof unfold_locales
  fix b :: u64 and x :: u16 and k
  show "NewVRFKey b x = Inr k \<longleftrightarrow>
      b \<le> BlockMax \<and> (\<forall>n. bit x n \<longrightarrow> n < 12) \<and> k = push_bit 12 b OR ucast x"
    by (auto simp: NewVRFKey_def ValidateBlock_def argument_overflow_iff not_less)
qed (auto simp: Argument_Addr6 VRFKeyFromAddr_def bit_take_bit_iff)

interpretation locator_key: composite_key NewLocatorKey LocatorKeyFromAddr NodeID 16
proof unfold_locales
  fix b :: u64 and x :: u16 and k
  have "bit x n \<Longrightarrow> n < 16" for n using bit_imp_le_length [of x n] by simp
  then show "NewLocatorKey b x = Inr k \<longleftrightarrow>
      b \<le> BlockMax \<and> (\<forall>n. bit x n \<longrightarrow> n < 16) \<and> k = push_bit 16 b OR ucast x"
    by (auto simp: NewLocatorKey_def ValidateBlock_def not_less)
next
  fix w z b x
  assume "Block (Addr6 w z) = Inr b" "NodeID (Addr6 w z) = Inr x"
  then have "b = ucast (drop_bit 80 w)" "x = ucast (drop_bit 64 w)"
    by (simp_all add: Block_Addr6 NodeID_Addr6)
  moreover have "(ucast (drop_bit 64 w) :: u64) = push_bit 16 (ucast (drop_bit 80 w)) OR ucast (ucast (drop_bit 64 w) :: u16)"
    by (auto simp: bit_eq_iff bit_or_iff bit_push_bit_iff bit_unsigned_iff bit_drop_bit_eq)
  ultimately show "LocatorKeyFromAddr (Addr6 w z) = NewLocatorKey b x"
    using block_of_word_le [of w]
    by (simp add: LocatorKeyFromAddr_def NewLocatorKey_def as16_def Is6_def addr_top64 ValidateBlock_def)
qed (auto simp: NodeID_Addr6 bit_unsigned_iff)

section \<open>Properties\<close>


text \<open>C4. Every address \<open>Decode\<close> accepts is re-encoded to itself (a zone, which the wire format
  does not carry, is dropped), so a uSID has one field decomposition only.\<close>

theorem decode_encode:
  assumes "Decode a = Inr f"
  shows "Encode f = Inr (withoutZone a)"
  using assms
  by (elim Decode_Inr) (simp add: Encode_fits fits_fields_of_word word_fields_id)

theorem decode_encode_witness:
  "Encode \<lparr>fBlock = 0xFD00, fNodeID = 7, fFunction = 0xE, fArgument = 5, fSlot = 3\<rparr>
     = Inr (withoutZone (Addr6 0xFD000007E005000300000000 ''eth0''))"
proof (rule decode_encode)
  show "Decode (Addr6 0xFD000007E005000300000000 ''eth0'') =
      Inr \<lparr>fBlock = 0xFD00, fNodeID = 7, fFunction = 0xE, fArgument = 5, fSlot = 3\<rparr>"
    by (subst Decode_Addr6) (simp_all add: fields_of_word_def)
qed

text \<open>C32. The keys the datapath reads off a packet are the keys the control plane registers: for an
  address built by \<open>Encode\<close>, each \<open>...KeyFromAddr\<close> equals the key composed from the CRD's
  field values.\<close>

theorem keys_from_encoded_addr:
  assumes "Encode f = Inr a"
  shows "LocatorKeyFromAddr a = NewLocatorKey (fBlock f) (fNodeID f) \<and>
    FunctionKeyFromAddr a = NewFunctionKey (fBlock f) (fFunction f) \<and>
    VRFKeyFromAddr a = NewVRFKey (fBlock f) (fArgument f)"
proof -
  from assms have f: "fits f" by (rule Encode_Inr_fits)
  let ?w = "word_of_fields f"
  from f have fw: "fields_of_word ?w = f" by (rule fields_word_id)
  have a: "a = Addr6 ?w []" using assms f by (simp add: Encode_fits)
  have "Block a = Inr (fBlock (fields_of_word ?w))" "NodeID a = Inr (fNodeID (fields_of_word ?w))"
    "Function a = Inr (fFunction (fields_of_word ?w))" "Argument a = Inr (fArgument (fields_of_word ?w))"
    by (simp_all add: a accessors_Addr6 fields_of_word_def)
  moreover have "Is6 a" by (simp add: a Is6_def)
  ultimately show ?thesis
    by (simp add: fw locator_key.key_from_addr_eq_new function_key.key_from_addr_eq_new
        vrf_key.key_from_addr_eq_new)
qed

theorem keys_from_encoded_addr_witness:
  "let f = \<lparr>fBlock = 0xFD00, fNodeID = 7, fFunction = 0xE, fArgument = 5, fSlot = 3\<rparr>;
       a = Addr6 (word_of_fields f) []
   in Encode f = Inr a \<and> FunctionKeyFromAddr a = NewFunctionKey 0xFD00 0xE \<and>
      VRFKeyFromAddr a = NewVRFKey 0xFD00 5"
proof -
  let ?f = "\<lparr>fBlock = 0xFD00, fNodeID = 7, fFunction = 0xE, fArgument = 5, fSlot = 3\<rparr>"
  have "Encode ?f = Inr (Addr6 (word_of_fields ?f) [])"
    by (rule Encode_fits) (simp add: fits_def BlockMax_def ArgumentMax_def)
  with keys_from_encoded_addr [OF this] show ?thesis by simp
qed



end
