(* ===== verification/Nptv6.thy ===== *)
theory Nptv6
  imports Netpkg
begin

unbundle bit_operations_syntax

text \<open>
  \<open>internal/plumbing/nptv6\<close>: RFC 6296 prefix translation for prefixes of at most 48 bits. An
  outbound packet's ULA prefix is replaced by the public prefix of the same length and the
  16-bit word at byte 6 absorbs the checksum difference in one's-complement arithmetic; inbound
  is the reverse. The theory shows that translation never fails inside the source prefix, lands
  in the target prefix, leaves the interface identifier alone and keeps the address's checksum
  contribution, and settles when translating back restores the address.
\<close>

section \<open>The code\<close>

definition maxSupportedPrefixLen :: nat where "maxSupportedPrefixLen = 48"

text \<open>A nil \<open>*net.IPNet\<close> is \<open>None\<close>.\<close>

record Mapping =
  ULAPrefix :: "IPNet option"
  PublicPrefix :: "IPNet option"

datatype nptv6_error = PrefixesRequired | PrefixesNotIPv6 | PrefixLengthMismatch nat nat
  | PrefixTooLong nat | AddressNotIPv6 | AddressNotInPrefix

definition prefixLen :: "Mapping \<Rightarrow> nptv6_error + nat" where
  "prefixLen m = (case (ULAPrefix m, PublicPrefix m) of
     (Some u, Some p) \<Rightarrow>
       (let (ulaOnes, ulaBits) = mask_Size (nMask u); (pubOnes, pubBits) = mask_Size (nMask p)
        in if ulaBits \<noteq> 128 \<or> pubBits \<noteq> 128 then Inl PrefixesNotIPv6
           else if ulaOnes \<noteq> pubOnes then Inl (PrefixLengthMismatch ulaOnes pubOnes)
           else if ulaOnes > maxSupportedPrefixLen then Inl (PrefixTooLong ulaOnes)
           else Inr ulaOnes)
   | _ \<Rightarrow> Inl PrefixesRequired)"

text \<open>The loop \<open>for sum>>16 != 0\<close> that folds the carries back in.\<close>

lemma unat_fold_step:
  "unat ((s AND 0xFFFF) + drop_bit 16 (s :: u32)) = unat s mod 65536 + unat s div 65536"
proof -
  have lo: "unat (s AND 0xFFFF) = unat s mod 65536"
    using take_bit_eq_mask [of 16 s] unsigned_take_bit_eq [of 16 s, where 'a = nat]
    by (simp add: mask_eq_exp_minus_1 take_bit_eq_mod)
  have hi: "unat (drop_bit 16 s) = unat s div 65536"
    by (simp add: drop_bit_eq_div unat_div)
  have "unat s < 2 ^ 32" using unsigned_less [of s, where 'a = nat] by simp
  then have "unat s mod 65536 + unat s div 65536 < 2 ^ 32" by auto
  then show ?thesis by (simp add: unat_word_ariths lo hi)
qed

lemma unat_high_half: "drop_bit 16 (s :: u32) \<noteq> 0 \<longleftrightarrow> 65536 \<le> unat s"
proof -
  have "drop_bit 16 s = 0 \<longleftrightarrow> unat (drop_bit 16 s) = 0" by (simp add: unsigned_eq_0_iff)
  also have "\<dots> \<longleftrightarrow> unat s div 65536 = 0" by (simp add: drop_bit_eq_div unat_div)
  finally show ?thesis by (auto simp: div_eq_0_iff)
qed

lemma fold_step_decreases: "65536 \<le> (n :: nat) \<Longrightarrow> n mod 65536 + n div 65536 < n"
proof -
  assume "65536 \<le> n"
  then have "0 < n div 65536" by (simp add: div_greater_zero_iff)
  moreover have "n = 65536 * (n div 65536) + n mod 65536" by simp
  ultimately show ?thesis by linarith
qed

function fold_carries :: "u32 \<Rightarrow> u32" where
  "fold_carries s = (if drop_bit 16 s \<noteq> 0
     then fold_carries ((s AND 0xFFFF) + drop_bit 16 s) else s)"
  by pat_completeness auto
termination
  by (relation "measure unat") (simp_all only: in_measure unat_fold_step unat_high_half fold_step_decreases wf_measure)

declare fold_carries.simps [simp del]

definition onesComplementAdd :: "u16 \<Rightarrow> u16 \<Rightarrow> u16" where
  "onesComplementAdd a b = ucast (fold_carries (ucast a + ucast b))"

definition word16 :: "IP \<Rightarrow> nat \<Rightarrow> u16" where
  "word16 ip i = be_word [ip ! i, ip ! Suc i]"

definition prefixChecksum :: "IP \<Rightarrow> u16" where
  "prefixChecksum prefix = (let ip = To16 prefix
     in NOT (ucast (fold_carries (fold (\<lambda>i s. s + ucast (word16 ip i)) [0, 2, 4] 0))))"

definition Adjustment :: "Mapping \<Rightarrow> nptv6_error + u16" where
  "Adjustment m = (case prefixLen m of Inl e \<Rightarrow> Inl e
     | Inr _ \<Rightarrow> (let intChecksum = prefixChecksum (nIP (the (ULAPrefix m)));
                     pubChecksum = prefixChecksum (nIP (the (PublicPrefix m)))
                 in Inr (onesComplementAdd pubChecksum (NOT intChecksum))))"

definition copyPrefixBits :: "IP \<Rightarrow> IP \<Rightarrow> nat \<Rightarrow> IP" where
  "copyPrefixBits dst src n =
     (let fullBytes = n div 8; dst = take fullBytes src @ drop fullBytes dst; remBits = n mod 8
      in if remBits \<noteq> 0 then
           (let mask = push_bit (8 - remBits) 0xFF
            in dst[fullBytes := (src ! fullBytes AND mask) OR (dst ! fullBytes AND NOT mask)])
         else dst)"

definition put_word16 :: "IP \<Rightarrow> nat \<Rightarrow> u16 \<Rightarrow> IP" where
  "put_word16 ip i w = ip[i := be_byte 2 0 w, Suc i := be_byte 2 1 w]"

definition Translate :: "Mapping \<Rightarrow> IP \<Rightarrow> bool \<Rightarrow> nptv6_error + IP" where
  "Translate m addr outbound = (case prefixLen m of Inl e \<Rightarrow> Inl e
   | Inr n \<Rightarrow>
     (let addr16 = To16 addr in
      if addr16 = [] \<or> To4 addr \<noteq> [] then Inl AddressNotIPv6
      else
       (let (from, to) = (if outbound then (the (ULAPrefix m), the (PublicPrefix m))
                          else (the (PublicPrefix m), the (ULAPrefix m)))
        in if \<not> net_Contains from addr16 then Inl AddressNotInPrefix
           else
            (let result = copyPrefixBits addr16 (nIP to) n
             in case Adjustment m of Inl e \<Rightarrow> Inl e
                | Inr adjustment \<Rightarrow>
                  (let word = word16 result 6;
                       word = (if outbound then onesComplementAdd word adjustment
                               else onesComplementAdd word (NOT adjustment))
                   in Inr (put_word16 result 6 word))))))"

section \<open>One's-complement arithmetic\<close>

lemma fold_step_mod: "((n :: nat) mod 65536 + n div 65536) mod 65535 = n mod 65535"
proof -
  have "n mod 65535 = (65536 * (n div 65536) + n mod 65536) mod 65535" by simp
  also have "\<dots> = (65535 * (n div 65536) + (n div 65536 + n mod 65536)) mod 65535" by simp
  also have "\<dots> = (n div 65536 + n mod 65536) mod 65535" by (rule mod_mult_self4)
  finally show ?thesis by (simp add: add.commute)
qed

lemma unat_fold_carries:
  "unat (fold_carries s) < 65536 \<and> unat (fold_carries s) mod 65535 = unat s mod 65535 \<and>
     (fold_carries s = 0 \<longleftrightarrow> s = 0)"
proof (induction s rule: fold_carries.induct)
  case (1 s)
  show ?case
  proof (cases "drop_bit 16 s \<noteq> 0")
    case True
    let ?t = "(s AND 0xFFFF) + drop_bit 16 s"
    from True have "65536 \<le> unat s" by (simp only: unat_high_half)
    then have "unat ?t \<noteq> 0" "s \<noteq> 0" by (auto simp: unat_fold_step div_eq_0_iff)
    then have "?t \<noteq> 0" by (metis unsigned_0)
    moreover have "unat ?t mod 65535 = unat s mod 65535" by (simp only: unat_fold_step fold_step_mod)
    moreover have "fold_carries s = fold_carries ?t" using True by (simp add: fold_carries.simps [of s])
    ultimately show ?thesis using "1.IH" [OF True] \<open>s \<noteq> 0\<close> by simp
  next
    case False
    then have "unat s < 65536" using unat_high_half [of s] by auto
    moreover have "fold_carries s = s" using False by (simp add: fold_carries.simps [of s])
    ultimately show ?thesis by simp
  qed
qed

lemma unat_ucast_fold: "unat (ucast (fold_carries s) :: u16) = unat (fold_carries s)"
  using unat_fold_carries [of s] by (simp add: unsigned_ucast_eq take_bit_eq_mod)

lemma unat_ucast_add: "unat (ucast (a :: u16) + ucast (b :: u16) :: u32) = unat a + unat b"
  using unat_u16_less [of a] unat_u16_less [of b] by (simp add: unat_word_ariths unat_ucast_u16)

lemma unat_onesComplementAdd:
  "unat (onesComplementAdd a b) mod 65535 = (unat a + unat b) mod 65535"
  using unat_fold_carries [of "ucast a + ucast b"]
  by (simp add: onesComplementAdd_def unat_ucast_fold unat_ucast_add)

lemma unat_eq_0: "unat (x :: 'a::len word) = 0 \<longleftrightarrow> x = 0"
  by (metis unsigned_0 unsigned_word_eqI)

lemma onesComplementAdd_0: "onesComplementAdd a b = 0 \<longleftrightarrow> a = 0 \<and> b = 0"
proof -
  have "onesComplementAdd a b = 0 \<longleftrightarrow> fold_carries (ucast a + ucast b) = 0"
    by (metis onesComplementAdd_def unat_ucast_fold unat_eq_0)
  also have "\<dots> \<longleftrightarrow> unat (ucast a + ucast b :: u32) = 0"
    using unat_fold_carries [of "ucast a + ucast b"] by (simp add: unat_eq_0)
  finally show ?thesis by (simp add: unat_ucast_add unat_eq_0)
qed

lemma unat_not: "unat (NOT (a :: u16)) = 65535 - unat a"
proof -
  have "NOT a = - 1 - a" by (simp add: not_eq_complement)
  moreover have "a \<le> - 1" by simp
  ultimately have "unat (NOT a) = unat (- 1 :: u16) - unat a" by (simp add: unat_sub)
  then show ?thesis by (simp add: unsigned_minus_1_eq_mask mask_eq_exp_minus_1)
qed

text \<open>Adding an adjustment and then its complement is the identity on every word but zero, and
  takes zero to all ones.\<close>

lemma u16_mod_cases: "n < 65536 \<Longrightarrow> n mod 65535 = (if n = 65535 then 0 else n :: nat)"
  by simp

lemma u16_mod_unique:
  assumes "unat y mod 65535 = unat x mod 65535" "y \<noteq> 0"
  shows "y = (if x = 0 then 0xFFFF else (x :: u16))"
proof -
  have y: "unat y \<noteq> 0" using assms(2) by (simp add: unat_eq_0)
  have "unat y < 65536" "unat x < 65536" by (rule unat_u16_less)+
  then have "unat y = (if unat x = 0 then 65535 else unat x)"
    using assms(1) y u16_mod_cases [of "unat x"] u16_mod_cases [of "unat y"]
    by (auto split: if_splits)
  then have "unat y = unat (if x = 0 then 0xFFFF else x)" by (simp add: unat_eq_0)
  then show ?thesis by (rule unsigned_word_eqI)
qed

lemma ones_add_sub:
  "onesComplementAdd (onesComplementAdd x a) (NOT a) = (if x = 0 then 0xFFFF else x)"
  "onesComplementAdd (onesComplementAdd x (NOT a)) a = (if x = 0 then 0xFFFF else x)"
proof -
  have a: "unat a \<le> 65535" using unat_u16_less [of a] by simp
  have nz: "a = 0 \<Longrightarrow> NOT a \<noteq> 0" by simp
  show "onesComplementAdd (onesComplementAdd x a) (NOT a) = (if x = 0 then 0xFFFF else x)"
  proof (rule u16_mod_unique)
    have "unat (onesComplementAdd (onesComplementAdd x a) (NOT a)) mod 65535
        = ((unat x + unat a) + (65535 - unat a)) mod 65535"
      by (metis unat_onesComplementAdd unat_not mod_add_left_eq)
    also have "\<dots> = unat x mod 65535" using a by simp
    finally show "unat (onesComplementAdd (onesComplementAdd x a) (NOT a)) mod 65535 = unat x mod 65535" .
    show "onesComplementAdd (onesComplementAdd x a) (NOT a) \<noteq> 0"
      using nz by (simp add: onesComplementAdd_0)
  qed
  show "onesComplementAdd (onesComplementAdd x (NOT a)) a = (if x = 0 then 0xFFFF else x)"
  proof (rule u16_mod_unique)
    have "unat (onesComplementAdd (onesComplementAdd x (NOT a)) a) mod 65535
        = ((unat x + (65535 - unat a)) + unat a) mod 65535"
      by (metis unat_onesComplementAdd unat_not mod_add_left_eq)
    also have "\<dots> = unat x mod 65535" using a by simp
    finally show "unat (onesComplementAdd (onesComplementAdd x (NOT a)) a) mod 65535 = unat x mod 65535" .
    show "onesComplementAdd (onesComplementAdd x (NOT a)) a \<noteq> 0"
      using nz by (auto simp: onesComplementAdd_0)
  qed
qed

section \<open>Bytes and words\<close>

lemma unat_mask_split: "unat (x AND m) + unat (x AND NOT m) = unat (x :: 'a::len word)"
proof -
  have "(x AND m) AND (x AND NOT m) = 0" "(x AND m) OR (x AND NOT m) = x"
    by (auto simp: bit_eq_iff bit_and_iff bit_or_iff bit_not_iff)
  then show ?thesis using unat_or_disjoint [of "x AND m" "x AND NOT m"] by simp
qed

lemma unat_word16: "unat (word16 ip i) = 256 * unat (ip ! i) + unat (ip ! Suc i)"
  by (simp add: word16_def be_word_def unat_byte_pair)

lemma word16_put [simp]: "Suc i < length ip \<Longrightarrow> word16 (put_word16 ip i w) i = w"
proof -
  assume "Suc i < length ip"
  then have "word16 (put_word16 ip i w) i = be_word (be_bytes 2 w)"
    by (simp add: word16_def put_word16_def be_bytes_def numeral_2_eq_2)
  then show ?thesis by simp
qed

lemma put_word16_id: "Suc i < length ip \<Longrightarrow> put_word16 ip i (word16 ip i) = ip"
proof -
  assume i: "Suc i < length ip"
  have "be_bytes 2 (be_word [ip ! i, ip ! Suc i] :: u16) = [ip ! i, ip ! Suc i]"
    by (rule be_bytes_be_word) simp_all
  then have "be_byte 2 0 (word16 ip i) = ip ! i" "be_byte 2 1 (word16 ip i) = ip ! Suc i"
    by (simp_all add: be_bytes_def word16_def numeral_2_eq_2)
  then show ?thesis by (simp add: put_word16_def)
qed

lemma length_put_word16 [simp]: "length (put_word16 ip i w) = length ip"
  by (simp add: put_word16_def)

lemma nth_put_word16 [simp]: "j \<noteq> i \<Longrightarrow> j \<noteq> Suc i \<Longrightarrow> put_word16 ip i w ! j = ip ! j"
  by (simp add: put_word16_def)

lemma length_copyPrefixBits [simp]:
  "length dst = 16 \<Longrightarrow> length src = 16 \<Longrightarrow> n \<le> 128 \<Longrightarrow> length (copyPrefixBits dst src n) = 16"
  by (auto simp: copyPrefixBits_def Let_def)

lemma nth_copyPrefixBits:
  assumes "length dst = 16" "length src = 16" "n \<le> 48" "i < 16"
  shows "copyPrefixBits dst src n ! i = (src ! i AND mask_byte n i) OR (dst ! i AND NOT (mask_byte n i))"
proof -
  have base: "(take (n div 8) src @ drop (n div 8) dst) ! i = (if i < n div 8 then src ! i else dst ! i)"
    using assms by (auto simp: nth_append)
  have "n = 8 * (n div 8) + n mod 8" "n mod 8 < 8" by simp_all
  then consider "i < n div 8" | "i = n div 8" "n mod 8 \<noteq> 0" | "n \<le> 8 * i"
    by (cases "i < n div 8"; cases "i = n div 8"; cases "n mod 8 = 0") linarith+
  then show ?thesis
  proof cases
    case 1
    then have "mask_byte n i = - 1" by (intro mask_byte_full) auto
    with 1 base show ?thesis using assms
      by (auto simp: copyPrefixBits_def Let_def nth_list_update)
  next
    case 2
    then have r: "n - 8 * i = n mod 8" by (simp add: minus_mult_div_eq_mod)
    have "push_bit (8 - n mod 8) 0xFF = mask_byte n i"
    proof -
      have "(0xFF :: u8) = - 1" by simp
      then show ?thesis unfolding mask_byte_def prefix_mask_def r
        by (simp only: push_bit_minus_one_eq_not_mask len_num1 len_num0 len_bit0 len_bit1) simp
    qed
    with 2 base show ?thesis using assms by (simp add: copyPrefixBits_def Let_def)
  next
    case 3
    then have "i = n div 8 \<Longrightarrow> n mod 8 = 0" using \<open>n = 8 * (n div 8) + n mod 8\<close> by linarith
    with 3 base show ?thesis using assms by (auto simp: copyPrefixBits_def Let_def nth_list_update)
  qed
qed

section \<open>Translation\<close>

text \<open>A mapping as the control plane builds it: two parsed IPv6 prefixes of one supported
  length.\<close>

definition wf_mapping :: "nat \<Rightarrow> IPNet \<Rightarrow> IPNet \<Rightarrow> Mapping \<Rightarrow> bool" where
  "wf_mapping n u p m \<longleftrightarrow> ULAPrefix m = Some u \<and> PublicPrefix m = Some p \<and>
     cidr6 n u \<and> cidr6 n p \<and> n \<le> 48"

definition adj :: "IPNet \<Rightarrow> IPNet \<Rightarrow> u16" where
  "adj u p = onesComplementAdd (prefixChecksum (nIP p)) (NOT (prefixChecksum (nIP u)))"

lemma prefixLen_wf: "wf_mapping n u p m \<Longrightarrow> prefixLen m = Inr n"
  by (simp add: wf_mapping_def prefixLen_def cidr6_iff mask_Size_CIDRMask maxSupportedPrefixLen_def)

lemma Adjustment_wf: "wf_mapping n u p m \<Longrightarrow> Adjustment m = Inr (adj u p)"
  by (simp add: Adjustment_def prefixLen_wf adj_def) (simp add: wf_mapping_def)

text \<open>Membership of a short prefix, byte by byte.\<close>

definition in_prefix :: "nat \<Rightarrow> IP \<Rightarrow> IP \<Rightarrow> bool" where
  "in_prefix n ip a \<longleftrightarrow> (\<forall>i < 16. ip ! i = a ! i AND mask_byte n i)"

lemma cidr6_To4: "cidr6 n p \<Longrightarrow> n \<le> 48 \<Longrightarrow> To4 (nIP p) = []"
proof -
  assume p: "cidr6 n p" "n \<le> 48"
  then have "nIP p ! 10 = 0" by (auto intro: cidr6_short_zero)
  then have ten: "take 12 (nIP p) ! 10 = 0" by simp
  have "v4InV6Prefix ! 10 \<noteq> 0" by (simp add: v4InV6Prefix_def nth_append)
  with ten have "take 12 (nIP p) \<noteq> v4InV6Prefix" by metis
  with p show ?thesis by (simp add: To4_def cidr6_iff)
qed

lemma net_Contains_wf:
  assumes "cidr6 n p" "n \<le> 48" "length a = 16" "To4 a = []"
  shows "net_Contains p a \<longleftrightarrow> in_prefix n (nIP p) a"
proof -
  have "networkNumberAndMask p = Some (nIP p, CIDRMask n 128)"
    using assms cidr6_To4 [OF assms(1,2)] by (simp add: networkNumberAndMask_def cidr6_iff)
  then show ?thesis using assms by (auto simp: net_Contains_def in_prefix_def cidr6_iff list_all_iff simp del: upt_Suc)
qed

definition translated :: "nat \<Rightarrow> IP \<Rightarrow> u16 \<Rightarrow> IP \<Rightarrow> IP" where
  "translated n to_ip adjustment a =
     (let result = copyPrefixBits a to_ip n
      in put_word16 result 6 (onesComplementAdd (word16 result 6) adjustment))"

lemma To16_v6: "To16 a \<noteq> [] \<Longrightarrow> To4 a = [] \<Longrightarrow> length a = 16 \<and> To16 a = a"
  by (auto simp: To16_def To4_def split: if_splits)

lemma Translate_Inr:
  assumes "wf_mapping n u p m"
  shows "Translate m a out = Inr r \<longleftrightarrow>
    length a = 16 \<and> To4 a = [] \<and> in_prefix n (nIP (if out then u else p)) a \<and>
    r = translated n (nIP (if out then p else u)) (if out then adj u p else NOT (adj u p)) a"
proof (cases "To16 a \<noteq> [] \<and> To4 a = []")
  case True
  then have a: "length a = 16" "To16 a = a" "To4 a = []" using To16_v6 by auto
  then have "a \<noteq> []" by auto
  from assms have w: "ULAPrefix m = Some u" "PublicPrefix m = Some p" "cidr6 n u" "cidr6 n p" "n \<le> 48"
    by (auto simp: wf_mapping_def)
  note c = net_Contains_wf [OF w(3) w(5) a(1) a(3)] net_Contains_wf [OF w(4) w(5) a(1) a(3)]
  show ?thesis
    using a \<open>a \<noteq> []\<close> w c
    by (cases out) (auto simp: Translate_def prefixLen_wf [OF assms] Adjustment_wf [OF assms]
        translated_def Let_def)
next
  case False
  then have "Translate m a out = Inl AddressNotIPv6"
    by (auto simp: Translate_def prefixLen_wf [OF assms] Let_def)
  moreover have "\<not> (length a = 16 \<and> To4 a = [])" using False by (auto simp: To16_def)
  ultimately show ?thesis by auto
qed

lemma length_translated [simp]: "length a = 16 \<Longrightarrow> length t = 16 \<Longrightarrow> n \<le> 48 \<Longrightarrow> length (translated n t w a) = 16"
  by (simp add: translated_def Let_def)

lemma nth_translated:
  assumes "length a = 16" "length t = 16" "n \<le> 48" "i < 16"
  shows "i \<noteq> 6 \<Longrightarrow> i \<noteq> 7 \<Longrightarrow>
      translated n t w a ! i = (t ! i AND mask_byte n i) OR (a ! i AND NOT (mask_byte n i))"
    and "8 \<le> i \<Longrightarrow> translated n t w a ! i = a ! i"
    and "word16 (translated n t w a) 6 = onesComplementAdd (word16 a 6) w"
proof -
  show "i \<noteq> 6 \<Longrightarrow> i \<noteq> 7 \<Longrightarrow>
      translated n t w a ! i = (t ! i AND mask_byte n i) OR (a ! i AND NOT (mask_byte n i))"
    using assms by (simp add: translated_def Let_def nth_copyPrefixBits)
  show "8 \<le> i \<Longrightarrow> translated n t w a ! i = a ! i"
    using assms by (simp add: translated_def Let_def nth_copyPrefixBits)
  have "word16 (copyPrefixBits a t n) 6 = word16 a 6"
    using assms by (simp add: word16_def nth_copyPrefixBits)
  then show "word16 (translated n t w a) 6 = onesComplementAdd (word16 a 6) w"
    using assms by (simp add: translated_def Let_def)
qed

lemma in_prefix_translated:
  assumes "length a = 16" "cidr6 n t" "n \<le> 48"
  shows "in_prefix n (nIP t) (translated n (nIP t) w a)"
  unfolding in_prefix_def
proof (intro allI impI)
  fix i :: nat assume i: "i < 16"
  have t: "length (nIP t) = 16" "nIP t ! i AND mask_byte n i = nIP t ! i"
    using assms i by (auto simp: cidr6_iff)
  show "nIP t ! i = translated n (nIP t) w a ! i AND mask_byte n i"
  proof (cases "i < 6")
    case True
    have "(x AND m OR y AND NOT m) AND m = x AND m" for x y m :: u8
      by (auto simp: bit_eq_iff bit_and_iff bit_or_iff bit_not_iff)
    moreover have "translated n (nIP t) w a ! i =
        (nIP t ! i AND mask_byte n i) OR (a ! i AND NOT (mask_byte n i))"
      using True nth_translated(1) [OF assms(1) t(1) assms(3) i] by simp
    ultimately show ?thesis using t(2) by metis
  next
    case False
    then show ?thesis using t assms i cidr6_short_zero [OF assms(2,3)] by simp
  qed
qed

lemma translated_back:
  assumes "length a = 16" "cidr6 n f" "cidr6 n t" "n \<le> 48" "in_prefix n (nIP f) a"
  shows "translated n (nIP f) v (translated n (nIP t) w a) =
    put_word16 a 6 (onesComplementAdd (onesComplementAdd (word16 a 6) w) v)"
proof (rule nth_equalityI)
  have len: "length (nIP f) = 16" "length (nIP t) = 16" using assms by (auto simp: cidr6_iff)
  let ?b = "translated n (nIP t) w a"
  have b: "length ?b = 16" using assms len by simp
  show "length (translated n (nIP f) v ?b) = length (put_word16 a 6 (onesComplementAdd (onesComplementAdd (word16 a 6) w) v))"
    using b len assms by simp
  fix i assume "i < length (translated n (nIP f) v ?b)"
  then have i: "i < 16" using b len assms by simp
  show "translated n (nIP f) v ?b ! i =
      put_word16 a 6 (onesComplementAdd (onesComplementAdd (word16 a 6) w) v) ! i"
  proof (cases "i = 6 \<or> i = 7")
    case True
    have "word16 ?b 6 = onesComplementAdd (word16 a 6) w"
      using nth_translated(3) [OF assms(1) len(2) assms(4), of 0] by simp
    moreover have "word16 (copyPrefixBits ?b (nIP f) n) 6 = word16 ?b 6"
      using b len assms(4) by (simp add: word16_def nth_copyPrefixBits)
    ultimately show ?thesis
      using True b len assms by (auto simp: translated_def [of n "nIP f"] Let_def put_word16_def)
  next
    case False
    have "(x AND m OR (y AND m OR z AND NOT m) AND NOT m) = (x AND m) OR (z AND NOT m)" for x y z m :: u8
      by (auto simp: bit_eq_iff bit_and_iff bit_or_iff bit_not_iff)
    moreover have "(z AND m) AND m OR z AND NOT m = z" for z m :: u8
      by (auto simp: bit_eq_iff bit_and_iff bit_or_iff bit_not_iff)
    moreover have "nIP f ! i = a ! i AND mask_byte n i" using assms(5) i by (simp add: in_prefix_def)
    ultimately show ?thesis
      using False nth_translated(1) [OF assms(1) len(2) assms(4) i] nth_translated(1) [OF b len(1) assms(4) i]
      by simp
  qed
qed

text \<open>The contribution of an address to a transport checksum: the sum of its eight 16-bit words,
  which counts modulo 65535.\<close>

definition address_sum :: "IP \<Rightarrow> nat" where
  "address_sum ip = sum_list (map (\<lambda>i. unat (word16 ip i)) [0, 2, 4, 6, 8, 10, 12, 14])"

definition prefix_sum :: "IP \<Rightarrow> nat" where
  "prefix_sum ip = unat (word16 ip 0) + unat (word16 ip 2) + unat (word16 ip 4)"

lemma unat_prefixChecksum:
  assumes "length ip = 16"
  shows "(unat (prefixChecksum ip) + prefix_sum ip) mod 65535 = 0"
    and "unat (NOT (prefixChecksum ip)) mod 65535 = prefix_sum ip mod 65535"
proof -
  let ?s = "ucast (word16 ip 0) + ucast (word16 ip 2) + ucast (word16 ip 4) :: u32"
  have "unat ?s = prefix_sum ip"
    using unat_u16_less [of "word16 ip 0"] unat_u16_less [of "word16 ip 2"] unat_u16_less [of "word16 ip 4"]
    by (simp add: prefix_sum_def unat_word_ariths unat_ucast_u16)
  then have s: "unat (ucast (fold_carries ?s) :: u16) mod 65535 = prefix_sum ip mod 65535"
    using unat_fold_carries [of ?s] by (simp add: unat_ucast_fold)
  have c: "prefixChecksum ip = NOT (ucast (fold_carries ?s))"
    using assms by (simp add: prefixChecksum_def To16_def)
  show "unat (NOT (prefixChecksum ip)) mod 65535 = prefix_sum ip mod 65535" using c s by simp
  let ?f = "unat (ucast (fold_carries ?s) :: u16)"
  have "(unat (prefixChecksum ip) + prefix_sum ip) mod 65535 = ((65535 - ?f) + ?f) mod 65535"
    unfolding c unat_not by (rule mod_add_cong [OF refl s [symmetric]])
  also have "\<dots> = 0" using unat_u16_less [of "ucast (fold_carries ?s)"] by simp
  finally show "(unat (prefixChecksum ip) + prefix_sum ip) mod 65535 = 0" .
qed

lemma adj_mod:
  assumes "length (nIP u) = 16" "length (nIP p) = 16"
  shows "(unat (adj u p) + prefix_sum (nIP p)) mod 65535 = prefix_sum (nIP u) mod 65535"
    and "(unat (NOT (adj u p)) + prefix_sum (nIP u)) mod 65535 = prefix_sum (nIP p) mod 65535"
proof -
  let ?P = "prefix_sum (nIP p)" and ?U = "prefix_sum (nIP u)"
  let ?c = "unat (prefixChecksum (nIP p))" and ?d = "unat (NOT (prefixChecksum (nIP u)))"
  have "(unat (adj u p) + ?P) mod 65535 = ((?c + ?d) + ?P) mod 65535"
    unfolding adj_def by (rule mod_add_cong [OF unat_onesComplementAdd refl])
  also have "\<dots> = ((?c + ?P) + ?d) mod 65535" by (simp add: ac_simps)
  also have "\<dots> = (0 + ?U) mod 65535"
    by (rule mod_add_cong) (simp_all add: unat_prefixChecksum assms)
  finally show a: "(unat (adj u p) + ?P) mod 65535 = ?U mod 65535" by simp
  have c: "unat (NOT (adj u p)) + unat (adj u p) = 65535"
    using unat_u16_less [of "adj u p"] by (simp add: unat_not)
  have "(unat (NOT (adj u p)) + ?U) mod 65535 = (unat (NOT (adj u p)) + (unat (adj u p) + ?P)) mod 65535"
    by (rule mod_add_cong [OF refl a [symmetric]])
  also have "\<dots> = (65535 + ?P) mod 65535" by (simp only: c flip: add.assoc)
  finally show "(unat (NOT (adj u p)) + ?U) mod 65535 = ?P mod 65535" by simp
qed

lemma translated_prefix_words:
  assumes "length a = 16" "cidr6 n f" "cidr6 n t" "n \<le> 48" "in_prefix n (nIP f) a" "i < 5"
  shows "unat (word16 (translated n (nIP t) w a) i) + unat (word16 (nIP f) i) =
    unat (word16 a i) + unat (word16 (nIP t) i)"
proof -
  have len: "length (nIP t) = 16" using assms by (auto simp: cidr6_iff)
  have byte: "unat (translated n (nIP t) w a ! j) + unat (nIP f ! j) = unat (a ! j) + unat (nIP t ! j)"
    if "j < 6" for j
  proof -
    let ?m = "mask_byte n j"
    have t: "nIP t ! j AND ?m = nIP t ! j" and f: "nIP f ! j = a ! j AND ?m"
      using assms that by (auto simp: cidr6_iff in_prefix_def)
    have "(nIP t ! j AND ?m) AND (a ! j AND NOT ?m) = 0"
      by (auto simp: bit_eq_iff bit_and_iff bit_not_iff)
    then have "unat (translated n (nIP t) w a ! j) = unat (nIP t ! j AND ?m) + unat (a ! j AND NOT ?m)"
      using that nth_translated(1) [OF assms(1) len assms(4), of j w] by (simp add: unat_or_disjoint)
    then show ?thesis using unat_mask_split [of "a ! j" ?m] by (simp add: t f)
  qed
  show ?thesis using byte [of i] byte [of "Suc i"] assms(6) by (simp add: unat_word16)
qed

lemma translated_sum:
  assumes "length a = 16" "cidr6 n f" "cidr6 n t" "n \<le> 48" "in_prefix n (nIP f) a"
    and w: "(unat w + prefix_sum (nIP t)) mod 65535 = prefix_sum (nIP f) mod 65535"
  shows "address_sum (translated n (nIP t) w a) mod 65535 = address_sum a mod 65535"
proof -
  let ?b = "translated n (nIP t) w a"
  have len: "length (nIP t) = 16" using assms by (auto simp: cidr6_iff)
  have tail: "word16 ?b i = word16 a i" if "i \<in> {8, 10, 12, 14}" for i
    using that nth_translated(2) [OF assms(1) len assms(4)] by (auto simp: word16_def)
  define rest where "rest = unat (word16 a 8) + unat (word16 a 10) + unat (word16 a 12) + unat (word16 a 14)"
  have pre: "prefix_sum ?b + prefix_sum (nIP f) = prefix_sum a + prefix_sum (nIP t)"
    using translated_prefix_words [OF assms(1-5), of 0 w] translated_prefix_words [OF assms(1-5), of 2 w]
      translated_prefix_words [OF assms(1-5), of 4 w] by (simp add: prefix_sum_def)
  have mid: "unat (word16 ?b 6) mod 65535 = (unat (word16 a 6) + unat w) mod 65535"
    using nth_translated(3) [OF assms(1) len assms(4), of 0] by (simp add: unat_onesComplementAdd)
  have b: "address_sum ?b = prefix_sum ?b + unat (word16 ?b 6) + rest"
    using tail by (simp add: address_sum_def prefix_sum_def rest_def)
  have a: "address_sum a = prefix_sum a + unat (word16 a 6) + rest"
    by (simp add: address_sum_def prefix_sum_def rest_def)
  have "address_sum ?b + prefix_sum (nIP f) = (prefix_sum a + rest + prefix_sum (nIP t)) + unat (word16 ?b 6)"
    using pre by (simp add: b)
  then have "(address_sum ?b + prefix_sum (nIP f)) mod 65535 =
      ((prefix_sum a + rest + prefix_sum (nIP t)) + (unat (word16 a 6) + unat w)) mod 65535"
    by (simp only: mod_add_cong [OF refl mid])
  also have "\<dots> = (address_sum a + (unat w + prefix_sum (nIP t))) mod 65535"
    unfolding a by (simp add: ac_simps)
  also have "\<dots> = (address_sum a + prefix_sum (nIP f)) mod 65535"
    by (rule mod_add_cong [OF refl w])
  finally show ?thesis by (rule mod_add_cancel)
qed

section \<open>Properties\<close>

text \<open>The worked example of RFC 6296: \<open>fd01:203:405::/48\<close> and \<open>2001:db8:1::/48\<close>.\<close>

definition rfc_ula :: IPNet where
  "rfc_ula = \<lparr>nIP = [0xfd, 0x01, 0x02, 0x03, 0x04, 0x05] @ replicate 10 0, nMask = CIDRMask 48 128\<rparr>"

definition rfc_public :: IPNet where
  "rfc_public = \<lparr>nIP = [0x20, 0x01, 0x0d, 0xb8, 0x00, 0x01] @ replicate 10 0, nMask = CIDRMask 48 128\<rparr>"

definition rfc_mapping :: Mapping where
  "rfc_mapping = \<lparr>ULAPrefix = Some rfc_ula, PublicPrefix = Some rfc_public\<rparr>"

definition rfc_host :: "u8 \<Rightarrow> IP" where
  "rfc_host subnet = [0xfd, 0x01, 0x02, 0x03, 0x04, 0x05, 0, subnet, 0, 0, 0, 0, 0, 0, 0x12, 0x34]"

lemma rfc_mapping_wf: "wf_mapping 48 rfc_ula rfc_public rfc_mapping"
proof -
  have "cidr6 48 rfc_ula" by code_simp
  moreover have "cidr6 48 rfc_public" by code_simp
  ultimately show ?thesis by (simp add: wf_mapping_def rfc_mapping_def)
qed

lemma rfc_translation:
  "Translate rfc_mapping (rfc_host 1) True = Inr [0x20, 0x01, 0x0d, 0xb8, 0x00, 0x01, 0xd5, 0x50, 0, 0, 0, 0, 0, 0, 0x12, 0x34]"
  by code_simp

text \<open>C6. Checksum neutrality: whichever way an address is translated, its contribution to every
  transport checksum (its 16-bit words summed in one's-complement arithmetic) is unchanged.\<close>

theorem translate_checksum_neutral:
  assumes "wf_mapping n u p m" "Translate m a out = Inr r"
  shows "address_sum r mod 65535 = address_sum a mod 65535"
proof -
  from assms(1) have w: "cidr6 n u" "cidr6 n p" "n \<le> 48" by (auto simp: wf_mapping_def)
  then have len: "length (nIP u) = 16" "length (nIP p) = 16" by (auto simp: cidr6_iff)
  from assms show ?thesis
    unfolding Translate_Inr [OF assms(1)]
    by (cases out) (auto intro!: translated_sum [OF _ w(1,2,3)] translated_sum [OF _ w(2,1,3)] adj_mod len)
qed

theorem translate_checksum_neutral_witness:
  "address_sum [0x20, 0x01, 0x0d, 0xb8, 0x00, 0x01, 0xd5, 0x50, 0, 0, 0, 0, 0, 0, 0x12, 0x34] mod 65535
     = address_sum (rfc_host 1) mod 65535"
  by (rule translate_checksum_neutral [OF rfc_mapping_wf rfc_translation])



text \<open>C23. Translating back restores the address whenever its 16-bit word at byte 6 (the subnet word of
  a /48) is not zero, in both directions.\<close>

theorem translate_round_trip:
  assumes "wf_mapping n u p m" "Translate m a out = Inr b" "To4 b = []" "word16 a 6 \<noteq> 0"
  shows "Translate m b (\<not> out) = Inr a"
proof -
  from assms(1) have w: "cidr6 n u" "cidr6 n p" "n \<le> 48" by (auto simp: wf_mapping_def)
  then have len: "length (nIP u) = 16" "length (nIP p) = 16" by (auto simp: cidr6_iff)
  have a: "length a = 16" "in_prefix n (nIP (if out then u else p)) a"
    and b: "b = translated n (nIP (if out then p else u)) (if out then adj u p else NOT (adj u p)) a"
    using assms(2) by (auto simp: Translate_Inr [OF assms(1)])
  have "length b = 16" using b a w len by simp
  moreover have "in_prefix n (nIP (if out then p else u)) b"
    using a w unfolding b by (simp add: in_prefix_translated)
  moreover have "translated n (nIP (if out then u else p)) (if out then NOT (adj u p) else adj u p) b = a"
    using a w assms(4) unfolding b
    by (cases out) (simp_all add: translated_back ones_add_sub put_word16_id)
  ultimately show ?thesis using assms(3) by (auto simp: Translate_Inr [OF assms(1)])
qed

theorem translate_round_trip_witness:
  "Translate rfc_mapping [0x20, 0x01, 0x0d, 0xb8, 0x00, 0x01, 0xd5, 0x50, 0, 0, 0, 0, 0, 0, 0x12, 0x34] False
     = Inr (rfc_host 1)"
proof -
  have "To4 [0x20, 0x01, 0x0d, 0xb8, 0x00, 0x01, 0xd5, 0x50, 0, 0, 0, 0, 0, 0, 0x12, 0x34] = []" by code_simp
  moreover have "word16 (rfc_host 1) 6 \<noteq> 0" by code_simp
  ultimately show ?thesis
    using translate_round_trip [OF rfc_mapping_wf rfc_translation] by simp
qed

text \<open>C40. The one address class translating back does not restore: an address whose word at byte 6 is
  zero comes back with that word all ones, whatever the mapping. RFC 6296 section 3.1 has
  translators avoid this by writing zero for all ones.\<close>

theorem translate_zero_word_not_restored:
  assumes "wf_mapping n u p m" "Translate m a out = Inr b" "To4 b = []" "word16 a 6 = 0"
  shows "Translate m b (\<not> out) = Inr (put_word16 a 6 0xFFFF) \<and> put_word16 a 6 0xFFFF \<noteq> a"
proof -
  from assms(1) have w: "cidr6 n u" "cidr6 n p" "n \<le> 48" by (auto simp: wf_mapping_def)
  then have len: "length (nIP u) = 16" "length (nIP p) = 16" by (auto simp: cidr6_iff)
  have a: "length a = 16" "in_prefix n (nIP (if out then u else p)) a"
    and b: "b = translated n (nIP (if out then p else u)) (if out then adj u p else NOT (adj u p)) a"
    using assms(2) by (auto simp: Translate_Inr [OF assms(1)])
  have "length b = 16" using b a w len by simp
  moreover have "in_prefix n (nIP (if out then p else u)) b"
    using a w unfolding b by (simp add: in_prefix_translated)
  moreover have "translated n (nIP (if out then u else p)) (if out then NOT (adj u p) else adj u p) b =
      put_word16 a 6 0xFFFF"
    using a w assms(4) unfolding b by (cases out) (simp_all add: translated_back ones_add_sub)
  moreover have "word16 (put_word16 a 6 0xFFFF) 6 = 0xFFFF" using a by simp
  ultimately show ?thesis using assms(3,4) by (auto simp: Translate_Inr [OF assms(1)])
qed

theorem translate_zero_word_not_restored_witness:
  "\<exists>b. Translate rfc_mapping (rfc_host 0) True = Inr b \<and>
     Translate rfc_mapping b False = Inr (put_word16 (rfc_host 0) 6 0xFFFF)"
proof -
  let ?b = "[0x20, 0x01, 0x0d, 0xb8, 0x00, 0x01, 0xd5, 0x4f, 0, 0, 0, 0, 0, 0, 0x12, 0x34]"
  have t: "Translate rfc_mapping (rfc_host 0) True = Inr ?b" by code_simp
  have "To4 ?b = []" by code_simp
  moreover have "word16 (rfc_host 0) 6 = 0" by code_simp
  ultimately show ?thesis
    using translate_zero_word_not_restored [OF rfc_mapping_wf t] t by auto
qed

end
