(* ===== verification/Maglev.thy ===== *)
theory Maglev
  imports Prelude
begin

unbundle bit_operations_syntax

text \<open>
  \<open>internal/maglev\<close>: the Maglev consistent-hash lookup table. A backend is a value of an
  arbitrary type with a key (the \<open>Backend\<close> interface), so the operations take the key function
  as an argument. The theory shows that \<open>New\<close> terminates and fills every slot, that the slots
  are spread over the backends as evenly as possible, that the table does not depend on the
  order the backends were observed in, and that \<open>IsPrime\<close> decides primality.
\<close>

section \<open>The code\<close>

definition offsetSeed :: u64 where "offsetSeed = 0xda7a5eed0ffce7e5"
definition skipSeed :: u64 where "skipSeed = 0x5eedda7a1ceb00c5"

text \<open>\<open>hash/fnv\<close>'s \<open>New64a\<close>: FNV-1a over the bytes written so far.\<close>

definition fnv64a :: "u64 \<Rightarrow> bytes \<Rightarrow> u64" where
  "fnv64a h bs = fold (\<lambda>b h. (h XOR ucast b) * 0x100000001b3) bs h"

definition fnv64a_init :: u64 where "fnv64a_init = 0xcbf29ce484222325"

definition string_bytes :: "string \<Rightarrow> bytes" where
  "string_bytes s = map of_char s"

definition hashKey :: "string \<Rightarrow> u64 \<Rightarrow> u64" where
  "hashKey key seed = fnv64a (fnv64a fnv64a_init (string_bytes key)) (be_bytes 8 seed)"

function no_odd_divisor :: "nat \<Rightarrow> nat \<Rightarrow> bool" where
  "no_odd_divisor d n = (if d * d \<le> n then (if n mod d = 0 then False else no_odd_divisor (d + 2) n)
     else True)"
  by pat_completeness auto
termination
proof (relation "measure (\<lambda>(d, n). n + 2 - d)")
  fix d n :: nat
  assume "d * d \<le> n"
  moreover have "d \<le> d * d" by simp
  ultimately have "d \<le> n" by (rule le_trans [rotated])
  then show "((d + 2, n), d, n) \<in> measure (\<lambda>(d, n). n + 2 - d)" by simp
qed simp

declare no_odd_divisor.simps [simp del]

text \<open>\<open>IsPrime\<close>. The integers are unbounded here: \<open>d*d\<close> in the loop does not overflow for any
  \<open>n < 2 ^ 62\<close>, far beyond any table that fits in memory.\<close>

definition IsPrime :: "int \<Rightarrow> bool" where
  "IsPrime n = (if n < 2 then False else if n mod 2 = 0 then n = 2 else no_odd_divisor 3 (nat n))"

text \<open>One backend's probing loop: the first slot of its permutation, from step \<open>next\<close> on, that is
  not claimed, with the step to try afterwards. The loop ends only if there is such a slot.\<close>

definition slot_at :: "u64 \<Rightarrow> u64 \<Rightarrow> u64 \<Rightarrow> u64 \<Rightarrow> nat" where
  "slot_at sz offset skip next = unat ((offset + next * skip) mod sz)"

partial_function (option) probe :: "u64 \<Rightarrow> u64 \<Rightarrow> u64 \<Rightarrow> bool list \<Rightarrow> u64 \<Rightarrow> (nat \<times> u64) option" where
  "probe sz offset skip claimed next =
     (let slot = slot_at sz offset skip next
      in if \<not> claimed ! slot then Some (slot, next + 1)
         else probe sz offset skip claimed (next + 1))"

record 'b fill_state =
  fs_next :: "u64 list"
  fs_claimed :: "bool list"
  fs_entries :: "'b option list"
  fs_filled :: nat

text \<open>One pass of \<open>for i, b := range t.backends\<close>, left early when the table is full.\<close>

fun fill_round :: "nat \<Rightarrow> u64 list \<Rightarrow> u64 list \<Rightarrow> (nat \<times> 'b) list \<Rightarrow> 'b fill_state \<Rightarrow> 'b fill_state option" where
  "fill_round sz offset skip [] st = Some st"
| "fill_round sz offset skip ((i, b) # ibs) st =
     (case probe (of_nat sz) (offset ! i) (skip ! i) (fs_claimed st) (fs_next st ! i) of
        None \<Rightarrow> None
      | Some (slot, n') \<Rightarrow>
          (let st' = st\<lparr>fs_next := (fs_next st)[i := n'],
                        fs_claimed := (fs_claimed st)[slot := True],
                        fs_entries := (fs_entries st)[slot := Some b],
                        fs_filled := fs_filled st + 1\<rparr>
           in if fs_filled st' = sz then Some st' else fill_round sz offset skip ibs st'))"

partial_function (option) fill_loop ::
  "nat \<Rightarrow> u64 list \<Rightarrow> u64 list \<Rightarrow> (nat \<times> 'b) list \<Rightarrow> 'b fill_state \<Rightarrow> 'b fill_state option" where
  "fill_loop sz offset skip ibs st =
     (if fs_filled st < sz
      then (case fill_round sz offset skip ibs st of None \<Rightarrow> None
            | Some st' \<Rightarrow> fill_loop sz offset skip ibs st')
      else Some st)"

definition fill_offset :: "('b \<Rightarrow> string) \<Rightarrow> nat \<Rightarrow> 'b \<Rightarrow> u64" where
  "fill_offset key sz b = hashKey (key b) offsetSeed mod of_nat sz"

definition fill_skip :: "('b \<Rightarrow> string) \<Rightarrow> nat \<Rightarrow> 'b \<Rightarrow> u64" where
  "fill_skip key sz b = hashKey (key b) skipSeed mod (of_nat sz - 1) + 1"

definition fill :: "('b \<Rightarrow> string) \<Rightarrow> nat \<Rightarrow> 'b list \<Rightarrow> 'b option list option" where
  "fill key sz backends =
     map_option fs_entries
       (fill_loop sz (map (fill_offset key sz) backends) (map (fill_skip key sz) backends)
         (enumerate 0 backends)
         \<lparr>fs_next = replicate (length backends) 0, fs_claimed = replicate sz False,
          fs_entries = replicate sz None, fs_filled = 0\<rparr>)"

record 'b Table =
  t_size :: nat
  t_entries :: "'b option list"
  t_backends :: "'b list"

datatype maglev_error = NoBackends | SizeTooSmall int nat | SizeNotPrime int | DuplicateKey string

definition first_duplicate :: "string list \<Rightarrow> string option" where
  "first_duplicate ks = map_option (\<lambda>i. ks ! i) (find (\<lambda>i. ks ! i = ks ! (i - 1)) [1..<length ks])"

text \<open>\<open>New\<close>: \<open>None\<close> when the filling loop does not end.\<close>

definition New :: "('b \<Rightarrow> string) \<Rightarrow> 'b list \<Rightarrow> int \<Rightarrow> (maglev_error + 'b Table) option" where
  "New key backends sz =
     (if backends = [] then Some (Inl NoBackends)
      else if sz < int (length backends) then Some (Inl (SizeTooSmall sz (length backends)))
      else if \<not> IsPrime sz then Some (Inl (SizeNotPrime sz))
      else
       (let sorted = sort_key key backends
        in case first_duplicate (map key sorted) of
             Some k \<Rightarrow> Some (Inl (DuplicateKey k))
           | None \<Rightarrow> map_option (\<lambda>entries. Inr \<lparr>t_size = nat sz, t_entries = entries, t_backends = sorted\<rparr>)
                       (fill key (nat sz) sorted)))"

text \<open>\<open>Lookup\<close>: \<open>None\<close> is the nil \<open>Backend\<close>.\<close>

definition Lookup :: "'b Table \<Rightarrow> u64 \<Rightarrow> 'b option" where
  "Lookup t key = t_entries t ! unat (key mod of_nat (t_size t))"

declare probe.simps [code] fill_loop.simps [code]

section \<open>Specification\<close>

definition is_prime :: "nat \<Rightarrow> bool" where
  "is_prime n \<longleftrightarrow> 1 < n \<and> (\<forall>d. d dvd n \<longrightarrow> d = 1 \<or> d = n)"

text \<open>The slots in the order a backend prefers them, as the paper defines the permutation.\<close>

definition preference :: "('b \<Rightarrow> string) \<Rightarrow> nat \<Rightarrow> 'b \<Rightarrow> nat \<Rightarrow> nat" where
  "preference key sz b k = (unat (fill_offset key sz b) + k * unat (fill_skip key sz b)) mod sz"

text \<open>The state of \<open>fill\<close> after \<open>r\<close> complete rounds and \<open>i\<close> backends of the next: claimed slots are the
  assigned ones, no backend has skipped a free slot, and the claims are spread evenly.\<close>

definition filling :: "('b \<Rightarrow> string) \<Rightarrow> nat \<Rightarrow> 'b list \<Rightarrow> nat \<Rightarrow> nat \<Rightarrow> 'b fill_state \<Rightarrow> bool" where
  "filling key sz bs r i st \<longleftrightarrow>
     length (fs_next st) = length bs \<and> length (fs_claimed st) = sz \<and> length (fs_entries st) = sz \<and>
     (\<forall>j < sz. fs_claimed st ! j = (fs_entries st ! j \<noteq> None)) \<and>
     (\<forall>m<length bs. \<exists>k. fs_next st ! m = of_nat k \<and> (\<forall>j<k. fs_claimed st ! preference key sz (bs ! m) j)) \<and>
     fs_filled st = r * length bs + i \<and> i \<le> length bs \<and>
     count_list (fs_entries st) None + fs_filled st = sz \<and>
     (\<forall>m<length bs. count_list (fs_entries st) (Some (bs ! m)) = r + of_bool (m < i)) \<and>
     set (fs_entries st) \<subseteq> insert None (Some ` set bs)"

text \<open>The effect of one backend claiming a slot.\<close>

definition claim_slot :: "nat \<Rightarrow> u64 \<Rightarrow> nat \<Rightarrow> 'b \<Rightarrow> 'b fill_state \<Rightarrow> 'b fill_state" where
  "claim_slot i n' slot b st = st\<lparr>fs_next := (fs_next st)[i := n'],
     fs_claimed := (fs_claimed st)[slot := True], fs_entries := (fs_entries st)[slot := Some b],
     fs_filled := fs_filled st + 1\<rparr>"

section \<open>Primality\<close>

lemma no_odd_divisor_iff:
  "odd d \<Longrightarrow> odd n \<Longrightarrow> no_odd_divisor d n \<longleftrightarrow> (\<forall>k. d \<le> k \<and> k * k \<le> n \<longrightarrow> \<not> k dvd n)"
proof (induction d n rule: no_odd_divisor.induct)
  case (1 d n)
  show ?case
  proof (cases "d * d \<le> n")
    case False
    have "n < k * k" if "d \<le> k" for k using False mult_le_mono [OF that that] by linarith
    then have "\<forall>k. d \<le> k \<and> k * k \<le> n \<longrightarrow> \<not> k dvd n" by (meson not_le)
    moreover have "no_odd_divisor d n" using False by (subst no_odd_divisor.simps) simp
    ultimately show ?thesis by blast
  next
    case le: True
    show ?thesis
    proof (cases "d dvd n")
      case True
      with le have "\<not> no_odd_divisor d n" by (subst no_odd_divisor.simps) simp
      with True le show ?thesis by blast
    next
      case False
      then have "no_odd_divisor d n \<longleftrightarrow> (\<forall>k. d + 2 \<le> k \<and> k * k \<le> n \<longrightarrow> \<not> k dvd n)"
        using 1 le by (subst no_odd_divisor.simps) (simp add: mod_eq_0_iff_dvd)
      moreover have "d \<le> k \<longleftrightarrow> k = d \<or> k = Suc d \<or> d + 2 \<le> k" for k by linarith
      moreover have "\<not> Suc d dvd n" using 1(2,3) by (metis dvd_trans even_Suc)
      ultimately show ?thesis using False by auto
    qed
  qed
qed

lemma is_prime_iff_small_divisors:
  "is_prime n \<longleftrightarrow> 1 < n \<and> (\<forall>k. 2 \<le> k \<and> k * k \<le> n \<longrightarrow> \<not> k dvd n)"
proof (intro iffI conjI allI impI)
  assume p: "is_prime n"
  then show "1 < n" by (simp add: is_prime_def)
  fix k assume k: "2 \<le> k \<and> k * k \<le> n"
  show "\<not> k dvd n"
  proof
    assume "k dvd n"
    with p k have "k = n" by (auto simp: is_prime_def)
    with k show False using \<open>1 < n\<close> by auto
  qed
next
  assume n: "1 < n \<and> (\<forall>k. 2 \<le> k \<and> k * k \<le> n \<longrightarrow> \<not> k dvd n)"
  show "is_prime n"
    unfolding is_prime_def
  proof (intro conjI allI impI)
    show "1 < n" using n by simp
    fix d assume "d dvd n"
    then obtain e where e: "n = d * e" by (auto elim: dvdE)
    with n have pos: "0 < d" "0 < e" by (auto intro!: Nat.gr0I)
    show "d = 1 \<or> d = n"
    proof (rule ccontr)
      assume "\<not> (d = 1 \<or> d = n)"
      with pos e have "2 \<le> d" "2 \<le> e" by (cases d; cases e; auto)+
      moreover have "d * d \<le> n \<or> e * e \<le> n" using e by (metis linear mult.commute mult_le_mono2)
      ultimately show False using n e by (metis dvd_triv_left dvd_triv_right)
    qed
  qed
qed

lemma IsPrime_is_prime: "IsPrime n \<longleftrightarrow> 0 \<le> n \<and> is_prime (nat n)"
proof (cases "2 \<le> n")
  case False
  then show ?thesis by (auto simp: IsPrime_def is_prime_def)
next
  case two: True
  show ?thesis
  proof (cases "even n")
    case True
    then have ev: "even (nat n)" using two by (simp add: even_nat_iff)
    have "is_prime (nat n) \<longleftrightarrow> n = 2"
    proof
      assume "is_prime (nat n)"
      then have "(2::nat) = nat n" using ev by (auto simp: is_prime_def)
      then show "n = 2" using two by simp
    next
      assume "n = 2"
      moreover have "\<not> k * k \<le> 2" if "2 \<le> k" for k :: nat using mult_le_mono [OF that that] by linarith
      ultimately show "is_prime (nat n)" by (auto simp: is_prime_iff_small_divisors)
    qed
    then show ?thesis using two True by (auto simp: IsPrime_def even_iff_mod_2_eq_zero)
  next
    case False
    then have od: "odd (nat n)" using two by (simp add: even_nat_iff)
    have "is_prime (nat n) \<longleftrightarrow> (\<forall>k. 2 \<le> k \<and> k * k \<le> nat n \<longrightarrow> \<not> k dvd nat n)"
      using two by (auto simp: is_prime_iff_small_divisors)
    also have "\<dots> \<longleftrightarrow> (\<forall>k. 3 \<le> k \<and> k * k \<le> nat n \<longrightarrow> \<not> k dvd nat n)"
    proof -
      have "2 \<le> k \<longleftrightarrow> k = 2 \<or> 3 \<le> k" for k :: nat by linarith
      then show ?thesis using od by auto
    qed
    also have "\<dots> \<longleftrightarrow> no_odd_divisor 3 (nat n)" using no_odd_divisor_iff [of 3 "nat n"] od by simp
    finally show ?thesis using two False by (auto simp: IsPrime_def even_iff_mod_2_eq_zero)
  qed
qed

section \<open>Probing\<close>

lemma prime_coprime: "is_prime p \<Longrightarrow> 0 < s \<Longrightarrow> s < p \<Longrightarrow> coprime s p"
proof (rule coprimeI)
  fix c assume p: "is_prime p" "0 < s" "s < p" and c: "c dvd s" "c dvd p"
  then have "c \<noteq> p" using dvd_imp_le [of c s] by auto
  with p c show "is_unit c" by (auto simp: is_prime_def)
qed

lemma permutation:
  assumes "is_prime p" "0 < s" "s < p"
  shows "(\<lambda>k. (off + k * s) mod p) ` {..<p} = {..<p}"
proof (rule endo_inj_surj)
  have cop: "coprime s p" using assms by (rule prime_coprime)
  have "k = k'" if "k < p" "k' < p" "(off + k * s) mod p = (off + k' * s) mod p" for k k'
    using that
  proof (induction k k' rule: linorder_wlog)
    case (le a b)
    have "(a * s) mod p = (b * s) mod p" using le mod_add_cancel [of "a * s" off p "b * s"] by (simp add: add.commute)
    then have "p dvd b * s - a * s" using le mod_eq_dvd_iff_nat [of "a * s" "b * s" p] by simp
    then have "p dvd (b - a) * s" by (simp add: diff_mult_distrib)
    then have "p dvd b - a" using cop by (simp add: coprime_commute coprime_dvd_mult_left_iff)
    then show ?case using le by (meson dvd_imp_le le_add_diff_inverse less_imp_diff_less not_less zero_less_diff le_neq_implies_less)
  qed auto
  then show "inj_on (\<lambda>k. (off + k * s) mod p) {..<p}" by (intro inj_onI) (simp only: lessThan_iff)
qed (use assms in \<open>auto simp: is_prime_def\<close>)

lemma slot_at_nat:
  assumes "sz < 2 ^ 32" "unat off < sz" "unat s < sz" "k \<le> sz"
  shows "slot_at (of_nat sz) off s (of_nat k) = (unat off + k * unat s) mod sz"
proof -
  have "k * unat s \<le> (2 ^ 32 - 1) * (2 ^ 32 - 1)" using assms by (intro mult_le_mono) auto
  then have ks: "unat off + k * unat s < 2 ^ 64" using assms by auto
  have "unat (of_nat k :: u64) = k" "unat (of_nat sz :: u64) = sz"
    using assms by (simp_all add: unat_of_nat)
  then have "unat (off + of_nat k * s) = unat off + k * unat s"
    using ks by (simp add: unat_word_ariths)
  then show ?thesis using assms by (simp add: slot_at_def unat_mod \<open>unat (of_nat sz) = sz\<close>)
qed

lemma unat_mod_of_nat: "0 < n \<Longrightarrow> n < 2 ^ 32 \<Longrightarrow> unat ((h :: u64) mod of_nat n) < n"
  by (simp add: unat_mod unat_of_nat)

lemma fill_offset_less: "0 < sz \<Longrightarrow> sz < 2 ^ 32 \<Longrightarrow> unat (fill_offset key sz b) < sz"
  by (simp add: fill_offset_def unat_mod_of_nat)

lemma fill_skip_bounds:
  assumes "2 \<le> sz" "sz < 2 ^ 32"
  shows "0 < unat (fill_skip key sz b)" "unat (fill_skip key sz b) < sz"
proof -
  obtain w where w: "sz = Suc w" "0 < w" "w < 2 ^ 32" using assms by (cases sz) auto
  let ?m = "hashKey (key b) skipSeed mod of_nat w"
  have m: "unat ?m < w" using w by (simp add: unat_mod_of_nat)
  then have "unat (?m + 1) = unat ?m + 1" using w by (simp add: unat_word_ariths)
  moreover have "fill_skip key sz b = ?m + 1" using w by (simp add: fill_skip_def)
  ultimately show "0 < unat (fill_skip key sz b)" "unat (fill_skip key sz b) < sz" using m w by auto
qed

lemma preference_permutation:
  assumes "is_prime sz" "sz < 2 ^ 32"
  shows "preference key sz b ` {..<sz} = {..<sz}"
  using permutation [of sz "unat (fill_skip key sz b)"] fill_skip_bounds [of sz key b] assms
  by (auto simp: preference_def [abs_def] is_prime_def)

lemma slot_at_preference:
  assumes "is_prime sz" "sz < 2 ^ 32" "k \<le> sz"
  shows "slot_at (of_nat sz) (fill_offset key sz b) (fill_skip key sz b) (of_nat k) = preference key sz b k"
  using slot_at_nat [of sz "fill_offset key sz b" "fill_skip key sz b" k]
    fill_offset_less [of sz key b] fill_skip_bounds [of sz key b] assms
  by (simp add: preference_def is_prime_def)

lemma probe_first_free:
  assumes "is_prime sz" "sz < 2 ^ 32" "k \<le> m" "m < sz"
    and "\<And>j. k \<le> j \<Longrightarrow> j < m \<Longrightarrow> claimed ! preference key sz b j" "\<not> claimed ! preference key sz b m"
  shows "probe (of_nat sz) (fill_offset key sz b) (fill_skip key sz b) claimed (of_nat k)
           = Some (preference key sz b m, of_nat (Suc m))"
  using assms(3)
proof (induction rule: inc_induct)
  case base
  show ?case using assms by (subst probe.simps) (simp add: slot_at_preference add.commute)
next
  case (step n)
  moreover have "claimed ! preference key sz b n" using assms(5) step.hyps by simp
  ultimately show ?case using assms(1,2,4) by (subst probe.simps) (simp add: slot_at_preference add.commute)
qed

lemma probe_returns:
  assumes "is_prime sz" "sz < 2 ^ 32" "\<forall>j<k. claimed ! preference key sz b j" "s < sz" "\<not> claimed ! s"
  obtains m where "m < sz" "preference key sz b m < sz" "\<not> claimed ! preference key sz b m"
    "\<forall>j<m. claimed ! preference key sz b j"
    "probe (of_nat sz) (fill_offset key sz b) (fill_skip key sz b) claimed (of_nat k)
       = Some (preference key sz b m, of_nat (Suc m))"
proof -
  define m where "m = (LEAST m. \<not> claimed ! preference key sz b m)"
  obtain i where i: "i < sz" "preference key sz b i = s"
    using preference_permutation [OF assms(1,2), of key b] assms(4) by (metis imageE lessThan_iff)
  with assms(5) have free: "\<not> claimed ! preference key sz b i" by simp
  have m: "\<not> claimed ! preference key sz b m" unfolding m_def by (rule LeastI [of _ i]) (rule free)
  have "m \<le> i" unfolding m_def by (rule Least_le) (rule free)
  with i have "m < sz" by simp
  moreover have before: "\<forall>j<m. claimed ! preference key sz b j" unfolding m_def using not_less_Least by blast
  moreover have "k \<le> m" using assms(3) m by (meson not_le)
  moreover have "preference key sz b m < sz" using \<open>m < sz\<close> by (simp add: preference_def)
  ultimately show thesis using m probe_first_free [OF assms(1,2) _ _ _ m] by (intro that [of m]) auto
qed

section \<open>Filling\<close>

lemma count_list_update:
  "i < length xs \<Longrightarrow> count_list (xs[i := v]) x + of_bool (xs ! i = x) = count_list xs x + of_bool (v = x)"
proof (induction xs arbitrary: i)
  case (Cons a xs)
  show ?case using Cons.IH [of "i - 1"] Cons.prems by (cases i) auto
qed simp

lemma filling_step:
  assumes "is_prime sz" "sz < 2 ^ 32" "distinct bs" "filling key sz bs r i st" "i < length bs" "fs_filled st < sz"
  obtains slot n' where
    "probe (of_nat sz) (fill_offset key sz (bs ! i)) (fill_skip key sz (bs ! i)) (fs_claimed st) (fs_next st ! i)
       = Some (slot, n')"
    "filling key sz bs r (Suc i) (claim_slot i n' slot (bs ! i) st)"
proof -
  note inv = assms(4) [unfolded filling_def]
  have "count_list (fs_entries st) None \<noteq> 0" using inv assms(6) by linarith
  then have "None \<in> set (fs_entries st)" by (meson count_list_0_iff)
  then obtain s where s: "s < sz" "\<not> fs_claimed st ! s" using inv by (metis in_set_conv_nth)
  obtain k where k: "fs_next st ! i = of_nat k" "\<forall>j<k. fs_claimed st ! preference key sz (bs ! i) j"
    using inv assms(5) by blast
  obtain m where m: "m < sz" "preference key sz (bs ! i) m < sz" "\<not> fs_claimed st ! preference key sz (bs ! i) m"
    "\<forall>j<m. fs_claimed st ! preference key sz (bs ! i) j"
    "probe (of_nat sz) (fill_offset key sz (bs ! i)) (fill_skip key sz (bs ! i)) (fs_claimed st) (of_nat k)
       = Some (preference key sz (bs ! i) m, of_nat (Suc m))"
    using probe_returns [OF assms(1,2) k(2) s] by blast
  define slot where "slot = preference key sz (bs ! i) m"
  have slot: "slot < sz" "fs_entries st ! slot = None" using m inv by (auto simp: slot_def)
  note cnt = count_list_update [of slot "fs_entries st" "Some (bs ! i)"]
  have nxt: "\<exists>k. (fs_next st)[i := of_nat (Suc m)] ! l = of_nat k \<and>
      (\<forall>j<k. (fs_claimed st)[slot := True] ! preference key sz (bs ! l) j)" if l: "l < length bs" for l
  proof (cases "l = i")
    case True
    with m(4) inv l slot show ?thesis
      by (intro exI [of _ "Suc m"]) (auto simp: nth_list_update less_Suc_eq slot_def)
  next
    case False
    with inv l slot show ?thesis by (auto simp: nth_list_update) (metis nth_list_update)
  qed
  have counts: "count_list ((fs_entries st)[slot := Some (bs ! i)]) (Some (bs ! l)) = r + of_bool (l < Suc i)"
    if l: "l < length bs" for l
  proof -
    have "bs ! i = bs ! l \<longleftrightarrow> i = l" using assms(3,5) l nth_eq_iff_index_eq by blast
    then show ?thesis using cnt [of "Some (bs ! l)"] slot inv l by auto
  qed
  have "filling key sz bs r (Suc i) (claim_slot i (of_nat (Suc m)) slot (bs ! i) st)"
    using inv slot assms(5) nxt counts cnt [of None] set_update_subset_insert [of "fs_entries st" slot "Some (bs ! i)"]
    unfolding filling_def claim_slot_def by (auto simp: nth_list_update)
  then show thesis using m(5) k(1) that by (simp add: slot_def)
qed

lemma fill_round_filling:
  assumes "is_prime sz" "sz < 2 ^ 32" "distinct bs" "filling key sz bs r i st" "fs_filled st < sz"
  shows "\<exists>st' i'. fill_round sz (map (fill_offset key sz) bs) (map (fill_skip key sz) bs) (enumerate i (drop i bs)) st
             = Some st' \<and> filling key sz bs r i' st' \<and> i \<le> i' \<and> (i' = length bs \<or> fs_filled st' = sz)"
  using assms(4,5)
proof (induction "length bs - i" arbitrary: i st)
  case 0
  then have "i = length bs" by (simp add: filling_def)
  with 0 show ?case by (intro exI [of _ st] exI [of _ i]) simp
next
  case (Suc d)
  then have i: "i < length bs" by simp
  obtain slot n' where p:
    "probe (of_nat sz) (fill_offset key sz (bs ! i)) (fill_skip key sz (bs ! i)) (fs_claimed st) (fs_next st ! i)
       = Some (slot, n')"
    and f: "filling key sz bs r (Suc i) (claim_slot i n' slot (bs ! i) st)"
    using filling_step [OF assms(1-3) Suc.prems(1) i Suc.prems(2)] .
  let ?st = "claim_slot i n' slot (bs ! i) st"
  have run: "fill_round sz (map (fill_offset key sz) bs) (map (fill_skip key sz) bs) (enumerate i (drop i bs)) st
      = (if fs_filled ?st = sz then Some ?st
         else fill_round sz (map (fill_offset key sz) bs) (map (fill_skip key sz) bs)
                (enumerate (Suc i) (drop (Suc i) bs)) ?st)"
    using p i by (simp add: Cons_nth_drop_Suc [symmetric] claim_slot_def)
  show ?case
  proof (cases "fs_filled ?st = sz")
    case True
    with run f show ?thesis by (metis le_SucI order_refl)
  next
    case False
    then have "fs_filled ?st < sz" using Suc.prems(2) by (simp add: claim_slot_def)
    moreover have "d = length bs - Suc i" using Suc.hyps(2) by simp
    ultimately obtain st' i' where "fill_round sz (map (fill_offset key sz) bs) (map (fill_skip key sz) bs)
        (enumerate (Suc i) (drop (Suc i) bs)) ?st = Some st'" "filling key sz bs r i' st'" "Suc i \<le> i'"
        "i' = length bs \<or> fs_filled st' = sz" using Suc.hyps(1) [OF _ f] by blast
    then show ?thesis using run False by (intro exI [of _ st'] exI [of _ i']) simp
  qed
qed

lemma filling_next_round: "filling key sz bs r (length bs) st \<Longrightarrow> filling key sz bs (Suc r) 0 st"
  by (simp add: filling_def)

lemma fill_loop_filling:
  assumes "is_prime sz" "sz < 2 ^ 32" "distinct bs" "bs \<noteq> []" "filling key sz bs r 0 st"
  shows "\<exists>st' r' i'. fill_loop sz (map (fill_offset key sz) bs) (map (fill_skip key sz) bs) (enumerate 0 bs) st
             = Some st' \<and> filling key sz bs r' i' st' \<and> fs_filled st' = sz"
  using assms(5)
proof (induction "sz - fs_filled st" arbitrary: r st rule: less_induct)
  case less
  have le: "fs_filled st \<le> sz" using less.prems unfolding filling_def by linarith
  show ?case
  proof (cases "fs_filled st < sz")
    case False
    with le less.prems show ?thesis by (subst fill_loop.simps) auto
  next
    case True
    obtain st' i' where round:
      "fill_round sz (map (fill_offset key sz) bs) (map (fill_skip key sz) bs) (enumerate 0 bs) st = Some st'"
      "filling key sz bs r i' st'" "i' = length bs \<or> fs_filled st' = sz"
      using fill_round_filling [OF assms(1-3) less.prems True] by auto
    have run: "fill_loop sz (map (fill_offset key sz) bs) (map (fill_skip key sz) bs) (enumerate 0 bs) st
       = fill_loop sz (map (fill_offset key sz) bs) (map (fill_skip key sz) bs) (enumerate 0 bs) st'"
      using True round(1) by (subst fill_loop.simps) simp
    show ?thesis
    proof (cases "fs_filled st' = sz")
      case full: True
      then show ?thesis using run round(2) by (subst run, subst fill_loop.simps) auto
    next
      case False
      with round have next_round: "filling key sz bs (Suc r) 0 st'" by (auto intro: filling_next_round)
      have "fs_filled st < fs_filled st'"
        using less.prems round(2,3) False assms(4) by (auto simp: filling_def)
      with True less.hyps [OF _ next_round] run show ?thesis by simp
    qed
  qed
qed

lemma fill_spec:
  assumes "is_prime sz" "sz < 2 ^ 32" "distinct bs" "bs \<noteq> []"
  obtains es where "fill key sz bs = Some es" "length es = sz" "set es \<subseteq> Some ` set bs"
    "\<And>m. m < length bs \<Longrightarrow>
       count_list es (Some (bs ! m)) = sz div length bs + of_bool (m < sz mod length bs)"
proof -
  let ?st = "\<lparr>fs_next = replicate (length bs) 0, fs_claimed = replicate sz False,
    fs_entries = replicate sz None, fs_filled = 0\<rparr> :: 'a fill_state"
  have cl: "count_list (replicate n (None :: 'a option)) x = (if x = None then n else 0)" for n x
    by (induction n) auto
  have "filling key sz bs 0 0 ?st" by (auto simp: filling_def cl intro: exI [of _ 0])
  then obtain st r i where run: "fill_loop sz (map (fill_offset key sz) bs) (map (fill_skip key sz) bs)
      (enumerate 0 bs) ?st = Some st" and inv: "filling key sz bs r i st" and full: "fs_filled st = sz"
    using fill_loop_filling [OF assms] by blast
  show thesis
  proof (rule that [of "fs_entries st"])
    show "fill key sz bs = Some (fs_entries st)" using run by (simp add: fill_def)
    show "length (fs_entries st) = sz" using inv by (simp add: filling_def)
    have "count_list (fs_entries st) None = 0" using inv full by (simp add: filling_def)
    then show "set (fs_entries st) \<subseteq> Some ` set bs" using inv by (auto simp: filling_def count_list_0_iff)
    fix m assume m: "m < length bs"
    have sz: "sz = r * length bs + i" "i \<le> length bs" using inv full by (simp_all add: filling_def)
    have "count_list (fs_entries st) (Some (bs ! m)) = r + of_bool (m < i)" using inv m by (simp add: filling_def)
    also have "\<dots> = sz div length bs + of_bool (m < sz mod length bs)"
    proof (cases "i = length bs")
      case True
      with m have "sz = Suc r * length bs" "length bs \<noteq> 0" using sz by auto
      with True m show ?thesis by (metis nonzero_mult_div_cancel_right mod_mult_self2_is_0 Suc_eq_plus1 add_0_right of_bool_eq not_less_zero)
    next
      case False
      with sz have "i < length bs" "bs \<noteq> []" by auto
      with sz have "sz div length bs = r" "sz mod length bs = i" by (simp_all add: mult.commute [of r])
      then show ?thesis by simp
    qed
    finally show "count_list (fs_entries st) (Some (bs ! m)) = sz div length bs + of_bool (m < sz mod length bs)" .
  qed
qed

section \<open>Construction\<close>

lemma first_duplicate_None:
  assumes "sorted ks"
  shows "first_duplicate ks = None \<longleftrightarrow> distinct ks"
proof -
  have "first_duplicate ks = None \<longleftrightarrow> (\<forall>i. Suc i < length ks \<longrightarrow> ks ! i \<noteq> ks ! Suc i)"
    unfolding first_duplicate_def by (auto simp: find_None_iff) (metis Suc_le_eq Suc_pred diff_Suc_1 zero_less_Suc)
  also have "\<dots> \<longleftrightarrow> sorted_wrt (<) ks"
  proof -
    have "transp ((<) :: string \<Rightarrow> string \<Rightarrow> bool)" by (simp add: transp_on_less)
    then show ?thesis using assms
      by (simp add: sorted_wrt_iff_nth_Suc_transp) (auto simp: sorted_iff_nth_Suc order.strict_iff_order)
  qed
  also have "\<dots> \<longleftrightarrow> distinct ks" using assms by (simp add: strict_sorted_iff)
  finally show ?thesis .
qed

lemma first_duplicate_Some:
  assumes "first_duplicate ks = Some k"
  shows "2 \<le> count_list ks k"
proof -
  obtain i where i: "0 < i" "i < length ks" "ks ! i = ks ! (i - 1)" "k = ks ! i"
    using assms by (fastforce simp: first_duplicate_def find_Some_iff)
  then obtain j where j: "i = Suc j" by (cases i) auto
  have "ks = take j ks @ k # k # drop (Suc (Suc j)) ks"
    using i j by (metis Cons_nth_drop_Suc Suc_lessD append_take_drop_id diff_Suc_1)
  moreover have "2 \<le> count_list (xs @ k # k # ys) k" for xs ys by simp
  ultimately show ?thesis by metis
qed

lemma map_sort_key: "map key (sort_key key xs) = sort (map key xs)"
  by (rule properties_for_sort [symmetric]) simp_all

lemma sort_key_order:
  assumes "mset bs = mset bs'" "distinct (map key bs)"
  shows "sort_key key bs = sort_key key bs'"
proof -
  have "map key (sort_key key bs) = map key (sort_key key bs')"
    unfolding map_sort_key using assms(1) by (metis mset_map properties_for_sort mset_sort sorted_sort)
  moreover have "inj_on key (set bs \<union> set bs')"
    using assms mset_eq_setD [OF assms(1)] by (simp add: distinct_map)
  ultimately show ?thesis by (metis inj_on_map_eq_map set_sort)
qed

lemma New_eq:
  "New key bs sz =
     (if bs = [] then Some (Inl NoBackends)
      else if sz < int (length bs) then Some (Inl (SizeTooSmall sz (length bs)))
      else if \<not> is_prime (nat sz) then Some (Inl (SizeNotPrime sz))
      else if distinct (map key bs)
      then map_option (\<lambda>es. Inr \<lparr>t_size = nat sz, t_entries = es, t_backends = sort_key key bs\<rparr>)
             (fill key (nat sz) (sort_key key bs))
      else Some (Inl (DuplicateKey (the (first_duplicate (sort (map key bs)))))))"
proof -
  have "first_duplicate (sort (map key bs)) = None \<longleftrightarrow> distinct (map key bs)"
    by (simp add: first_duplicate_None distinct_sort)
  moreover have "is_prime (nat sz) \<Longrightarrow> 0 \<le> sz" by (auto simp: is_prime_def)
  ultimately show ?thesis
    by (auto simp: New_def IsPrime_is_prime Let_def map_sort_key split: option.split)
qed

lemma fill_sorted:
  assumes "is_prime sz" "sz < 2 ^ 32" "distinct (map key bs)" "bs \<noteq> []"
  obtains es where "fill key sz (sort_key key bs) = Some es" "length es = sz" "set es \<subseteq> Some ` set bs"
    "\<forall>m<length bs.
       count_list es (Some (sort_key key bs ! m)) = sz div length bs + of_bool (m < sz mod length bs)"
proof -
  have "distinct (sort_key key bs)" "sort_key key bs \<noteq> []"
    using assms(3,4) by (auto simp: distinct_map distinct_sort dest: arg_cong [of _ _ length])
  from fill_spec [OF assms(1,2) this, of key] that show thesis by auto
qed

lemma New_table:
  assumes "0 \<le> sz" "sz < 2 ^ 32" "New key bs sz = Some (Inr t)"
  shows "length (t_entries t) = nat sz \<and> set (t_entries t) = Some ` set bs \<and>
    (\<forall>m<length bs. count_list (t_entries t) (Some (t_backends t ! m))
       = nat sz div length bs + of_bool (m < nat sz mod length bs)) \<and>
    (\<forall>h. \<exists>b. b \<in> set bs \<and> Lookup t h = Some b)"
proof -
  have sz: "is_prime (nat sz)" "nat sz < 2 ^ 32" "bs \<noteq> []" "length bs \<le> nat sz" "distinct (map key bs)"
    and t: "fill key (nat sz) (sort_key key bs) = Some (t_entries t)" "t_backends t = sort_key key bs" "t_size t = nat sz"
    using assms by (auto simp: New_eq split: if_splits)
  obtain es where es: "fill key (nat sz) (sort_key key bs) = Some es" "length es = nat sz" "set es \<subseteq> Some ` set bs"
    "\<forall>m<length bs.
       count_list es (Some (sort_key key bs ! m)) = nat sz div length bs + of_bool (m < nat sz mod length bs)"
    using fill_sorted [OF sz(1,2,5,3)] .
  have e: "t_entries t = es" using es(1) t(1) by simp
  have "Some b \<in> set es" if "b \<in> set bs" for b
  proof -
    from that have "b \<in> set (sort_key key bs)" by simp
    then obtain m where "m < length bs" "sort_key key bs ! m = b" unfolding in_set_conv_nth by auto
    then have "0 < count_list es (Some b)" using es(4) sz(3,4) by (auto simp: div_greater_zero_iff)
    then show ?thesis by (metis count_list_0_iff less_irrefl)
  qed
  then have set_es: "set es = Some ` set bs" using es(3) by auto
  have "\<exists>b. b \<in> set bs \<and> Lookup t h = Some b" for h
  proof -
    have "0 < nat sz" using sz(1) by (simp add: is_prime_def)
    then have "unat (h mod of_nat (nat sz)) < nat sz" using sz(2) by (rule unat_mod_of_nat)
    then have "es ! unat (h mod of_nat (nat sz)) \<in> set es" using es(2) by (metis nth_mem)
    then have "Lookup t h \<in> set es" unfolding Lookup_def e t(3) .
    then show ?thesis using set_es by auto
  qed
  then show ?thesis using e es(2,4) set_es t(2) by simp
qed

lemma New_mset:
  assumes "mset bs = mset bs'"
  shows "New key bs sz = New key bs' sz"
proof -
  have keys: "mset (map key bs) = mset (map key bs')" using assms by simp
  then have "sort (map key bs) = sort (map key bs')" by (metis properties_for_sort mset_sort sorted_sort)
  moreover have "distinct (map key bs) \<longleftrightarrow> distinct (map key bs')" using keys by (rule mset_eq_imp_distinct_iff)
  moreover have "length bs = length bs'" using assms by (rule mset_eq_length)
  moreover have "bs = [] \<longleftrightarrow> bs' = []" using assms by auto
  ultimately show ?thesis using sort_key_order [OF assms, of key] by (simp add: New_eq)
qed

text \<open>
  C10. The filling loop terminates and \<open>New\<close> answers for every table size below \<open>2 ^ 32\<close>: it builds a
  table exactly when there is a backend, the size is a prime no smaller than the number of
  backends, and the keys are unique.
\<close>

theorem New_builds_iff:
  assumes "sz < 2 ^ 32"
  shows "New key bs sz \<noteq> None \<and>
    ((\<exists>t. New key bs sz = Some (Inr t)) \<longleftrightarrow>
       bs \<noteq> [] \<and> int (length bs) \<le> sz \<and> is_prime (nat sz) \<and> distinct (map key bs))"
proof (cases "bs \<noteq> [] \<and> int (length bs) \<le> sz \<and> is_prime (nat sz) \<and> distinct (map key bs)")
  case True
  then have "nat sz < 2 ^ 32" using assms by simp
  with True obtain es where "fill key (nat sz) (sort_key key bs) = Some es"
    by (metis fill_sorted)
  then show ?thesis using True by (simp add: New_eq)
next
  case False
  then show ?thesis by (auto simp: New_eq)
qed

theorem New_builds_iff_witness:
  "New id [''a'', ''b''] 5 \<noteq> None \<and>
    ((\<exists>t. New id [''a'', ''b''] 5 = Some (Inr t)) \<longleftrightarrow>
       [''a'', ''b''] \<noteq> [] \<and> int (length [''a'', ''b'']) \<le> 5 \<and> is_prime (nat 5) \<and>
       distinct (map id [''a'', ''b'']))"
  by (rule New_builds_iff) simp

text \<open>
  C8. The slots are spread as evenly as possible: with \<open>n\<close> backends, the \<open>m\<close>-th of them in key order
  holds \<open>size div n\<close> slots, and one more when \<open>m < size mod n\<close>. No slot is left empty: every lookup
  key resolves to a backend of the input.
\<close>

theorem New_balanced_total:
  assumes "0 \<le> sz" "sz < 2 ^ 32" "New key bs sz = Some (Inr t)"
  shows "length (t_entries t) = nat sz \<and> set (t_entries t) = Some ` set bs \<and>
    (\<forall>m<length bs. count_list (t_entries t) (Some (t_backends t ! m))
       = nat sz div length bs + of_bool (m < nat sz mod length bs)) \<and>
    (\<forall>h. \<exists>b. b \<in> set bs \<and> Lookup t h = Some b)"
  using assms by (rule New_table)

theorem New_balanced_total_witness:
  "\<exists>t. New id [''b'', ''a''] 5 = Some (Inr t) \<and>
    length (t_entries t) = nat 5 \<and> set (t_entries t) = Some ` set [''b'', ''a''] \<and>
    (\<forall>m<length [''b'', ''a'']. count_list (t_entries t) (Some (t_backends t ! m))
       = nat 5 div length [''b'', ''a''] + of_bool (m < nat 5 mod length [''b'', ''a''])) \<and>
    (\<forall>h. \<exists>b. b \<in> set [''b'', ''a''] \<and> Lookup t h = Some b)"
proof -
  have "case New id [''b'', ''a''] 5 of Some (Inr _) \<Rightarrow> True | _ \<Rightarrow> False" by code_simp
  then obtain t where t: "New id [''b'', ''a''] 5 = Some (Inr t)"
    by (auto split: option.splits sum.splits)
  with New_balanced_total [OF _ _ t] show ?thesis by (intro exI [of _ t]) simp
qed

text \<open>
  C34. Every caller building from the same backends gets the same table, or the same error, whatever
  order it observed them in.
\<close>

theorem New_order_independent:
  assumes "mset bs = mset bs'"
  shows "New key bs sz = New key bs' sz"
  using assms by (rule New_mset)

theorem New_order_independent_witness:
  "mset [''b'', ''a'', ''c''] = mset [''c'', ''b'', ''a''] \<and>
     New id [''b'', ''a'', ''c''] 7 = New id [''c'', ''b'', ''a''] 7"
  using New_order_independent [of "[''b'', ''a'', ''c'']" "[''c'', ''b'', ''a'']" id 7] by simp

text \<open>
  \<open>IsPrime\<close>, which only tries two and the odd numbers up to the square root, decides
  primality.
\<close>

lemma IsPrime_correct: "IsPrime n \<longleftrightarrow> 0 \<le> n \<and> is_prime (nat n)"
  by (rule IsPrime_is_prime)

end
