(* ===== verification/TrafficPolicy.thy ===== *)
theory TrafficPolicy
  imports Netip
begin

unbundle bit_operations_syntax

text \<open>
  \<open>internal/trafficpolicy\<close>: the validated model of a policy, its evaluator (\<open>evaluate.go\<close>) and
  the compiler that lowers it to the flat entries the datapath walks (\<open>compile.go\<close>). A nil pointer
  is \<open>None\<close>; a nil or empty slice is the empty list. Both evaluators are first-match walks, so
  they share the lemmas of the locale \<open>first_match\<close>. The theory shows that the compiled entries
  decide every packet as the policy does, that the entry count is computed without expanding, and
  that the warnings (unreachable and shadowed rules) are right.
\<close>

section \<open>The model of a policy (policy.go)\<close>

datatype Path = PathUnknown | PathPrivate | PathPublicNAT | PathPublicService

definition ProtoICMP :: u8 where "ProtoICMP = 1"
definition ProtoTCP :: u8 where "ProtoTCP = 6"
definition ProtoUDP :: u8 where "ProtoUDP = 17"
definition ProtoICMPv6 :: u8 where "ProtoICMPv6 = 58"

type_synonym Family = u8

definition FamilyIPv4 :: Family where "FamilyIPv4 = 4"
definition FamilyIPv6 :: Family where "FamilyIPv6 = 6"

record PortRange =
  pr_Start :: u16
  pr_End :: u16

definition pr_Contains :: "PortRange \<Rightarrow> u16 \<Rightarrow> bool" where
  "pr_Contains r port = (pr_Start r \<le> port \<and> port \<le> pr_End r)"

record ICMP =
  ic_Type :: u8
  ic_Code :: u8
  ic_HasCode :: bool

record Match =
  m_Path :: "Path option"
  m_Family :: "Family option"
  m_Proto :: "u8 option"
  m_Source :: "prefix list"
  m_Destination :: "prefix list"
  m_SourcePorts :: "PortRange list"
  m_DestPorts :: "PortRange list"
  m_ICMP :: "ICMP option"

record Rule =
  r_Name :: string
  r_Allow :: bool
  r_Match :: Match

record Policy =
  p_Rules :: "Rule list"

definition MatchZero :: Match where
  "MatchZero = \<lparr>m_Path = None, m_Family = None, m_Proto = None, m_Source = [], m_Destination = [],
     m_SourcePorts = [], m_DestPorts = [], m_ICMP = None\<rparr>"

definition DefaultRuleName :: string where "DefaultRuleName = ''deny-all''"

definition Default :: Policy where
  "Default = \<lparr>p_Rules = [\<lparr>r_Name = DefaultRuleName, r_Allow = False, r_Match = MatchZero\<rparr>]\<rparr>"

definition familyOf :: "addr \<Rightarrow> Family" where
  "familyOf a = (if Is4 a then FamilyIPv4 else FamilyIPv6)"

section \<open>The evaluator (evaluate.go)\<close>

record Packet =
  k_Path :: Path
  k_Src :: addr
  k_Dst :: addr
  k_Proto :: u8
  k_SrcPort :: u16
  k_DstPort :: u16
  k_ICMPType :: u8
  k_ICMPCode :: u8

definition pkt_Family :: "Packet \<Rightarrow> Family" where
  "pkt_Family k = familyOf (k_Src k)"

datatype Reason = ReasonRule | ReasonNoMatch | ReasonClassificationError

record Verdict =
  v_Allow :: bool
  v_Rule :: int
  v_Reason :: Reason

fun anyContains :: "prefix list \<Rightarrow> addr \<Rightarrow> bool" where
  "anyContains [] a = False"
| "anyContains (p # ps) a = (if Contains p a then True else anyContains ps a)"

fun anyPort :: "PortRange list \<Rightarrow> u16 \<Rightarrow> bool" where
  "anyPort [] port = False"
| "anyPort (r # rs) port = (if pr_Contains r port then True else anyPort rs port)"

definition matchesExceptPath :: "Match \<Rightarrow> Packet \<Rightarrow> bool" where
  "matchesExceptPath m pkt =
     (let fam = pkt_Family pkt
      in if m_Family m \<noteq> None \<and> the (m_Family m) \<noteq> fam then False
         else if m_Proto m \<noteq> None \<and> the (m_Proto m) \<noteq> k_Proto pkt then False
         else if m_Proto m \<noteq> None \<and>
                 (the (m_Proto m) = ProtoICMP \<and> fam \<noteq> FamilyIPv4 \<or>
                  the (m_Proto m) = ProtoICMPv6 \<and> fam \<noteq> FamilyIPv6) then False
         else if m_Source m \<noteq> [] \<and> \<not> anyContains (m_Source m) (k_Src pkt) then False
         else if m_Destination m \<noteq> [] \<and> \<not> anyContains (m_Destination m) (k_Dst pkt) then False
         else if m_SourcePorts m \<noteq> [] \<and> \<not> anyPort (m_SourcePorts m) (k_SrcPort pkt) then False
         else if m_DestPorts m \<noteq> [] \<and> \<not> anyPort (m_DestPorts m) (k_DstPort pkt) then False
         else if m_ICMP m \<noteq> None \<and>
                 (k_ICMPType pkt \<noteq> ic_Type (the (m_ICMP m)) \<or>
                  ic_HasCode (the (m_ICMP m)) \<and> k_ICMPCode pkt \<noteq> ic_Code (the (m_ICMP m))) then False
         else True)"

fun evaluate_rules :: "(nat \<times> Rule) list \<Rightarrow> Packet \<Rightarrow> Verdict" where
  "evaluate_rules [] pkt = \<lparr>v_Allow = False, v_Rule = -1, v_Reason = ReasonNoMatch\<rparr>"
| "evaluate_rules ((i, r) # rs) pkt =
     (if \<not> matchesExceptPath (r_Match r) pkt then evaluate_rules rs pkt
      else if m_Path (r_Match r) \<noteq> None \<and> k_Path pkt = PathUnknown
      then \<lparr>v_Allow = False, v_Rule = -1, v_Reason = ReasonClassificationError\<rparr>
      else if m_Path (r_Match r) \<noteq> None \<and> the (m_Path (r_Match r)) \<noteq> k_Path pkt
      then evaluate_rules rs pkt
      else \<lparr>v_Allow = r_Allow r, v_Rule = int i, v_Reason = ReasonRule\<rparr>)"

definition Evaluate :: "Policy \<Rightarrow> Packet \<Rightarrow> Verdict" where
  "Evaluate p pkt = evaluate_rules (enumerate 0 (p_Rules p)) pkt"

text \<open>\<open>Shadowed\<close>: the map as the list of its entries in rule order. \<open>reflect.DeepEqual\<close> tells a nil
  slice from an empty one; a validated policy has no empty non-nil slice, so it is equality.\<close>

definition shadowing :: "Rule list \<Rightarrow> nat \<Rightarrow> nat option" where
  "shadowing rs i =
     find (\<lambda>j. r_Match (rs ! j) = MatchZero \<or> r_Match (rs ! j) = r_Match (rs ! i)) [0..<i]"

definition Shadowed :: "Policy \<Rightarrow> (nat \<times> nat) list" where
  "Shadowed p = concat (map (\<lambda>i. case shadowing (p_Rules p) i of None \<Rightarrow> [] | Some j \<Rightarrow> [(i, j)])
     [0..<length (p_Rules p)])"

section \<open>The compiler (compile.go)\<close>

definition FlagAllow :: u16 where "FlagAllow = 0x001"
definition FlagPath :: u16 where "FlagPath = 0x002"
definition FlagFamily :: u16 where "FlagFamily = 0x004"
definition FlagProto :: u16 where "FlagProto = 0x008"
definition FlagSource :: u16 where "FlagSource = 0x010"
definition FlagDestination :: u16 where "FlagDestination = 0x020"
definition FlagSourcePorts :: u16 where "FlagSourcePorts = 0x040"
definition FlagDestPorts :: u16 where "FlagDestPorts = 0x080"
definition FlagICMPType :: u16 where "FlagICMPType = 0x100"
definition FlagICMPCode :: u16 where "FlagICMPCode = 0x200"

record Entry =
  e_Flags :: u16
  e_Rule :: u16
  e_Path :: Path
  e_Family :: Family
  e_Proto :: u8
  e_ICMPType :: u8
  e_ICMPCode :: u8
  e_Source :: prefix
  e_Destination :: prefix
  e_SourcePorts :: PortRange
  e_DestPorts :: PortRange

definition PortRangeZero :: PortRange where
  "PortRangeZero = \<lparr>pr_Start = 0, pr_End = 0\<rparr>"

definition EntryZero :: Entry where
  "EntryZero = \<lparr>e_Flags = 0, e_Rule = 0, e_Path = PathUnknown, e_Family = 0, e_Proto = 0, e_ICMPType = 0,
     e_ICMPCode = 0, e_Source = PrefixZero, e_Destination = PrefixZero, e_SourcePorts = PortRangeZero,
     e_DestPorts = PortRangeZero\<rparr>"

text \<open>\<open>protoFamily\<close>, \<open>pairFamily\<close> and \<open>ruleFamily\<close> return the family and whether there is one.\<close>

definition protoFamily :: "u8 option \<Rightarrow> Family \<times> bool" where
  "protoFamily proto = (case proto of None \<Rightarrow> (0, False)
     | Some q \<Rightarrow> (if q = ProtoICMP then (FamilyIPv4, True)
                 else if q = ProtoICMPv6 then (FamilyIPv6, True) else (0, False)))"

definition ruleFamily :: "Match \<Rightarrow> Family \<times> bool" where
  "ruleFamily m =
     (let (pf, hasPF) = protoFamily (m_Proto m)
      in if m_Family m \<noteq> None \<and> hasPF \<and> the (m_Family m) \<noteq> pf then (0, True)
         else if m_Family m \<noteq> None then (the (m_Family m), True)
         else if hasPF then (pf, True)
         else (0, False))"

definition count_families :: "prefix list \<Rightarrow> nat \<times> nat" where
  "count_families ps =
     (length (filter (\<lambda>p. Is4 (p_addr p)) ps), length (filter (\<lambda>p. \<not> Is4 (p_addr p)) ps))"

definition ruleEntryCount :: "Match \<Rightarrow> nat" where
  "ruleEntryCount m =
     (let (fixed, hasFixed) = ruleFamily m
      in if fixed = 0 \<and> hasFixed then 0
         else
          (let (s4, s6) = count_families (m_Source m);
               (d4, d6) = count_families (m_Destination m);
               (s6, d6) = (if hasFixed \<and> fixed = FamilyIPv4 then (0, 0) else (s6, d6));
               (s4, d4) = (if hasFixed \<and> fixed \<noteq> FamilyIPv4 then (0, 0) else (s4, d4));
               pairs = (if m_Source m \<noteq> [] \<and> m_Destination m \<noteq> [] then s4 * d4 + s6 * d6
                        else if m_Source m \<noteq> [] then s4 + s6
                        else if m_Destination m \<noteq> [] then d4 + d6
                        else 1)
           in pairs * max 1 (length (m_SourcePorts m)) * max 1 (length (m_DestPorts m))))"

definition EntryCount :: "Policy \<Rightarrow> nat" where
  "EntryCount p = fold (\<lambda>r n. n + ruleEntryCount (r_Match r)) (p_Rules p) 0"

definition Unreachable :: "Policy \<Rightarrow> nat list" where
  "Unreachable p = map fst (filter (\<lambda>(i, r). ruleEntryCount (r_Match r) = 0) (enumerate 0 (p_Rules p)))"

type_synonym addressPair = "prefix \<times> prefix"

definition addressPairs :: "Match \<Rightarrow> addressPair list" where
  "addressPairs m =
     (let srcs = (if m_Source m = [] then [PrefixZero] else m_Source m);
          dsts = (if m_Destination m = [] then [PrefixZero] else m_Destination m)
      in concat (map (\<lambda>s. concat (map (\<lambda>d.
           if IsValid s \<and> IsValid d \<and> Is4 (p_addr s) \<noteq> Is4 (p_addr d) then [] else [(s, d)]) dsts)) srcs))"

definition pairFamily :: "addressPair \<Rightarrow> Family \<times> bool" where
  "pairFamily ap =
     (if IsValid (fst ap) then (familyOf (p_addr (fst ap)), True)
      else if IsValid (snd ap) then (familyOf (p_addr (snd ap)), True)
      else (0, False))"

definition baseEntry :: "u16 \<Rightarrow> Rule \<Rightarrow> Entry" where
  "baseEntry index r =
     (let m = r_Match r;
          e = EntryZero\<lparr>e_Rule := index\<rparr>;
          e = (if r_Allow r then e\<lparr>e_Flags := e_Flags e OR FlagAllow\<rparr> else e);
          e = (case m_Path m of None \<Rightarrow> e
               | Some q \<Rightarrow> e\<lparr>e_Flags := e_Flags e OR FlagPath, e_Path := q\<rparr>);
          e = (case m_Family m of None \<Rightarrow> e
               | Some f \<Rightarrow> e\<lparr>e_Flags := e_Flags e OR FlagFamily, e_Family := f\<rparr>);
          e = (case m_Proto m of None \<Rightarrow> e
               | Some q \<Rightarrow>
                   (let e = e\<lparr>e_Flags := e_Flags e OR FlagProto, e_Proto := q\<rparr>
                    in if snd (protoFamily (m_Proto m))
                       then e\<lparr>e_Flags := e_Flags e OR FlagFamily, e_Family := fst (protoFamily (m_Proto m))\<rparr>
                       else e));
          e = (case m_ICMP m of None \<Rightarrow> e
               | Some ic \<Rightarrow>
                   (let e = e\<lparr>e_Flags := e_Flags e OR FlagICMPType, e_ICMPType := ic_Type ic\<rparr>
                    in if ic_HasCode ic
                       then e\<lparr>e_Flags := e_Flags e OR FlagICMPCode, e_ICMPCode := ic_Code ic\<rparr>
                       else e))
      in e)"

text \<open>The body of \<open>expandRule\<close>'s loops: the entry of an address pair (\<open>None\<close> when the loop
  continues with the next pair), and the entry of a port combination.\<close>

definition pair_entry :: "Entry \<Rightarrow> addressPair \<Rightarrow> Entry option" where
  "pair_entry base ap =
     (let e = base;
          e = (if IsValid (fst ap) then e\<lparr>e_Flags := e_Flags e OR FlagSource, e_Source := fst ap\<rparr> else e);
          e = (if IsValid (snd ap) then e\<lparr>e_Flags := e_Flags e OR FlagDestination, e_Destination := snd ap\<rparr> else e);
          (fam, ok) = pairFamily ap
      in if ok
         then (if e_Flags base AND FlagFamily \<noteq> 0 \<and> e_Family base \<noteq> fam then None
               else Some (e\<lparr>e_Flags := e_Flags e OR FlagFamily, e_Family := fam\<rparr>))
         else Some e)"

definition port_entry :: "Match \<Rightarrow> Entry \<Rightarrow> PortRange \<Rightarrow> PortRange \<Rightarrow> Entry" where
  "port_entry m e sp dp =
     (let pe = e;
          pe = (if m_SourcePorts m \<noteq> [] then pe\<lparr>e_Flags := e_Flags pe OR FlagSourcePorts, e_SourcePorts := sp\<rparr> else pe);
          pe = (if m_DestPorts m \<noteq> [] then pe\<lparr>e_Flags := e_Flags pe OR FlagDestPorts, e_DestPorts := dp\<rparr> else pe)
      in pe)"

definition expandRule :: "u16 \<Rightarrow> Rule \<Rightarrow> Entry list" where
  "expandRule index r =
     (let m = r_Match r
      in if snd (ruleFamily m) \<and> fst (ruleFamily m) = 0 then []
         else
          (let base = baseEntry index r;
               sports = (if m_SourcePorts m = [] then [PortRangeZero] else m_SourcePorts m);
               dports = (if m_DestPorts m = [] then [PortRangeZero] else m_DestPorts m)
           in concat (map (\<lambda>ap. case pair_entry base ap of None \<Rightarrow> []
                | Some e \<Rightarrow> concat (map (\<lambda>sp. map (\<lambda>dp. port_entry m e sp dp) dports) sports))
                (addressPairs m))))"

definition MaxRules :: nat where "MaxRules = 64"
definition MaxCompiledEntries :: nat where "MaxCompiledEntries = 256"

datatype compile_error = TooManyRules nat | TooManyEntries nat

definition Compile :: "Policy \<Rightarrow> compile_error + Entry list" where
  "Compile p =
     (if length (p_Rules p) > MaxRules then Inl (TooManyRules (length (p_Rules p)))
      else if EntryCount p > MaxCompiledEntries then Inl (TooManyEntries (EntryCount p))
      else Inr (concat (map (\<lambda>(i, r). expandRule (of_nat i) r) (enumerate 0 (p_Rules p)))))"

definition entryMatchesExceptPath :: "Entry \<Rightarrow> Packet \<Rightarrow> bool" where
  "entryMatchesExceptPath e pkt =
     (if e_Flags e AND FlagFamily \<noteq> 0 \<and> e_Family e \<noteq> pkt_Family pkt then False
      else if e_Flags e AND FlagProto \<noteq> 0 \<and> e_Proto e \<noteq> k_Proto pkt then False
      else if e_Flags e AND FlagSource \<noteq> 0 \<and> \<not> Contains (e_Source e) (k_Src pkt) then False
      else if e_Flags e AND FlagDestination \<noteq> 0 \<and> \<not> Contains (e_Destination e) (k_Dst pkt) then False
      else if e_Flags e AND FlagSourcePorts \<noteq> 0 \<and> \<not> pr_Contains (e_SourcePorts e) (k_SrcPort pkt) then False
      else if e_Flags e AND FlagDestPorts \<noteq> 0 \<and> \<not> pr_Contains (e_DestPorts e) (k_DstPort pkt) then False
      else if e_Flags e AND FlagICMPType \<noteq> 0 \<and> e_ICMPType e \<noteq> k_ICMPType pkt then False
      else if e_Flags e AND FlagICMPCode \<noteq> 0 \<and> e_ICMPCode e \<noteq> k_ICMPCode pkt then False
      else True)"

fun EvaluateEntries :: "Entry list \<Rightarrow> Packet \<Rightarrow> Verdict" where
  "EvaluateEntries [] pkt = \<lparr>v_Allow = False, v_Rule = -1, v_Reason = ReasonNoMatch\<rparr>"
| "EvaluateEntries (e # es) pkt =
     (if \<not> entryMatchesExceptPath e pkt then EvaluateEntries es pkt
      else if e_Flags e AND FlagPath \<noteq> 0 \<and> k_Path pkt = PathUnknown
      then \<lparr>v_Allow = False, v_Rule = -1, v_Reason = ReasonClassificationError\<rparr>
      else if e_Flags e AND FlagPath \<noteq> 0 \<and> e_Path e \<noteq> k_Path pkt then EvaluateEntries es pkt
      else \<lparr>v_Allow = (e_Flags e AND FlagAllow \<noteq> 0), v_Rule = int (unat (e_Rule e)), v_Reason = ReasonRule\<rparr>)"

section \<open>First-match walks\<close>

text \<open>A walk over a list of clauses, each of which decides a packet or passes it on.\<close>

locale first_match =
  fixes decide :: "'e \<Rightarrow> Packet \<Rightarrow> Verdict option" and walk :: "'e list \<Rightarrow> Packet \<Rightarrow> Verdict"
  assumes walk_Nil: "walk [] pkt = \<lparr>v_Allow = False, v_Rule = -1, v_Reason = ReasonNoMatch\<rparr>"
    and walk_Cons: "walk (e # es) pkt = (case decide e pkt of None \<Rightarrow> walk es pkt | Some v \<Rightarrow> v)"
begin

lemma walk_append_pass: "(\<And>e. e \<in> set es \<Longrightarrow> decide e pkt = None) \<Longrightarrow> walk (es @ fs) pkt = walk fs pkt"
  by (induction es) (simp_all add: walk_Cons)

lemma walk_append_decide:
  assumes "e \<in> set es" "decide e pkt = Some v" "\<forall>e\<in>set es. decide e pkt = None \<or> decide e pkt = Some v"
  shows "walk (es @ fs) pkt = v"
  using assms by (induction es) (auto simp: walk_Cons split: option.split)

lemma walk_cases:
  obtains "walk es pkt = \<lparr>v_Allow = False, v_Rule = -1, v_Reason = ReasonNoMatch\<rparr>" "\<forall>e\<in>set es. decide e pkt = None"
  | pre e post where "es = pre @ e # post" "\<forall>e\<in>set pre. decide e pkt = None" "decide e pkt = Some (walk es pkt)"
proof (induction es arbitrary: thesis)
  case Nil
  then show ?case by (simp add: walk_Nil)
next
  case (Cons e es)
  show ?case
  proof (cases "decide e pkt")
    case (Some v)
    then show ?thesis using Cons.prems(2) [of "[]" e es] by (simp add: walk_Cons)
  next
    case None
    show ?thesis
    proof (rule Cons.IH)
      assume "walk es pkt = \<lparr>v_Allow = False, v_Rule = -1, v_Reason = ReasonNoMatch\<rparr>" "\<forall>e\<in>set es. decide e pkt = None"
      then show ?thesis using Cons.prems(1) None by (simp add: walk_Cons)
    next
      fix pre f post
      assume "es = pre @ f # post" "\<forall>e\<in>set pre. decide e pkt = None" "decide f pkt = Some (walk es pkt)"
      then show ?thesis using Cons.prems(2) [of "e # pre" f post] None by (simp add: walk_Cons)
    qed
  qed
qed

end

text \<open>What one clause decides, given whether its other fields match: its path, if it names one, has
  to be the packet's, and a packet of unknown path is refused.\<close>

definition decide_clause :: "bool \<Rightarrow> Path option \<Rightarrow> bool \<Rightarrow> int \<Rightarrow> Packet \<Rightarrow> Verdict option" where
  "decide_clause matches path allow rule pkt =
     (if \<not> matches then None
      else if path \<noteq> None \<and> k_Path pkt = PathUnknown
      then Some \<lparr>v_Allow = False, v_Rule = -1, v_Reason = ReasonClassificationError\<rparr>
      else if path \<noteq> None \<and> the path \<noteq> k_Path pkt then None
      else Some \<lparr>v_Allow = allow, v_Rule = rule, v_Reason = ReasonRule\<rparr>)"

definition decide_rule :: "nat \<times> Rule \<Rightarrow> Packet \<Rightarrow> Verdict option" where
  "decide_rule ir pkt = decide_clause (matchesExceptPath (r_Match (snd ir)) pkt) (m_Path (r_Match (snd ir)))
     (r_Allow (snd ir)) (int (fst ir)) pkt"

definition entry_path :: "Entry \<Rightarrow> Path option" where
  "entry_path e = (if e_Flags e AND FlagPath \<noteq> 0 then Some (e_Path e) else None)"

definition decide_entry :: "Entry \<Rightarrow> Packet \<Rightarrow> Verdict option" where
  "decide_entry e pkt = decide_clause (entryMatchesExceptPath e pkt) (entry_path e)
     (e_Flags e AND FlagAllow \<noteq> 0) (int (unat (e_Rule e))) pkt"

interpretation rules: first_match decide_rule evaluate_rules
  by unfold_locales (auto simp: decide_rule_def decide_clause_def split: prod.split)

interpretation entries: first_match decide_entry EvaluateEntries
  by unfold_locales (auto simp: decide_entry_def decide_clause_def entry_path_def)

section \<open>Flags\<close>



lemma bit_flag:
  "bit FlagAllow n \<longleftrightarrow> n = 0" "bit FlagPath n \<longleftrightarrow> n = 1" "bit FlagFamily n \<longleftrightarrow> n = 2"
  "bit FlagProto n \<longleftrightarrow> n = 3" "bit FlagSource n \<longleftrightarrow> n = 4" "bit FlagDestination n \<longleftrightarrow> n = 5"
  "bit FlagSourcePorts n \<longleftrightarrow> n = 6" "bit FlagDestPorts n \<longleftrightarrow> n = 7" "bit FlagICMPType n \<longleftrightarrow> n = 8"
  "bit FlagICMPCode n \<longleftrightarrow> n = 9"
proof -
  have push: "FlagAllow = push_bit 0 1" "FlagPath = push_bit 1 1" "FlagFamily = push_bit 2 1"
    "FlagProto = push_bit 3 1" "FlagSource = push_bit 4 1" "FlagDestination = push_bit 5 1"
    "FlagSourcePorts = push_bit 6 1" "FlagDestPorts = push_bit 7 1" "FlagICMPType = push_bit 8 1"
    "FlagICMPCode = push_bit 9 1"
    by (simp_all add: FlagAllow_def FlagPath_def FlagFamily_def FlagProto_def FlagSource_def
        FlagDestination_def FlagSourcePorts_def FlagDestPorts_def FlagICMPType_def FlagICMPCode_def)
  have one: "bit (push_bit m (1::u16)) n \<longleftrightarrow> n = m" if "m < 16" for m
    using that by (auto simp: bit_exp_iff)
  show "bit FlagAllow n \<longleftrightarrow> n = 0" "bit FlagPath n \<longleftrightarrow> n = 1" "bit FlagFamily n \<longleftrightarrow> n = 2"
    "bit FlagProto n \<longleftrightarrow> n = 3" "bit FlagSource n \<longleftrightarrow> n = 4" "bit FlagDestination n \<longleftrightarrow> n = 5"
    "bit FlagSourcePorts n \<longleftrightarrow> n = 6" "bit FlagDestPorts n \<longleftrightarrow> n = 7" "bit FlagICMPType n \<longleftrightarrow> n = 8"
    "bit FlagICMPCode n \<longleftrightarrow> n = 9"
    unfolding push by (rule one, simp)+
qed

lemma and_flag: "(x AND f = 0) \<longleftrightarrow> \<not> bit x n" if "\<And>m. bit f m \<longleftrightarrow> m = n" for x f :: u16
  using bit_eq_iff [of "x AND f" 0] bit_imp_le_length [of x] by (auto simp: bit_and_iff that possible_bit_word)

lemmas and_flags = and_flag [OF bit_flag(1)] and_flag [OF bit_flag(2)] and_flag [OF bit_flag(3)]
  and_flag [OF bit_flag(4)] and_flag [OF bit_flag(5)] and_flag [OF bit_flag(6)] and_flag [OF bit_flag(7)]
  and_flag [OF bit_flag(8)] and_flag [OF bit_flag(9)] and_flag [OF bit_flag(10)]

lemmas flag_simps = and_flags bit_flag bit_or_iff

section \<open>Well-formedness\<close>

text \<open>What \<open>FromAPI\<close> establishes: prefixes are valid, families are the two there are, and port ranges
  are not empty. A packet's addresses are of one family.\<close>

definition wf_match :: "Match \<Rightarrow> bool" where
  "wf_match m \<longleftrightarrow> list_all wf_prefix (m_Source m) \<and> list_all wf_prefix (m_Destination m) \<and>
     list_all (\<lambda>r. pr_Start r \<le> pr_End r) (m_SourcePorts m) \<and>
     list_all (\<lambda>r. pr_Start r \<le> pr_End r) (m_DestPorts m) \<and>
     (m_Family m = None \<or> m_Family m = Some FamilyIPv4 \<or> m_Family m = Some FamilyIPv6)"

definition wf_policy :: "Policy \<Rightarrow> bool" where
  "wf_policy p \<longleftrightarrow> list_all (\<lambda>r. wf_match (r_Match r)) (p_Rules p)"

definition wf_packet :: "Packet \<Rightarrow> bool" where
  "wf_packet pkt \<longleftrightarrow> familyOf (k_Src pkt) = familyOf (k_Dst pkt)"

text \<open>The fields of a rule that have no alternatives.\<close>

definition fixed_matches :: "Match \<Rightarrow> Packet \<Rightarrow> bool" where
  "fixed_matches m pkt \<longleftrightarrow>
     (m_Family m = None \<or> m_Family m = Some (pkt_Family pkt)) \<and>
     (m_Proto m = None \<or> m_Proto m = Some (k_Proto pkt)) \<and>
     (snd (protoFamily (m_Proto m)) \<longrightarrow> fst (protoFamily (m_Proto m)) = pkt_Family pkt) \<and>
     (\<forall>ic. m_ICMP m = Some ic \<longrightarrow>
        k_ICMPType pkt = ic_Type ic \<and> (ic_HasCode ic \<longrightarrow> k_ICMPCode pkt = ic_Code ic))"

text \<open>Whether one combination of a rule's alternatives matches; an invalid prefix is an omitted side.\<close>

definition alternative_matches :: "Match \<Rightarrow> addressPair \<Rightarrow> PortRange \<Rightarrow> PortRange \<Rightarrow> Packet \<Rightarrow> bool" where
  "alternative_matches m ap sp dp pkt \<longleftrightarrow> fixed_matches m pkt \<and>
     (IsValid (fst ap) \<longrightarrow> Contains (fst ap) (k_Src pkt)) \<and>
     (IsValid (snd ap) \<longrightarrow> Contains (snd ap) (k_Dst pkt)) \<and>
     (m_SourcePorts m \<noteq> [] \<longrightarrow> pr_Contains sp (k_SrcPort pkt)) \<and>
     (m_DestPorts m \<noteq> [] \<longrightarrow> pr_Contains dp (k_DstPort pkt))"

section \<open>A rule and its expansion\<close>

lemma family_distinct [simp]:
  "FamilyIPv4 \<noteq> FamilyIPv6" "FamilyIPv6 \<noteq> FamilyIPv4" "FamilyIPv4 \<noteq> 0" "FamilyIPv6 \<noteq> 0" "familyOf a \<noteq> 0"
  "0 \<noteq> FamilyIPv4" "0 \<noteq> FamilyIPv6" "ProtoICMP \<noteq> ProtoICMPv6" "ProtoICMPv6 \<noteq> ProtoICMP"
  by (simp_all add: familyOf_def FamilyIPv4_def FamilyIPv6_def ProtoICMP_def ProtoICMPv6_def)

lemma anyContains_iff: "anyContains ps a \<longleftrightarrow> (\<exists>p\<in>set ps. Contains p a)"
  by (induction ps) auto

lemma anyPort_iff: "anyPort rs port \<longleftrightarrow> (\<exists>r\<in>set rs. pr_Contains r port)"
  by (induction rs) auto

lemma Contains_familyOf: "Contains p a \<Longrightarrow> familyOf (p_addr p) = familyOf a"
  by (simp add: familyOf_def Contains_family)

text \<open>The family flag of a rule's entries, before the addresses.\<close>

definition base_family :: "Match \<Rightarrow> Family option" where
  "base_family m = (if snd (protoFamily (m_Proto m)) then Some (fst (protoFamily (m_Proto m))) else m_Family m)"

lemma baseEntry_fields:
  "bit (e_Flags (baseEntry i r)) 0 = r_Allow r"
  "bit (e_Flags (baseEntry i r)) 1 = (m_Path (r_Match r) \<noteq> None)"
  "bit (e_Flags (baseEntry i r)) 2 = (base_family (r_Match r) \<noteq> None)"
  "bit (e_Flags (baseEntry i r)) 3 = (m_Proto (r_Match r) \<noteq> None)"
  "\<not> bit (e_Flags (baseEntry i r)) 4" "\<not> bit (e_Flags (baseEntry i r)) 5"
  "\<not> bit (e_Flags (baseEntry i r)) 6" "\<not> bit (e_Flags (baseEntry i r)) 7"
  "bit (e_Flags (baseEntry i r)) 8 = (m_ICMP (r_Match r) \<noteq> None)"
  "bit (e_Flags (baseEntry i r)) 9 = (\<exists>ic. m_ICMP (r_Match r) = Some ic \<and> ic_HasCode ic)"
  "e_Rule (baseEntry i r) = i"
  "m_Path (r_Match r) = Some q \<Longrightarrow> e_Path (baseEntry i r) = q"
  "base_family (r_Match r) = Some f \<Longrightarrow> e_Family (baseEntry i r) = f"
  "m_Proto (r_Match r) = Some pr \<Longrightarrow> e_Proto (baseEntry i r) = pr"
  "m_ICMP (r_Match r) = Some ic \<Longrightarrow> e_ICMPType (baseEntry i r) = ic_Type ic"
  "m_ICMP (r_Match r) = Some ic \<Longrightarrow> ic_HasCode ic \<Longrightarrow> e_ICMPCode (baseEntry i r) = ic_Code ic"
  by (auto simp: baseEntry_def base_family_def EntryZero_def Let_def flag_simps protoFamily_def split: option.splits if_splits)

lemma ruleFamily_cases:
  "(snd (ruleFamily m) \<and> fst (ruleFamily m) = 0) \<longleftrightarrow>
     m_Family m = Some 0 \<or>
     (\<exists>f. m_Family m = Some f \<and> snd (protoFamily (m_Proto m)) \<and> f \<noteq> fst (protoFamily (m_Proto m)))"
  by (auto simp: ruleFamily_def protoFamily_def split: prod.splits option.splits if_splits)

lemma base_family_match:
  assumes "\<not> (snd (ruleFamily m) \<and> fst (ruleFamily m) = 0)"
  shows "(base_family m = None \<or> base_family m = Some f) \<longleftrightarrow>
     (m_Family m = None \<or> m_Family m = Some f) \<and>
     (snd (protoFamily (m_Proto m)) \<longrightarrow> fst (protoFamily (m_Proto m)) = f)"
  using assms unfolding ruleFamily_cases base_family_def by (cases "m_Family m") auto

text \<open>The entry of a combination matches exactly when the combination does, and keeps what the
  verdict is made of.\<close>

lemma pair_entry_fields:
  assumes "pair_entry (baseEntry i r) ap = Some e"
  shows "bit (e_Flags e) 4 = IsValid (fst ap)" "bit (e_Flags e) 5 = IsValid (snd ap)"
    "bit (e_Flags e) 2 = (base_family (r_Match r) \<noteq> None \<or> snd (pairFamily ap))"
    "IsValid (fst ap) \<Longrightarrow> e_Source e = fst ap" "IsValid (snd ap) \<Longrightarrow> e_Destination e = snd ap"
    "snd (pairFamily ap) \<Longrightarrow> e_Family e = fst (pairFamily ap)"
    "base_family (r_Match r) = Some f \<Longrightarrow> e_Family e = f"
    "n \<notin> {2, 4, 5} \<Longrightarrow> bit (e_Flags e) n = bit (e_Flags (baseEntry i r)) n"
    "e_Rule e = e_Rule (baseEntry i r)" "e_Path e = e_Path (baseEntry i r)" "e_Proto e = e_Proto (baseEntry i r)"
    "e_ICMPType e = e_ICMPType (baseEntry i r)" "e_ICMPCode e = e_ICMPCode (baseEntry i r)"
  using assms
  by (auto simp: pair_entry_def Let_def flag_simps baseEntry_fields pairFamily_def split: if_splits)

lemma port_entry_fields:
  "bit (e_Flags (port_entry m e sp dp)) 6 = (bit (e_Flags e) 6 \<or> m_SourcePorts m \<noteq> [])"
  "bit (e_Flags (port_entry m e sp dp)) 7 = (bit (e_Flags e) 7 \<or> m_DestPorts m \<noteq> [])"
  "m_SourcePorts m \<noteq> [] \<Longrightarrow> e_SourcePorts (port_entry m e sp dp) = sp"
  "m_DestPorts m \<noteq> [] \<Longrightarrow> e_DestPorts (port_entry m e sp dp) = dp"
  "n \<notin> {6, 7} \<Longrightarrow> bit (e_Flags (port_entry m e sp dp)) n = bit (e_Flags e) n"
  "e_Rule (port_entry m e sp dp) = e_Rule e" "e_Path (port_entry m e sp dp) = e_Path e"
  "e_Family (port_entry m e sp dp) = e_Family e" "e_Proto (port_entry m e sp dp) = e_Proto e"
  "e_ICMPType (port_entry m e sp dp) = e_ICMPType e" "e_ICMPCode (port_entry m e sp dp) = e_ICMPCode e"
  "e_Source (port_entry m e sp dp) = e_Source e" "e_Destination (port_entry m e sp dp) = e_Destination e"
  by (auto simp: port_entry_def Let_def flag_simps)

lemma entryMatches_iff:
  "entryMatchesExceptPath e pkt \<longleftrightarrow>
     (bit (e_Flags e) 2 \<longrightarrow> e_Family e = pkt_Family pkt) \<and>
     (bit (e_Flags e) 3 \<longrightarrow> e_Proto e = k_Proto pkt) \<and>
     (bit (e_Flags e) 4 \<longrightarrow> Contains (e_Source e) (k_Src pkt)) \<and>
     (bit (e_Flags e) 5 \<longrightarrow> Contains (e_Destination e) (k_Dst pkt)) \<and>
     (bit (e_Flags e) 6 \<longrightarrow> pr_Contains (e_SourcePorts e) (k_SrcPort pkt)) \<and>
     (bit (e_Flags e) 7 \<longrightarrow> pr_Contains (e_DestPorts e) (k_DstPort pkt)) \<and>
     (bit (e_Flags e) 8 \<longrightarrow> e_ICMPType e = k_ICMPType pkt) \<and>
     (bit (e_Flags e) 9 \<longrightarrow> e_ICMPCode e = k_ICMPCode pkt)"
  by (auto simp: entryMatchesExceptPath_def and_flags)

lemma pairFamily_packet:
  assumes "snd (pairFamily ap)" "wf_packet pkt"
    "IsValid (fst ap) \<Longrightarrow> Contains (fst ap) (k_Src pkt)" "IsValid (snd ap) \<Longrightarrow> Contains (snd ap) (k_Dst pkt)"
  shows "fst (pairFamily ap) = pkt_Family pkt"
  using assms by (auto simp: pairFamily_def pkt_Family_def wf_packet_def Contains_familyOf split: if_splits)

lemma entry_family:
  assumes "pair_entry (baseEntry i r) ap = Some e" "wf_packet pkt"
    "IsValid (fst ap) \<Longrightarrow> Contains (fst ap) (k_Src pkt)" "IsValid (snd ap) \<Longrightarrow> Contains (snd ap) (k_Dst pkt)"
  shows "(bit (e_Flags e) 2 \<longrightarrow> e_Family e = pkt_Family pkt) \<longleftrightarrow>
     (base_family (r_Match r) = None \<or> base_family (r_Match r) = Some (pkt_Family pkt))"
proof (cases "snd (pairFamily ap)")
  case True
  then have "e_Family e = pkt_Family pkt"
    using pair_entry_fields(6) [OF assms(1)] pairFamily_packet [OF True assms(2-4)] by simp
  then show ?thesis using pair_entry_fields(7) [OF assms(1)] by (cases "base_family (r_Match r)") auto
next
  case False
  then show ?thesis using pair_entry_fields(3,7) [OF assms(1)] by (cases "base_family (r_Match r)") auto
qed

lemma entry_matches_alternative:
  assumes "\<not> (snd (ruleFamily (r_Match r)) \<and> fst (ruleFamily (r_Match r)) = 0)"
    "pair_entry (baseEntry i r) ap = Some e" "wf_packet pkt"
  shows "entryMatchesExceptPath (port_entry (r_Match r) e sp dp) pkt \<longleftrightarrow>
     alternative_matches (r_Match r) ap sp dp pkt"
proof (cases "(IsValid (fst ap) \<longrightarrow> Contains (fst ap) (k_Src pkt)) \<and> (IsValid (snd ap) \<longrightarrow> Contains (snd ap) (k_Dst pkt))")
  case False
  then show ?thesis
    by (auto simp: entryMatches_iff alternative_matches_def port_entry_fields pair_entry_fields [OF assms(2)])
next
  case True
  note fam = entry_family [OF assms(2,3)] base_family_match [OF assms(1), of "pkt_Family pkt"]
  have icmp: "(bit (e_Flags (baseEntry i r)) 8 \<longrightarrow> e_ICMPType (baseEntry i r) = k_ICMPType pkt) \<and>
      (bit (e_Flags (baseEntry i r)) 9 \<longrightarrow> e_ICMPCode (baseEntry i r) = k_ICMPCode pkt) \<longleftrightarrow>
      (\<forall>ic. m_ICMP (r_Match r) = Some ic \<longrightarrow>
        k_ICMPType pkt = ic_Type ic \<and> (ic_HasCode ic \<longrightarrow> k_ICMPCode pkt = ic_Code ic))"
    by (cases "m_ICMP (r_Match r)") (auto simp: baseEntry_fields)
  have proto: "(bit (e_Flags (baseEntry i r)) 3 \<longrightarrow> e_Proto (baseEntry i r) = k_Proto pkt) \<longleftrightarrow>
      (m_Proto (r_Match r) = None \<or> m_Proto (r_Match r) = Some (k_Proto pkt))"
    by (cases "m_Proto (r_Match r)") (auto simp: baseEntry_fields)
  have fixed: "fixed_matches (r_Match r) pkt \<longleftrightarrow>
      (bit (e_Flags e) 2 \<longrightarrow> e_Family e = pkt_Family pkt) \<and>
      (bit (e_Flags (baseEntry i r)) 3 \<longrightarrow> e_Proto (baseEntry i r) = k_Proto pkt) \<and>
      (bit (e_Flags (baseEntry i r)) 8 \<longrightarrow> e_ICMPType (baseEntry i r) = k_ICMPType pkt) \<and>
      (bit (e_Flags (baseEntry i r)) 9 \<longrightarrow> e_ICMPCode (baseEntry i r) = k_ICMPCode pkt)"
    unfolding fixed_matches_def proto icmp using fam True by blast
  show ?thesis
    unfolding entryMatches_iff alternative_matches_def fixed
    using True by (simp add: port_entry_fields pair_entry_fields [OF assms(2)] baseEntry_fields(7,8) conj_ac)
qed

lemma no_entry_no_match:
  assumes "\<not> (snd (ruleFamily (r_Match r)) \<and> fst (ruleFamily (r_Match r)) = 0)"
    "pair_entry (baseEntry i r) ap = None" "wf_packet pkt"
  shows "\<not> alternative_matches (r_Match r) ap sp dp pkt"
proof
  assume alt: "alternative_matches (r_Match r) ap sp dp pkt"
  have ok: "snd (pairFamily ap)" and ne: "bit (e_Flags (baseEntry i r)) 2" "e_Family (baseEntry i r) \<noteq> fst (pairFamily ap)"
    using assms(2) by (auto simp: pair_entry_def Let_def and_flags split: if_splits prod.splits)
  obtain f where f: "base_family (r_Match r) = Some f" using ne(1) by (auto simp: baseEntry_fields)
  have "fst (pairFamily ap) = pkt_Family pkt"
    using alt by (intro pairFamily_packet [OF ok assms(3)]) (auto simp: alternative_matches_def)
  moreover have "f = pkt_Family pkt"
    using alt f base_family_match [OF assms(1), of "pkt_Family pkt"]
    by (simp add: alternative_matches_def fixed_matches_def)
  ultimately show False using ne(2) f by (simp add: baseEntry_fields)
qed

definition source_ports :: "Match \<Rightarrow> PortRange list" where
  "source_ports m = (if m_SourcePorts m = [] then [PortRangeZero] else m_SourcePorts m)"

definition dest_ports :: "Match \<Rightarrow> PortRange list" where
  "dest_ports m = (if m_DestPorts m = [] then [PortRangeZero] else m_DestPorts m)"

lemma PrefixZero_invalid [simp]: "\<not> IsValid PrefixZero"
  by (simp add: PrefixZero_def IsValid_def)

lemma set_addressPairs:
  "(s, d) \<in> set (addressPairs m) \<longleftrightarrow>
     s \<in> set (if m_Source m = [] then [PrefixZero] else m_Source m) \<and>
     d \<in> set (if m_Destination m = [] then [PrefixZero] else m_Destination m) \<and>
     \<not> (IsValid s \<and> IsValid d \<and> Is4 (p_addr s) \<noteq> Is4 (p_addr d))"
  by (auto simp: addressPairs_def Let_def split: if_splits)

lemma matchesExceptPath_iff:
  "matchesExceptPath m pkt \<longleftrightarrow> fixed_matches m pkt \<and>
     (m_Source m \<noteq> [] \<longrightarrow> (\<exists>p\<in>set (m_Source m). Contains p (k_Src pkt))) \<and>
     (m_Destination m \<noteq> [] \<longrightarrow> (\<exists>p\<in>set (m_Destination m). Contains p (k_Dst pkt))) \<and>
     (m_SourcePorts m \<noteq> [] \<longrightarrow> (\<exists>r\<in>set (m_SourcePorts m). pr_Contains r (k_SrcPort pkt))) \<and>
     (m_DestPorts m \<noteq> [] \<longrightarrow> (\<exists>r\<in>set (m_DestPorts m). pr_Contains r (k_DstPort pkt)))"
proof -
  have "fixed_matches m pkt \<longleftrightarrow>
      \<not> (m_Family m \<noteq> None \<and> the (m_Family m) \<noteq> pkt_Family pkt) \<and>
      \<not> (m_Proto m \<noteq> None \<and> the (m_Proto m) \<noteq> k_Proto pkt) \<and>
      \<not> (m_Proto m \<noteq> None \<and> (the (m_Proto m) = ProtoICMP \<and> pkt_Family pkt \<noteq> FamilyIPv4 \<or>
          the (m_Proto m) = ProtoICMPv6 \<and> pkt_Family pkt \<noteq> FamilyIPv6)) \<and>
      \<not> (m_ICMP m \<noteq> None \<and> (k_ICMPType pkt \<noteq> ic_Type (the (m_ICMP m)) \<or>
          ic_HasCode (the (m_ICMP m)) \<and> k_ICMPCode pkt \<noteq> ic_Code (the (m_ICMP m))))"
    unfolding fixed_matches_def protoFamily_def
    by (cases "m_Family m"; cases "m_Proto m"; cases "m_ICMP m") auto
  moreover have if_False_else: "(if c then False else X) \<longleftrightarrow> \<not> c \<and> X" for c X by simp
  ultimately show ?thesis
    unfolding matchesExceptPath_def Let_def anyContains_iff anyPort_iff if_False_else by blast
qed

lemma pick_prefix:
  assumes "m \<noteq> [] \<longrightarrow> (\<exists>p\<in>set m. Contains p a)"
  obtains s where "s \<in> set (if m = [] then [PrefixZero] else m)" "IsValid s \<longrightarrow> Contains s a"
  using assms by (cases "m = []") auto

lemma pick_range:
  assumes "rs \<noteq> [] \<longrightarrow> (\<exists>r\<in>set rs. pr_Contains r port)"
  obtains r where "r \<in> set (if rs = [] then [PortRangeZero] else rs)" "rs \<noteq> [] \<longrightarrow> pr_Contains r port"
  using assms by (cases "rs = []") auto

lemma matches_alternative:
  assumes wf: "wf_match m" and pkt: "wf_packet pkt"
  shows "matchesExceptPath m pkt \<longleftrightarrow>
    (\<exists>ap\<in>set (addressPairs m). \<exists>sp\<in>set (source_ports m). \<exists>dp\<in>set (dest_ports m). alternative_matches m ap sp dp pkt)"
proof
  assume "matchesExceptPath m pkt"
  note m = this [unfolded matchesExceptPath_iff]
  obtain s where s: "s \<in> set (if m_Source m = [] then [PrefixZero] else m_Source m)"
      "IsValid s \<longrightarrow> Contains s (k_Src pkt)" using m pick_prefix by blast
  obtain d where d: "d \<in> set (if m_Destination m = [] then [PrefixZero] else m_Destination m)"
      "IsValid d \<longrightarrow> Contains d (k_Dst pkt)" using m pick_prefix by blast
  obtain sp where sp: "sp \<in> set (source_ports m)" "m_SourcePorts m \<noteq> [] \<longrightarrow> pr_Contains sp (k_SrcPort pkt)"
    unfolding source_ports_def using m pick_range by blast
  obtain dp where dp: "dp \<in> set (dest_ports m)" "m_DestPorts m \<noteq> [] \<longrightarrow> pr_Contains dp (k_DstPort pkt)"
    unfolding dest_ports_def using m pick_range by blast
  have "\<not> (IsValid s \<and> IsValid d \<and> Is4 (p_addr s) \<noteq> Is4 (p_addr d))"
    using s(2) d(2) pkt Contains_family [of s "k_Src pkt"] Contains_family [of d "k_Dst pkt"]
    by (auto simp: wf_packet_def familyOf_def split: if_splits)
  then have "(s, d) \<in> set (addressPairs m)" using s(1) d(1) by (simp add: set_addressPairs)
  moreover have "alternative_matches m (s, d) sp dp pkt"
    using m s(2) d(2) sp(2) dp(2) by (simp add: alternative_matches_def)
  ultimately show "\<exists>ap\<in>set (addressPairs m). \<exists>sp\<in>set (source_ports m). \<exists>dp\<in>set (dest_ports m).
      alternative_matches m ap sp dp pkt" using sp(1) dp(1) by blast
next
  assume "\<exists>ap\<in>set (addressPairs m). \<exists>sp\<in>set (source_ports m). \<exists>dp\<in>set (dest_ports m). alternative_matches m ap sp dp pkt"
  then obtain s d sp dp where sd: "(s, d) \<in> set (addressPairs m)" and sp: "sp \<in> set (source_ports m)"
    and dp: "dp \<in> set (dest_ports m)" and alt: "alternative_matches m (s, d) sp dp pkt" by auto
  have "m_Source m \<noteq> [] \<Longrightarrow> s \<in> set (m_Source m) \<and> Contains s (k_Src pkt)"
    using sd alt wf by (simp add: set_addressPairs alternative_matches_def wf_match_def list_all_iff wf_prefix_valid)
  moreover have "m_Destination m \<noteq> [] \<Longrightarrow> d \<in> set (m_Destination m) \<and> Contains d (k_Dst pkt)"
    using sd alt wf by (simp add: set_addressPairs alternative_matches_def wf_match_def list_all_iff wf_prefix_valid)
  moreover have "m_SourcePorts m \<noteq> [] \<Longrightarrow> sp \<in> set (m_SourcePorts m) \<and> pr_Contains sp (k_SrcPort pkt)"
    using sp alt by (simp add: source_ports_def alternative_matches_def)
  moreover have "m_DestPorts m \<noteq> [] \<Longrightarrow> dp \<in> set (m_DestPorts m) \<and> pr_Contains dp (k_DstPort pkt)"
    using dp alt by (simp add: dest_ports_def alternative_matches_def)
  ultimately show "matchesExceptPath m pkt"
    unfolding matchesExceptPath_iff using alt [unfolded alternative_matches_def] by blast
qed

lemma set_expandRule:
  "e \<in> set (expandRule i r) \<longleftrightarrow>
     \<not> (snd (ruleFamily (r_Match r)) \<and> fst (ruleFamily (r_Match r)) = 0) \<and>
     (\<exists>ap\<in>set (addressPairs (r_Match r)). \<exists>sp\<in>set (source_ports (r_Match r)). \<exists>dp\<in>set (dest_ports (r_Match r)).
        \<exists>e0. pair_entry (baseEntry i r) ap = Some e0 \<and> e = port_entry (r_Match r) e0 sp dp)"
proof -
  have opt: "x \<in> set (case v of None \<Rightarrow> [] | Some y \<Rightarrow> f y) \<longleftrightarrow> (\<exists>y. v = Some y \<and> x \<in> set (f y))" for x v f
    by (cases v) simp_all
  have "e \<in> set (concat (map (\<lambda>ap. case pair_entry (baseEntry i r) ap of None \<Rightarrow> []
         | Some e \<Rightarrow> concat (map (\<lambda>sp. map (\<lambda>dp. port_entry (r_Match r) e sp dp) dps) sps)) aps)) \<longleftrightarrow>
      (\<exists>ap\<in>set aps. \<exists>sp\<in>set sps. \<exists>dp\<in>set dps. \<exists>e0. pair_entry (baseEntry i r) ap = Some e0 \<and>
         e = port_entry (r_Match r) e0 sp dp)" for aps sps dps
    unfolding set_concat set_map UN_iff image_iff bex_simps opt by fastforce
  then show ?thesis
    unfolding expandRule_def Let_def source_ports_def [symmetric] dest_ports_def [symmetric] by simp
qed

lemma entry_decides:
  assumes "e \<in> set (expandRule i r)"
  shows "decide_entry e pkt = decide_clause (entryMatchesExceptPath e pkt) (m_Path (r_Match r)) (r_Allow r) (int (unat i)) pkt"
proof -
  obtain ap e0 sp dp where e0: "pair_entry (baseEntry i r) ap = Some e0" and e: "e = port_entry (r_Match r) e0 sp dp"
    using assms by (auto simp: set_expandRule)
  have "entry_path e = m_Path (r_Match r)"
    by (cases "m_Path (r_Match r)")
       (simp_all add: entry_path_def and_flags e port_entry_fields pair_entry_fields [OF e0] baseEntry_fields [simplified])
  moreover have "(e_Flags e AND FlagAllow \<noteq> 0) = r_Allow r" "e_Rule e = i"
    by (simp_all add: and_flags e port_entry_fields pair_entry_fields [OF e0] baseEntry_fields)
  ultimately show ?thesis by (simp add: decide_entry_def)
qed

lemma contradiction_no_match:
  assumes "snd (ruleFamily m) \<and> fst (ruleFamily m) = 0"
  shows "\<not> matchesExceptPath m pkt"
  using assms unfolding ruleFamily_cases by (auto simp: matchesExceptPath_iff fixed_matches_def pkt_Family_def)

lemma expandRule_matches:
  assumes "wf_match (r_Match r)" "wf_packet pkt"
  shows "(\<exists>e\<in>set (expandRule i r). entryMatchesExceptPath e pkt) \<longleftrightarrow> matchesExceptPath (r_Match r) pkt"
proof (cases "snd (ruleFamily (r_Match r)) \<and> fst (ruleFamily (r_Match r)) = 0")
  case True
  then show ?thesis using contradiction_no_match [OF True] by (auto simp: set_expandRule)
next
  case False
  note alt = entry_matches_alternative [OF False _ assms(2)] and none = no_entry_no_match [OF False _ assms(2)]
  show ?thesis
    unfolding matches_alternative [OF assms]
  proof
    assume "\<exists>e\<in>set (expandRule i r). entryMatchesExceptPath e pkt"
    then obtain ap sp dp e0 where "ap \<in> set (addressPairs (r_Match r))" "sp \<in> set (source_ports (r_Match r))"
      "dp \<in> set (dest_ports (r_Match r))" "pair_entry (baseEntry i r) ap = Some e0"
      "entryMatchesExceptPath (port_entry (r_Match r) e0 sp dp) pkt" by (auto simp: set_expandRule)
    then show "\<exists>ap\<in>set (addressPairs (r_Match r)). \<exists>sp\<in>set (source_ports (r_Match r)).
        \<exists>dp\<in>set (dest_ports (r_Match r)). alternative_matches (r_Match r) ap sp dp pkt"
      using alt [of i ap e0 sp dp] by blast
  next
    assume "\<exists>ap\<in>set (addressPairs (r_Match r)). \<exists>sp\<in>set (source_ports (r_Match r)).
        \<exists>dp\<in>set (dest_ports (r_Match r)). alternative_matches (r_Match r) ap sp dp pkt"
    then obtain ap sp dp where a: "ap \<in> set (addressPairs (r_Match r))" "sp \<in> set (source_ports (r_Match r))"
      "dp \<in> set (dest_ports (r_Match r))" "alternative_matches (r_Match r) ap sp dp pkt" by blast
    then obtain e0 where e0: "pair_entry (baseEntry i r) ap = Some e0" using none by (cases "pair_entry (baseEntry i r) ap") auto
    then have "port_entry (r_Match r) e0 sp dp \<in> set (expandRule i r)" using a False by (auto simp: set_expandRule)
    moreover have "entryMatchesExceptPath (port_entry (r_Match r) e0 sp dp) pkt" using alt [OF e0] a(4) by simp
    ultimately show "\<exists>e\<in>set (expandRule i r). entryMatchesExceptPath e pkt" by blast
  qed
qed

lemma walk_expandRule:
  assumes "wf_match (r_Match r)" "wf_packet pkt" "n < 2 ^ 16"
  shows "EvaluateEntries (expandRule (of_nat n) r @ es) pkt =
     (case decide_rule (n, r) pkt of None \<Rightarrow> EvaluateEntries es pkt | Some v \<Rightarrow> v)"
proof -
  let ?d = "\<lambda>b. decide_clause b (m_Path (r_Match r)) (r_Allow r) (int n) pkt"
  have n: "unat (of_nat n :: u16) = n" using assms(3) by (simp add: unat_of_nat)
  have dec: "decide_entry e pkt = ?d (entryMatchesExceptPath e pkt)" if "e \<in> set (expandRule (of_nat n) r)" for e
    using entry_decides [OF that] n by simp
  have rule: "decide_rule (n, r) pkt = ?d (matchesExceptPath (r_Match r) pkt)" by (simp add: decide_rule_def)
  have False_None: "?d False = None" by (simp add: decide_clause_def)
  note ex = expandRule_matches [OF assms(1,2), of "of_nat n"]
  show ?thesis
  proof (cases "decide_rule (n, r) pkt")
    case None
    then have "decide_entry e pkt = None" if "e \<in> set (expandRule (of_nat n) r)" for e
      using dec [OF that] ex rule that False_None by (cases "entryMatchesExceptPath e pkt") auto
    with None show ?thesis by (simp add: entries.walk_append_pass)
  next
    case (Some v)
    then have m: "matchesExceptPath (r_Match r) pkt" and v: "?d True = Some v"
      using rule False_None by (cases "matchesExceptPath (r_Match r) pkt"; simp)+
    then obtain e where "e \<in> set (expandRule (of_nat n) r)" "entryMatchesExceptPath e pkt" using ex by blast
    then have "EvaluateEntries (expandRule (of_nat n) r @ es) pkt = v"
      using dec v False_None by (intro entries.walk_append_decide [of e]) (auto, metis (full_types))
    with Some show ?thesis by simp
  qed
qed

lemma walk_compiled:
  assumes "list_all (\<lambda>r. wf_match (r_Match r)) rs" "wf_packet pkt" "k + length rs \<le> 2 ^ 16"
  shows "EvaluateEntries (concat (map (\<lambda>(i, r). expandRule (of_nat i) r) (enumerate k rs))) pkt
           = evaluate_rules (enumerate k rs) pkt"
  using assms
proof (induction rs arbitrary: k)
  case (Cons r rs)
  have "EvaluateEntries (concat (map (\<lambda>(i, r). expandRule (of_nat i) r) (enumerate (Suc k) rs))) pkt
      = evaluate_rules (enumerate (Suc k) rs) pkt" using Cons.IH [of "Suc k"] Cons.prems by simp
  moreover have "EvaluateEntries (expandRule (of_nat k) r @ es) pkt =
      (case decide_rule (k, r) pkt of None \<Rightarrow> EvaluateEntries es pkt | Some v \<Rightarrow> v)" for es
    using walk_expandRule [of r pkt k es] Cons.prems by simp
  ultimately show ?case by (simp add: rules.walk_Cons del: evaluate_rules.simps(2) split: option.split)
qed simp

section \<open>Counting\<close>

lemma length_expandRule_pairs:
  assumes "\<not> (snd (ruleFamily (r_Match r)) \<and> fst (ruleFamily (r_Match r)) = 0)"
  shows "length (expandRule i r) = length (filter (\<lambda>ap. pair_entry (baseEntry i r) ap \<noteq> None) (addressPairs (r_Match r)))
     * length (source_ports (r_Match r)) * length (dest_ports (r_Match r))"
proof -
  have "length (concat (map (\<lambda>ap. case pair_entry (baseEntry i r) ap of None \<Rightarrow> []
           | Some e \<Rightarrow> concat (map (\<lambda>sp. map (\<lambda>dp. port_entry (r_Match r) e sp dp) dps) sps)) aps))
      = length (filter (\<lambda>ap. pair_entry (baseEntry i r) ap \<noteq> None) aps) * length sps * length dps" for aps sps dps
    by (induction aps) (auto simp: length_concat comp_def sum_list_triv add_mult_distrib split: option.splits)
  then show ?thesis using assms by (auto simp: expandRule_def Let_def source_ports_def dest_ports_def)
qed

text \<open>Whether the family a rule fixes admits an address of the given kind.\<close>

definition admits :: "Match \<Rightarrow> bool \<Rightarrow> bool" where
  "admits m is4 \<longleftrightarrow> base_family m = None \<or> base_family m = Some (if is4 then FamilyIPv4 else FamilyIPv6)"

lemma pair_entry_kept:
  "pair_entry (baseEntry i r) ap \<noteq> None \<longleftrightarrow>
     (if IsValid (fst ap) then admits (r_Match r) (Is4 (p_addr (fst ap)))
      else if IsValid (snd ap) then admits (r_Match r) (Is4 (p_addr (snd ap))) else True)"
  using baseEntry_fields(13) [of r _ i]
  by (cases "base_family (r_Match r)")
     (auto simp: pair_entry_def Let_def and_flags baseEntry_fields(3) pairFamily_def admits_def familyOf_def split: if_splits)

lemma sum_list_two_values:
  "sum_list (map (\<lambda>x. if P x then a else b) xs) = length (filter P xs) * a + length (filter (\<lambda>x. \<not> P x) xs) * (b :: nat)"
  by (induction xs) auto

lemma length_filter_pairs:
  "length (filter K (concat (map (\<lambda>s. concat (map (\<lambda>d. if C s d then [] else [(s, d)]) ds)) ss))) =
   sum_list (map (\<lambda>s. length (filter (\<lambda>d. \<not> C s d \<and> K (s, d)) ds)) ss)"
proof -
  have inner: "length (filter K (concat (map (\<lambda>d. if C s d then [] else [(s, d)]) ds))) =
      length (filter (\<lambda>d. \<not> C s d \<and> K (s, d)) ds)" for s
    by (induction ds) auto
  show ?thesis by (induction ss) (auto simp: inner)
qed

definition kept_pairs :: "Match \<Rightarrow> nat" where
  "kept_pairs m =
     (let (s4, s6) = count_families (m_Source m); (d4, d6) = count_families (m_Destination m);
          on = (\<lambda>is4 n. if admits m is4 then n else 0)
      in if m_Source m \<noteq> [] \<and> m_Destination m \<noteq> [] then s4 * on True d4 + s6 * on False d6
         else if m_Source m \<noteq> [] then on True s4 + on False s6
         else if m_Destination m \<noteq> [] then on True d4 + on False d6
         else 1)"

lemma length_kept_pairs:
  assumes "wf_match (r_Match r)"
  shows "length (filter (\<lambda>ap. pair_entry (baseEntry i r) ap \<noteq> None) (addressPairs (r_Match r))) = kept_pairs (r_Match r)"
proof -
  let ?m = "r_Match r" and ?on = "\<lambda>is4 (n::nat). if admits (r_Match r) is4 then n else 0"
  have valid: "\<And>p. p \<in> set (m_Source ?m) \<Longrightarrow> IsValid p" "\<And>p. p \<in> set (m_Destination ?m) \<Longrightarrow> IsValid p"
    using assms by (auto simp: wf_match_def list_all_iff wf_prefix_valid)
  have one_side: "length (filter (\<lambda>p. admits ?m (Is4 (p_addr p))) ps) =
      ?on True (length (filter (\<lambda>p. Is4 (p_addr p)) ps)) + ?on False (length (filter (\<lambda>p. \<not> Is4 (p_addr p)) ps))" for ps
    by (induction ps) auto
  show ?thesis
  proof (cases "m_Source ?m = [] \<or> m_Destination ?m = []")
    case False
    have "length (filter (\<lambda>d. \<not> (IsValid s \<and> IsValid d \<and> Is4 (p_addr s) \<noteq> Is4 (p_addr d)) \<and>
          pair_entry (baseEntry i r) (s, d) \<noteq> None) (m_Destination ?m)) =
        (if Is4 (p_addr s) then ?on True (length (filter (\<lambda>p. Is4 (p_addr p)) (m_Destination ?m)))
         else ?on False (length (filter (\<lambda>p. \<not> Is4 (p_addr p)) (m_Destination ?m))))"
      if "s \<in> set (m_Source ?m)" for s
      using valid(1) [OF that] valid(2)
      by (auto simp: pair_entry_kept simp del: not_None_eq intro!: arg_cong [of _ _ length] filter_cong)
    then have "sum_list (map (\<lambda>s. length (filter (\<lambda>d. \<not> (IsValid s \<and> IsValid d \<and> Is4 (p_addr s) \<noteq> Is4 (p_addr d)) \<and>
          pair_entry (baseEntry i r) (s, d) \<noteq> None) (m_Destination ?m))) (m_Source ?m)) =
        sum_list (map (\<lambda>s. if Is4 (p_addr s) then ?on True (length (filter (\<lambda>p. Is4 (p_addr p)) (m_Destination ?m)))
         else ?on False (length (filter (\<lambda>p. \<not> Is4 (p_addr p)) (m_Destination ?m)))) (m_Source ?m))"
      by (intro arg_cong [of _ _ sum_list] map_cong refl)
    then show ?thesis
      using False by (simp only: addressPairs_def Let_def if_False length_filter_pairs kept_pairs_def
        count_families_def split sum_list_two_values if_True) simp
  next
    case True
    have src: "filter (\<lambda>s. pair_entry (baseEntry i r) (s, PrefixZero) \<noteq> None) (m_Source ?m) =
        filter (\<lambda>p. admits ?m (Is4 (p_addr p))) (m_Source ?m)"
      using valid(1) by (auto simp: pair_entry_kept simp del: not_None_eq intro!: filter_cong)
    have dst: "filter (\<lambda>d. pair_entry (baseEntry i r) (PrefixZero, d) \<noteq> None) (m_Destination ?m) =
        filter (\<lambda>p. admits ?m (Is4 (p_addr p))) (m_Destination ?m)"
      using valid(2) by (auto simp: pair_entry_kept simp del: not_None_eq intro!: filter_cong)
    have both: "pair_entry (baseEntry i r) (PrefixZero, PrefixZero) \<noteq> None" by (simp add: pair_entry_kept del: not_None_eq)
    show ?thesis
      using True both
      by (auto simp: addressPairs_def Let_def kept_pairs_def count_families_def filter_map comp_def src dst one_side
          simp del: not_None_eq)
  qed
qed

lemma kept_pairs_count:
  assumes "wf_match m" "\<not> (snd (ruleFamily m) \<and> fst (ruleFamily m) = 0)"
  shows "ruleEntryCount m = kept_pairs m * length (source_ports m) * length (dest_ports m)"
proof -
  obtain f h where rf: "ruleFamily m = (f, h)" by (cases "ruleFamily m")
  have fam: "h \<longrightarrow> f = FamilyIPv4 \<or> f = FamilyIPv6"
    and adm: "admits m is4 \<longleftrightarrow> \<not> h \<or> f = (if is4 then FamilyIPv4 else FamilyIPv6)" for is4
    using assms rf by (auto simp: ruleFamily_def admits_def base_family_def wf_match_def protoFamily_def
        split: prod.splits option.splits if_splits)
  have ports: "length (source_ports m) = max 1 (length (m_SourcePorts m))"
    "length (dest_ports m) = max 1 (length (m_DestPorts m))"
    by (cases "m_SourcePorts m"; cases "m_DestPorts m"; simp add: source_ports_def dest_ports_def)+
  obtain s4 s6 d4 d6 where cf: "count_families (m_Source m) = (s4, s6)" "count_families (m_Destination m) = (d4, d6)"
    by (cases "count_families (m_Source m)", cases "count_families (m_Destination m)") auto
  note defs = ruleEntryCount_def kept_pairs_def Let_def rf ports adm cf split
  consider "\<not> h" | "h" "f = FamilyIPv4" | "h" "f = FamilyIPv6" using fam by blast
  then show ?thesis
    by cases (simp_all add: defs)
qed

lemma length_expandRule:
  assumes "wf_match (r_Match r)"
  shows "length (expandRule i r) = ruleEntryCount (r_Match r)"
proof (cases "snd (ruleFamily (r_Match r)) \<and> fst (ruleFamily (r_Match r)) = 0")
  case True
  then show ?thesis by (auto simp: expandRule_def ruleEntryCount_def split: prod.split)
next
  case False
  then show ?thesis
    using length_expandRule_pairs [OF False] length_kept_pairs [OF assms] kept_pairs_count [OF assms False] by simp
qed

lemma EntryCount_sum: "EntryCount p = sum_list (map (\<lambda>r. ruleEntryCount (r_Match r)) (p_Rules p))"
proof -
  have "fold (\<lambda>r n. n + ruleEntryCount (r_Match r)) rs k = k + sum_list (map (\<lambda>r. ruleEntryCount (r_Match r)) rs)" for rs :: "Rule list" and k
    by (induction rs arbitrary: k) simp_all
  then show ?thesis by (simp add: EntryCount_def)
qed

lemma length_compiled:
  assumes "list_all (\<lambda>r. wf_match (r_Match r)) rs"
  shows "length (concat (map (\<lambda>(i, r). expandRule (of_nat i) r) (enumerate k rs)))
           = sum_list (map (\<lambda>r. ruleEntryCount (r_Match r)) rs)"
  using assms by (induction rs arbitrary: k) (simp_all add: length_expandRule)

section \<open>Reachability\<close>

text \<open>A packet that one combination of a rule's alternatives matches.\<close>

definition alternative_packet :: "Match \<Rightarrow> addressPair \<Rightarrow> PortRange \<Rightarrow> PortRange \<Rightarrow> Packet" where
  "alternative_packet m ap sp dp =
     (let src = (if IsValid (fst ap) then p_addr (fst ap) else if IsValid (snd ap) then p_addr (snd ap)
                 else if base_family m = Some FamilyIPv4 then Addr4 0 else Addr6 0 [])
      in \<lparr>k_Path = PathPrivate, k_Src = src, k_Dst = (if IsValid (snd ap) then p_addr (snd ap) else src),
          k_Proto = (case m_Proto m of None \<Rightarrow> 0 | Some q \<Rightarrow> q), k_SrcPort = pr_Start sp, k_DstPort = pr_Start dp,
          k_ICMPType = (case m_ICMP m of None \<Rightarrow> 0 | Some ic \<Rightarrow> ic_Type ic),
          k_ICMPCode = (case m_ICMP m of None \<Rightarrow> 0 | Some ic \<Rightarrow> ic_Code ic)\<rparr>)"

lemma base_family_IPv46: "wf_match m \<Longrightarrow> base_family m = Some f \<Longrightarrow> f = FamilyIPv4 \<or> f = FamilyIPv6"
  by (auto simp: wf_match_def base_family_def protoFamily_def split: option.splits if_splits)

lemma addressPairs_wf:
  assumes "wf_match m" "(s, d) \<in> set (addressPairs m)"
  shows "IsValid s \<Longrightarrow> wf_prefix s" "IsValid d \<Longrightarrow> wf_prefix d"
  using assms by (auto simp: set_addressPairs wf_match_def list_all_iff split: if_splits)

lemma expandRule_reachable:
  assumes wf: "wf_match (r_Match r)" and "expandRule i r \<noteq> []"
  shows "\<exists>pkt. wf_packet pkt \<and> matchesExceptPath (r_Match r) pkt"
proof -
  let ?m = "r_Match r"
  obtain e where "e \<in> set (expandRule i r)" using assms(2) by (cases "expandRule i r") auto
  then obtain s d sp dp e0 where nc: "\<not> (snd (ruleFamily ?m) \<and> fst (ruleFamily ?m) = 0)"
    and sd: "(s, d) \<in> set (addressPairs ?m)" and sp: "sp \<in> set (source_ports ?m)" and dp: "dp \<in> set (dest_ports ?m)"
    and kept: "pair_entry (baseEntry i r) (s, d) \<noteq> None" by (auto simp: set_expandRule)
  let ?k = "alternative_packet ?m (s, d) sp dp"
  have fam: "base_family ?m = None \<or> base_family ?m = Some (pkt_Family ?k)"
  proof (cases "IsValid s \<or> IsValid d")
    case True
    then show ?thesis using kept unfolding pair_entry_kept
      by (auto simp: alternative_packet_def pkt_Family_def familyOf_def admits_def Let_def split: if_splits)
  next
    case False
    then show ?thesis using base_family_IPv46 [OF wf]
      by (cases "base_family ?m") (auto simp: alternative_packet_def pkt_Family_def familyOf_def Is4_def Let_def)
  qed
  have pkt: "wf_packet ?k"
    using sd by (auto simp: set_addressPairs alternative_packet_def wf_packet_def familyOf_def Let_def)
  have ports: "m_SourcePorts ?m \<noteq> [] \<longrightarrow> pr_Contains sp (k_SrcPort ?k)" "m_DestPorts ?m \<noteq> [] \<longrightarrow> pr_Contains dp (k_DstPort ?k)"
    using wf sp dp by (auto simp: alternative_packet_def Let_def wf_match_def list_all_iff source_ports_def dest_ports_def pr_Contains_def)
  have addrs: "IsValid s \<longrightarrow> Contains s (k_Src ?k)" "IsValid d \<longrightarrow> Contains d (k_Dst ?k)"
    using addressPairs_wf [OF wf sd] by (auto simp: alternative_packet_def Let_def wf_prefix_contains_self)
  have "fixed_matches ?m ?k"
    unfolding fixed_matches_def using base_family_match [OF nc] fam
    by (auto simp: alternative_packet_def Let_def split: option.splits)
  then have "alternative_matches ?m (s, d) sp dp ?k"
    using addrs ports by (simp add: alternative_matches_def)
  then show ?thesis using matches_alternative [OF wf pkt] sd sp dp pkt by blast
qed

lemma ruleEntryCount_zero_iff:
  fixes r :: Rule
  assumes "wf_match (r_Match r)"
  shows "ruleEntryCount (r_Match r) = 0 \<longleftrightarrow> (\<forall>pkt. wf_packet pkt \<longrightarrow> \<not> matchesExceptPath (r_Match r) pkt)"
proof -
  have "ruleEntryCount (r_Match r) = 0 \<longleftrightarrow> expandRule 0 r = []" using length_expandRule [OF assms, of 0] by (metis length_0_conv)
  moreover have "expandRule 0 r = [] \<longleftrightarrow> (\<forall>pkt. wf_packet pkt \<longrightarrow> \<not> matchesExceptPath (r_Match r) pkt)"
    using expandRule_reachable [OF assms, of 0] expandRule_matches [OF assms, of _ 0] by auto
  ultimately show ?thesis by blast
qed

lemma set_Unreachable: "i \<in> set (Unreachable p) \<longleftrightarrow> i < length (p_Rules p) \<and> ruleEntryCount (r_Match (p_Rules p ! i)) = 0"
  by (auto simp: Unreachable_def in_set_enumerate_eq image_iff)

section \<open>Shadowing\<close>

lemma decide_rule_MatchZero: "r_Match r = MatchZero \<Longrightarrow> decide_rule (j, r) pkt \<noteq> None"
  by (simp add: decide_rule_def decide_clause_def matchesExceptPath_def MatchZero_def Let_def)

lemma decide_rule_same_match: "r_Match r = r_Match r' \<Longrightarrow> decide_rule (j, r) pkt = None \<longleftrightarrow> decide_rule (i, r') pkt = None"
  by (simp add: decide_rule_def decide_clause_def)

lemma decide_rule_index: "decide_rule (i, r) pkt = Some v \<Longrightarrow> v_Rule v = int i \<or> v_Rule v = - 1"
  by (auto simp: decide_rule_def decide_clause_def split: if_splits)

lemma set_Shadowed:
  "(i, j) \<in> set (Shadowed p) \<Longrightarrow> i < length (p_Rules p) \<and> j < i \<and>
     (r_Match (p_Rules p ! j) = MatchZero \<or> r_Match (p_Rules p ! j) = r_Match (p_Rules p ! i))"
  by (auto simp: Shadowed_def shadowing_def find_Some_iff2 split: option.splits)

lemma Evaluate_rule_split:
  assumes "0 \<le> v_Rule (Evaluate p pkt)"
  obtains i where "v_Rule (Evaluate p pkt) = int i" "i < length (p_Rules p)"
    "decide_rule (i, p_Rules p ! i) pkt = Some (Evaluate p pkt)"
    "\<And>j. j < i \<Longrightarrow> decide_rule (j, p_Rules p ! j) pkt = None"
proof (rule rules.walk_cases [of "enumerate 0 (p_Rules p)" pkt])
  assume "evaluate_rules (enumerate 0 (p_Rules p)) pkt = \<lparr>v_Allow = False, v_Rule = - 1, v_Reason = ReasonNoMatch\<rparr>"
  then show thesis using assms by (simp add: Evaluate_def)
next
  fix pre e post
  assume es: "enumerate 0 (p_Rules p) = pre @ e # post" and pre: "\<forall>e\<in>set pre. decide_rule e pkt = None"
    and e: "decide_rule e pkt = Some (evaluate_rules (enumerate 0 (p_Rules p)) pkt)"
  have len: "length pre < length (p_Rules p)" using arg_cong [OF es, of length] by simp
  then have ith: "e = (length pre, p_Rules p ! length pre)"
    using arg_cong [OF es, of "\<lambda>l. l ! length pre"] by (simp add: nth_enumerate_eq)
  have jth: "(j, p_Rules p ! j) \<in> set pre" if "j < length pre" for j
    using arg_cong [OF es, of "\<lambda>l. l ! j"] that len by (metis add_0 length_enumerate less_trans nth_append nth_enumerate_eq nth_mem)
  have "v_Rule (Evaluate p pkt) = int (length pre)"
    using decide_rule_index [OF e [unfolded ith]] assms unfolding Evaluate_def by linarith
  then show thesis using that [of "length pre"] len e ith pre jth by (auto simp: Evaluate_def)
qed

section \<open>Properties\<close>

text \<open>
  C3. The compiler is correct: on every packet, the first-match walk over the compiled entries gives
  the verdict (decision, rule and reason) the policy's evaluator gives, and the policy compiles to
  exactly the number of entries that was counted before expanding.
\<close>

theorem compile_preserves_verdicts:
  assumes "wf_policy p" "Compile p = Inr es"
  shows "length es = EntryCount p \<and> length es \<le> MaxCompiledEntries \<and>
    (\<forall>pkt. wf_packet pkt \<longrightarrow> EvaluateEntries es pkt = Evaluate p pkt)"
proof -
  have es: "es = concat (map (\<lambda>(i, r). expandRule (of_nat i) r) (enumerate 0 (p_Rules p)))"
    and len: "length (p_Rules p) \<le> 64" and cnt: "EntryCount p \<le> MaxCompiledEntries"
    using assms(2) by (auto simp: Compile_def MaxRules_def split: if_splits)
  have wf: "list_all (\<lambda>r. wf_match (r_Match r)) (p_Rules p)" using assms(1) by (simp add: wf_policy_def)
  show ?thesis
    using walk_compiled [OF wf, of _ 0] len length_compiled [OF wf] cnt by (simp add: es Evaluate_def EntryCount_sum)
qed

text \<open>
  C5. A packet whose forwarding path could not be classified is allowed only by a verdict that holds
  on every path: the same rule then decides the packet whatever its path is.
\<close>

theorem unknown_path_never_broadens:
  assumes "v_Allow (Evaluate p (pkt\<lparr>k_Path := PathUnknown\<rparr>))"
  shows "Evaluate p (pkt\<lparr>k_Path := q\<rparr>) = Evaluate p (pkt\<lparr>k_Path := PathUnknown\<rparr>)"
proof -
  have same: "matchesExceptPath m (pkt\<lparr>k_Path := q\<rparr>) = matchesExceptPath m (pkt\<lparr>k_Path := q'\<rparr>)" for m q q'
    by (simp add: matchesExceptPath_iff fixed_matches_def pkt_Family_def)
  have "evaluate_rules rs (pkt\<lparr>k_Path := q\<rparr>) = evaluate_rules rs (pkt\<lparr>k_Path := PathUnknown\<rparr>)"
    if "v_Allow (evaluate_rules rs (pkt\<lparr>k_Path := PathUnknown\<rparr>))" for rs
    using that
  proof (induction rs)
    case (Cons ir rs)
    obtain i r where "ir = (i, r)" by (cases ir)
    with Cons show ?case using same [of "r_Match r" q PathUnknown] by (simp split: if_splits)
  qed simp
  then show ?thesis using assms by (simp add: Evaluate_def)
qed

text \<open>
  C25. \<open>Unreachable\<close> reports exactly the rules that no packet can satisfy.
\<close>

theorem unreachable_exact:
  assumes "wf_policy p"
  shows "set (Unreachable p) =
    {i. i < length (p_Rules p) \<and> (\<forall>pkt. wf_packet pkt \<longrightarrow> \<not> matchesExceptPath (r_Match (p_Rules p ! i)) pkt)}"
proof -
  have "wf_match (r_Match (p_Rules p ! i))" if "i < length (p_Rules p)" for i
    using assms that by (simp add: wf_policy_def list_all_length)
  then show ?thesis using ruleEntryCount_zero_iff set_Unreachable by blast
qed

text \<open>
  C35. A rule \<open>Shadowed\<close> reports never decides a packet, because the earlier rule named with it decides
  every packet it would.
\<close>

theorem shadowed_never_decides:
  assumes "(i, j) \<in> set (Shadowed p)"
  shows "j < i \<and> i < length (p_Rules p) \<and> (\<forall>pkt. v_Rule (Evaluate p pkt) \<noteq> int i)"
proof -
  note ij = set_Shadowed [OF assms]
  have "v_Rule (Evaluate p pkt) \<noteq> int i" for pkt
  proof
    assume v: "v_Rule (Evaluate p pkt) = int i"
    then obtain k where k: "v_Rule (Evaluate p pkt) = int k" "decide_rule (k, p_Rules p ! k) pkt = Some (Evaluate p pkt)"
      "\<And>j. j < k \<Longrightarrow> decide_rule (j, p_Rules p ! j) pkt = None" using Evaluate_rule_split [of p pkt] by auto
    with v have "k = i" by simp
    with k ij show False using decide_rule_MatchZero decide_rule_same_match [of "p_Rules p ! j" "p_Rules p ! i"] by (metis option.distinct(1))
  qed
  with ij show ?thesis by blast
qed

text \<open>A policy the properties are exercised on: web traffic from two networks, a rule no packet can
  satisfy, neighbour discovery, and a rule the first one shadows.\<close>

definition example_web :: Match where
  "example_web = MatchZero\<lparr>m_Path := Some PathPublicService, m_Proto := Some ProtoTCP,
     m_Source := [PrefixFrom (Addr4 0x0A000000) 8, PrefixFrom (Addr6 0x20010db8000000000000000000000000 []) 32],
     m_DestPorts := [\<lparr>pr_Start = 80, pr_End = 80\<rparr>, \<lparr>pr_Start = 443, pr_End = 444\<rparr>]\<rparr>"

definition example_policy :: Policy where
  "example_policy = \<lparr>p_Rules =
     [\<lparr>r_Name = ''web'', r_Allow = True, r_Match = example_web\<rparr>,
      \<lparr>r_Name = ''mixed'', r_Allow = True, r_Match = MatchZero\<lparr>m_Source := [PrefixFrom (Addr4 0x0A000000) 8],
         m_Destination := [PrefixFrom (Addr6 1 []) 128]\<rparr>\<rparr>,
      \<lparr>r_Name = ''nd'', r_Allow = True, r_Match = MatchZero\<lparr>m_Proto := Some ProtoICMPv6\<rparr>\<rparr>,
      \<lparr>r_Name = ''web-again'', r_Allow = False, r_Match = example_web\<rparr>]\<rparr>"

definition example_packet :: Packet where
  "example_packet = \<lparr>k_Path = PathUnknown, k_Src = Addr6 2 [], k_Dst = Addr6 1 [], k_Proto = ProtoICMPv6,
     k_SrcPort = 0, k_DstPort = 0, k_ICMPType = 135, k_ICMPCode = 0\<rparr>"

lemma example_policy_wf: "wf_policy example_policy"
  by code_simp

theorem compile_preserves_verdicts_witness:
  "wf_policy example_policy \<and> (\<exists>es. Compile example_policy = Inr es \<and>
     length es = EntryCount example_policy \<and> length es \<le> MaxCompiledEntries \<and>
     (\<forall>pkt. wf_packet pkt \<longrightarrow> EvaluateEntries es pkt = Evaluate example_policy pkt))"
proof -
  have "case Compile example_policy of Inl _ \<Rightarrow> False | Inr es \<Rightarrow> length es = 9" by code_simp
  then obtain es where "Compile example_policy = Inr es" by (cases "Compile example_policy") auto
  then show ?thesis using compile_preserves_verdicts [OF example_policy_wf, of es] example_policy_wf by blast
qed

theorem unknown_path_never_broadens_witness:
  "v_Allow (Evaluate example_policy (example_packet\<lparr>k_Path := PathUnknown\<rparr>)) \<and>
   Evaluate example_policy (example_packet\<lparr>k_Path := PathPrivate\<rparr>)
     = Evaluate example_policy (example_packet\<lparr>k_Path := PathUnknown\<rparr>)"
proof -
  have "v_Allow (Evaluate example_policy (example_packet\<lparr>k_Path := PathUnknown\<rparr>))" by code_simp
  then show ?thesis using unknown_path_never_broadens [of example_policy example_packet PathPrivate] by blast
qed

theorem unreachable_exact_witness:
  "wf_policy example_policy \<and> Unreachable example_policy = [1] \<and>
   set (Unreachable example_policy) = {i. i < length (p_Rules example_policy) \<and>
     (\<forall>pkt. wf_packet pkt \<longrightarrow> \<not> matchesExceptPath (r_Match (p_Rules example_policy ! i)) pkt)}"
proof -
  have "Unreachable example_policy = [1]" by code_simp
  then show ?thesis using unreachable_exact [OF example_policy_wf] example_policy_wf by blast
qed

theorem shadowed_never_decides_witness:
  "(3, 0) \<in> set (Shadowed example_policy) \<and> 0 < (3::nat) \<and> 3 < length (p_Rules example_policy) \<and>
     (\<forall>pkt. v_Rule (Evaluate example_policy pkt) \<noteq> int 3)"
proof -
  have "(3, 0) \<in> set (Shadowed example_policy)" by code_simp
  then show ?thesis using shadowed_never_decides [of 3 0 example_policy] by blast
qed

end
