(* ===== verification/TrafficPolicyAPI.thy ===== *)
theory TrafficPolicyAPI
  imports TrafficPolicy Netip_Parse
begin

unbundle bit_operations_syntax

text \<open>
  \<open>FromAPI\<close> of \<open>internal/trafficpolicy/policy.go\<close>: the validation of a \<open>TrafficPolicySpec\<close> and its
  translation to the model of \<open>TrafficPolicy\<close>. An omitted field is \<open>None\<close>, which is different from an
  explicit empty list. Of a \<open>field.Error\<close> the model keeps the type and the field it is rooted at, not
  the message. The theory shows that an accepted policy means what the API type documents (every
  field present must match, entries of a list are alternatives) and always compiles.
\<close>

section \<open>The API types (api/v1alpha1/trafficpolicy\_types.go)\<close>

definition MaxAddresses :: nat where "MaxAddresses = 64"
definition MaxPortRanges :: nat where "MaxPortRanges = 16"

record api_PortRange =
  ap_Start :: int
  ap_End :: int

record ICMPMatch =
  ai_Type :: int
  ai_Code :: "int option"

record TrafficRuleMatch =
  a_Path :: "string option"
  a_IPFamily :: "string option"
  a_Protocol :: "string option"
  a_SourceIPs :: "string list option"
  a_DestinationIPs :: "string list option"
  a_SourceCIDRs :: "string list option"
  a_DestinationCIDRs :: "string list option"
  a_SourcePorts :: "api_PortRange list option"
  a_DestinationPorts :: "api_PortRange list option"
  a_ICMP :: "ICMPMatch option"

record TrafficRule =
  a_Name :: string
  a_Action :: string
  a_Match :: "TrafficRuleMatch option"

text \<open>\<open>field.Path\<close> and \<open>field.Error\<close>.\<close>

datatype path_element = Child string | Index nat
type_synonym field_path = "path_element list"

datatype error_type = Required | TooMany | Invalid | Duplicate | NotSupported | Forbidden

record field_error =
  fe_Type :: error_type
  fe_Field :: field_path

definition error_at :: "error_type \<Rightarrow> field_path \<Rightarrow> field_error" where
  "error_at t path = \<lparr>fe_Type = t, fe_Field = path\<rparr>"

section \<open>Validation (policy.go)\<close>

definition pathFromAPI :: "string \<Rightarrow> Path option" where
  "pathFromAPI p = (if p = ''Private'' then Some PathPrivate
     else if p = ''PublicNAT'' then Some PathPublicNAT
     else if p = ''PublicService'' then Some PathPublicService else None)"

definition listBounds :: "nat \<Rightarrow> bool \<Rightarrow> field_path \<Rightarrow> nat \<Rightarrow> field_error list" where
  "listBounds n isNil path maxItems =
     (if isNil then [] else if n = 0 then [error_at Invalid path]
      else if n > maxItems then [error_at TooMany path] else [])"

definition checkFamily :: "Family \<Rightarrow> Family option \<Rightarrow> field_path \<Rightarrow> field_error option" where
  "checkFamily f want path = (if want \<noteq> None \<and> f \<noteq> the want then Some (error_at Invalid path) else None)"

text \<open>The loops carry the values seen so far, the results and the errors; a \<open>continue\<close> drops the
  entry after adding its error.\<close>

fun addresses_loop :: "field_path \<Rightarrow> Family option \<Rightarrow> nat \<Rightarrow> addr list \<Rightarrow> prefix list \<Rightarrow> field_error list \<Rightarrow>
    string list \<Rightarrow> prefix list \<times> field_error list" where
  "addresses_loop path want i seen out errs [] = (out, errs)"
| "addresses_loop path want i seen out errs (s # rest) =
     (let ip = path @ [Index i]
      in case ParseAddr s of
           None \<Rightarrow> addresses_loop path want (i + 1) seen out (errs @ [error_at Invalid ip]) rest
         | Some a \<Rightarrow>
             (if Zone a \<noteq> [] then addresses_loop path want (i + 1) seen out (errs @ [error_at Invalid ip]) rest
              else if Is4In6 a then addresses_loop path want (i + 1) seen out (errs @ [error_at Invalid ip]) rest
              else if a \<in> set seen then addresses_loop path want (i + 1) seen out (errs @ [error_at Duplicate ip]) rest
              else (case checkFamily (familyOf a) want ip of
                      Some e \<Rightarrow> addresses_loop path want (i + 1) (a # seen) out (errs @ [e]) rest
                    | None \<Rightarrow> addresses_loop path want (i + 1) (a # seen)
                                (out @ [PrefixFrom a (int (BitLen a))]) errs rest)))"

definition addresses :: "string list option \<Rightarrow> field_path \<Rightarrow> Family option \<Rightarrow> prefix list \<times> field_error list" where
  "addresses inp path want =
     (case inp of None \<Rightarrow> ([], [])
      | Some xs \<Rightarrow>
          (let errs = listBounds (length xs) False path MaxAddresses
           in if errs \<noteq> [] then ([], errs) else addresses_loop path want 0 [] [] errs xs))"

fun prefixes_loop :: "field_path \<Rightarrow> Family option \<Rightarrow> nat \<Rightarrow> prefix list \<Rightarrow> prefix list \<Rightarrow> field_error list \<Rightarrow>
    string list \<Rightarrow> prefix list \<times> field_error list" where
  "prefixes_loop path want i seen out errs [] = (out, errs)"
| "prefixes_loop path want i seen out errs (s # rest) =
     (let ip = path @ [Index i]
      in case ParsePrefix s of
           None \<Rightarrow> prefixes_loop path want (i + 1) seen out (errs @ [error_at Invalid ip]) rest
         | Some p \<Rightarrow>
             (if Is4In6 (p_addr p) then prefixes_loop path want (i + 1) seen out (errs @ [error_at Invalid ip]) rest
              else if Masked p \<noteq> p then prefixes_loop path want (i + 1) seen out (errs @ [error_at Invalid ip]) rest
              else if p \<in> set seen then prefixes_loop path want (i + 1) seen out (errs @ [error_at Duplicate ip]) rest
              else (case checkFamily (familyOf (p_addr p)) want ip of
                      Some e \<Rightarrow> prefixes_loop path want (i + 1) (p # seen) out (errs @ [e]) rest
                    | None \<Rightarrow> prefixes_loop path want (i + 1) (p # seen) (out @ [p]) errs rest)))"

definition prefixes :: "string list option \<Rightarrow> field_path \<Rightarrow> Family option \<Rightarrow> prefix list \<times> field_error list" where
  "prefixes inp path want =
     (case inp of None \<Rightarrow> ([], [])
      | Some xs \<Rightarrow>
          (let errs = listBounds (length xs) False path MaxAddresses
           in if errs \<noteq> [] then ([], errs) else prefixes_loop path want 0 [] [] errs xs))"

fun portRanges_loop :: "field_path \<Rightarrow> nat \<Rightarrow> PortRange list \<Rightarrow> field_error list \<Rightarrow>
    api_PortRange list \<Rightarrow> PortRange list \<times> field_error list" where
  "portRanges_loop path i out errs [] = (out, errs)"
| "portRanges_loop path i out errs (r # rest) =
     (let rp = path @ [Index i]
      in if ap_Start r < 0 \<or> ap_Start r > 65535 \<or> ap_End r < 0 \<or> ap_End r > 65535
         then portRanges_loop path (i + 1) out (errs @ [error_at Invalid rp]) rest
         else if ap_Start r > ap_End r
         then portRanges_loop path (i + 1) out (errs @ [error_at Invalid rp]) rest
         else
          (let pr = \<lparr>pr_Start = word_of_int (ap_Start r), pr_End = word_of_int (ap_End r)\<rparr>;
               overlaps = filter (\<lambda>q. pr_Start pr \<le> pr_End q \<and> pr_Start q \<le> pr_End pr) out
           in portRanges_loop path (i + 1) (out @ [pr]) (errs @ map (\<lambda>_. error_at Invalid rp) overlaps) rest))"

definition portRanges :: "api_PortRange list option \<Rightarrow> field_path \<Rightarrow> PortRange list \<times> field_error list" where
  "portRanges inp path =
     (case inp of None \<Rightarrow> ([], [])
      | Some xs \<Rightarrow>
          (let errs = listBounds (length xs) False path MaxPortRanges
           in if errs \<noteq> [] then ([], errs) else portRanges_loop path 0 [] errs xs))"

definition icmpFromAPI :: "ICMPMatch \<Rightarrow> field_path \<Rightarrow> ICMP \<times> field_error list" where
  "icmpFromAPI inp path =
     (let errs = (if ai_Type inp < 0 \<or> ai_Type inp > 255 then [error_at Invalid (path @ [Child ''type''])] else []);
          out = \<lparr>ic_Type = word_of_int (ai_Type inp), ic_Code = 0, ic_HasCode = False\<rparr>
      in case ai_Code inp of None \<Rightarrow> (out, errs)
         | Some code \<Rightarrow>
             (out\<lparr>ic_Code := word_of_int code, ic_HasCode := True\<rparr>,
              errs @ (if code < 0 \<or> code > 255 then [error_at Invalid (path @ [Child ''code''])] else [])))"

text \<open>The parts of \<open>matchFromAPI\<close> that translate the family, the protocol, the two address lists of a
  side, the ports and the ICMP fields.\<close>

definition family_from_api :: "string option \<Rightarrow> field_path \<Rightarrow> Family option \<times> field_error list" where
  "family_from_api f path = (case f of None \<Rightarrow> (None, [])
     | Some s \<Rightarrow> (if s = ''IPv4'' then (Some FamilyIPv4, []) else if s = ''IPv6'' then (Some FamilyIPv6, [])
                 else (None, [error_at NotSupported (path @ [Child ''ipFamily''])])))"

definition proto_from_api :: "string option \<Rightarrow> field_path \<Rightarrow> u8 option \<times> Family option \<times> field_error list" where
  "proto_from_api q path = (case q of None \<Rightarrow> (None, None, [])
     | Some s \<Rightarrow> (if s = ''TCP'' then (Some ProtoTCP, None, [])
                 else if s = ''UDP'' then (Some ProtoUDP, None, [])
                 else if s = ''ICMP'' then (Some ProtoICMP, Some FamilyIPv4, [])
                 else if s = ''ICMPv6'' then (Some ProtoICMPv6, Some FamilyIPv6, [])
                 else (None, None, [error_at NotSupported (path @ [Child ''protocol''])])))"

definition side_from_api ::
  "string list option \<Rightarrow> field_path \<Rightarrow> string list option \<Rightarrow> field_path \<Rightarrow> Family option \<Rightarrow> prefix list \<times> field_error list" where
  "side_from_api ips ipsPath cidrs cidrsPath want =
     (let (out, e) = addresses ips ipsPath want
      in if cidrs \<noteq> None
         then (let (out', e') = prefixes cidrs cidrsPath want in (out', e @ e'))
         else (out, e))"

definition matchFromAPI :: "TrafficRuleMatch \<Rightarrow> field_path \<Rightarrow> Match \<times> field_error list" where
  "matchFromAPI inp path =
     (let (mpath, errs1) = (case a_Path inp of None \<Rightarrow> (None, [])
            | Some s \<Rightarrow> (case pathFromAPI s of None \<Rightarrow> (None, [error_at NotSupported (path @ [Child ''path''])])
                        | Some q \<Rightarrow> (Some q, [])));
          (family, errs2) = family_from_api (a_IPFamily inp) path;
          (proto, protoFam, errs3) = proto_from_api (a_Protocol inp) path;
          errs4 = (if protoFam \<noteq> None \<and> family \<noteq> None \<and> the protoFam \<noteq> the family
                   then [error_at Invalid (path @ [Child ''ipFamily''])] else []);
          want = (if family = None then protoFam else family);
          errs5 = (if a_SourceIPs inp \<noteq> None \<and> a_SourceCIDRs inp \<noteq> None
                   then [error_at Forbidden (path @ [Child ''sourceCIDRs''])] else []);
          errs6 = (if a_DestinationIPs inp \<noteq> None \<and> a_DestinationCIDRs inp \<noteq> None
                   then [error_at Forbidden (path @ [Child ''destinationCIDRs''])] else []);
          (src, errs7) = side_from_api (a_SourceIPs inp) (path @ [Child ''sourceIPs''])
                           (a_SourceCIDRs inp) (path @ [Child ''sourceCIDRs'']) want;
          (dst, errs8) = side_from_api (a_DestinationIPs inp) (path @ [Child ''destinationIPs''])
                           (a_DestinationCIDRs inp) (path @ [Child ''destinationCIDRs'']) want;
          hasPorts = (a_SourcePorts inp \<noteq> None \<or> a_DestinationPorts inp \<noteq> None);
          errs9 = (if hasPorts \<and> (proto = None \<or> the proto \<noteq> ProtoTCP \<and> the proto \<noteq> ProtoUDP)
                   then [error_at Forbidden (path @ [Child ''protocol''])] else []);
          (sports, errs10) = portRanges (a_SourcePorts inp) (path @ [Child ''sourcePorts'']);
          (dports, errs11) = portRanges (a_DestinationPorts inp) (path @ [Child ''destinationPorts'']);
          (icmp, errs12) = (case a_ICMP inp of None \<Rightarrow> (None, [])
            | Some ic \<Rightarrow>
                (let (out, e) = icmpFromAPI ic (path @ [Child ''icmp''])
                 in (Some out, (if proto = None \<or> the proto \<noteq> ProtoICMP \<and> the proto \<noteq> ProtoICMPv6
                                then [error_at Forbidden (path @ [Child ''icmp''])] else []) @ e)))
      in (\<lparr>m_Path = mpath, m_Family = family, m_Proto = proto, m_Source = src, m_Destination = dst,
           m_SourcePorts = sports, m_DestPorts = dports, m_ICMP = icmp\<rparr>,
          errs1 @ errs2 @ errs3 @ errs4 @ errs5 @ errs6 @ errs7 @ errs8 @ errs9 @ errs10 @ errs11 @ errs12))"

text \<open>\<open>ruleName\<close>, the regular expression of a DNS label.\<close>

definition label_char :: "char \<Rightarrow> bool" where
  "label_char c = (char_between CHR ''a'' CHR ''z'' c \<or> char_between CHR ''0'' CHR ''9'' c)"

definition ruleName :: "string \<Rightarrow> bool" where
  "ruleName s = (s \<noteq> [] \<and> label_char (hd s) \<and> label_char (last s) \<and> list_all (\<lambda>c. c = CHR ''-'' \<or> label_char c) s)"

definition rule_from_api :: "TrafficRule \<Rightarrow> field_path \<Rightarrow> string list \<Rightarrow> Rule \<times> field_error list" where
  "rule_from_api r rp seen =
     (let errs1 = (if \<not> ruleName (a_Name r) \<or> length (a_Name r) > 63 then [error_at Invalid (rp @ [Child ''name''])] else []);
          errs2 = (if a_Name r \<in> set seen then [error_at Duplicate (rp @ [Child ''name''])] else []);
          (allow, errs3) = (if a_Action r = ''Allow'' then (True, []) else if a_Action r = ''Deny'' then (False, [])
                            else (False, [error_at NotSupported (rp @ [Child ''action''])]));
          (m, errs4) = (case a_Match r of None \<Rightarrow> (MatchZero, []) | Some am \<Rightarrow> matchFromAPI am (rp @ [Child ''match'']))
      in (\<lparr>r_Name = a_Name r, r_Allow = allow, r_Match = m\<rparr>, errs1 @ errs2 @ errs3 @ errs4))"

fun rules_from_api :: "field_path \<Rightarrow> nat \<Rightarrow> string list \<Rightarrow> Rule list \<Rightarrow> field_error list \<Rightarrow>
    TrafficRule list \<Rightarrow> Rule list \<times> field_error list" where
  "rules_from_api rulesPath i seen out errs [] = (out, errs)"
| "rules_from_api rulesPath i seen out errs (r # rest) =
     (let (rule, e) = rule_from_api r (rulesPath @ [Index i]) seen
      in rules_from_api rulesPath (i + 1) (a_Name r # seen) (out @ [rule]) (errs @ e) rest)"

definition FromAPI :: "TrafficRule list \<Rightarrow> field_path \<Rightarrow> Policy \<times> field_error list" where
  "FromAPI spec path =
     (let rulesPath = path @ [Child ''rules''];
          errs0 = (if length spec = 0 then [error_at Required rulesPath]
                   else if length spec > MaxRules then [error_at TooMany rulesPath] else []);
          (rules, errs) = rules_from_api rulesPath 0 [] [] errs0 spec;
          p = \<lparr>p_Rules = rules\<rparr>
      in if errs \<noteq> [] then (\<lparr>p_Rules = []\<rparr>, errs)
         else if EntryCount p > MaxCompiledEntries then (\<lparr>p_Rules = []\<rparr>, [error_at Invalid rulesPath])
         else (p, []))"

section \<open>What the API documents\<close>

text \<open>Which specs are valid.\<close>

definition valid_address :: "Family option \<Rightarrow> string \<Rightarrow> bool" where
  "valid_address want s \<longleftrightarrow> (\<exists>a. ParseAddr s = Some a \<and> Zone a = [] \<and> \<not> Is4In6 a \<and>
     (want = None \<or> want = Some (familyOf a)))"

definition valid_addresses :: "Family option \<Rightarrow> string list option \<Rightarrow> bool" where
  "valid_addresses want inp \<longleftrightarrow> (\<forall>xs. inp = Some xs \<longrightarrow> xs \<noteq> [] \<and> length xs \<le> MaxAddresses \<and>
     list_all (valid_address want) xs \<and> distinct (map ParseAddr xs))"

definition valid_cidr :: "Family option \<Rightarrow> string \<Rightarrow> bool" where
  "valid_cidr want s \<longleftrightarrow> (\<exists>p. ParsePrefix s = Some p \<and> \<not> Is4In6 (p_addr p) \<and> Masked p = p \<and>
     (want = None \<or> want = Some (familyOf (p_addr p))))"

definition valid_cidrs :: "Family option \<Rightarrow> string list option \<Rightarrow> bool" where
  "valid_cidrs want inp \<longleftrightarrow> (\<forall>xs. inp = Some xs \<longrightarrow> xs \<noteq> [] \<and> length xs \<le> MaxAddresses \<and>
     list_all (valid_cidr want) xs \<and> distinct (map ParsePrefix xs))"

definition valid_range :: "api_PortRange \<Rightarrow> bool" where
  "valid_range r \<longleftrightarrow> 0 \<le> ap_Start r \<and> ap_Start r \<le> ap_End r \<and> ap_End r \<le> 65535"

definition disjoint_ranges :: "api_PortRange \<Rightarrow> api_PortRange \<Rightarrow> bool" where
  "disjoint_ranges r q \<longleftrightarrow> ap_End r < ap_Start q \<or> ap_End q < ap_Start r"

definition valid_ranges :: "api_PortRange list option \<Rightarrow> bool" where
  "valid_ranges inp \<longleftrightarrow> (\<forall>xs. inp = Some xs \<longrightarrow> xs \<noteq> [] \<and> length xs \<le> MaxPortRanges \<and>
     list_all valid_range xs \<and> sorted_wrt disjoint_ranges xs)"

definition proto_family :: "string option \<Rightarrow> Family option" where
  "proto_family q = (if q = Some ''ICMP'' then Some FamilyIPv4 else if q = Some ''ICMPv6'' then Some FamilyIPv6 else None)"

definition spec_family :: "string option \<Rightarrow> Family option" where
  "spec_family f = (if f = Some ''IPv4'' then Some FamilyIPv4 else if f = Some ''IPv6'' then Some FamilyIPv6 else None)"

definition wanted_family :: "TrafficRuleMatch \<Rightarrow> Family option" where
  "wanted_family am = (case spec_family (a_IPFamily am) of None \<Rightarrow> proto_family (a_Protocol am) | Some f \<Rightarrow> Some f)"

definition valid_icmp :: "ICMPMatch \<Rightarrow> bool" where
  "valid_icmp ic \<longleftrightarrow> 0 \<le> ai_Type ic \<and> ai_Type ic \<le> 255 \<and> (\<forall>c. ai_Code ic = Some c \<longrightarrow> 0 \<le> c \<and> c \<le> 255)"

definition valid_match :: "TrafficRuleMatch \<Rightarrow> bool" where
  "valid_match am \<longleftrightarrow>
     a_Path am \<in> {None, Some ''Private'', Some ''PublicNAT'', Some ''PublicService''} \<and>
     a_IPFamily am \<in> {None, Some ''IPv4'', Some ''IPv6''} \<and>
     a_Protocol am \<in> {None, Some ''TCP'', Some ''UDP'', Some ''ICMP'', Some ''ICMPv6''} \<and>
     (spec_family (a_IPFamily am) \<noteq> None \<longrightarrow> proto_family (a_Protocol am) \<noteq> None \<longrightarrow>
        spec_family (a_IPFamily am) = proto_family (a_Protocol am)) \<and>
     (a_SourceIPs am = None \<or> a_SourceCIDRs am = None) \<and>
     (a_DestinationIPs am = None \<or> a_DestinationCIDRs am = None) \<and>
     valid_addresses (wanted_family am) (a_SourceIPs am) \<and> valid_cidrs (wanted_family am) (a_SourceCIDRs am) \<and>
     valid_addresses (wanted_family am) (a_DestinationIPs am) \<and> valid_cidrs (wanted_family am) (a_DestinationCIDRs am) \<and>
     (a_SourcePorts am = None \<and> a_DestinationPorts am = None \<or> a_Protocol am \<in> {Some ''TCP'', Some ''UDP''}) \<and>
     valid_ranges (a_SourcePorts am) \<and> valid_ranges (a_DestinationPorts am) \<and>
     (\<forall>ic. a_ICMP am = Some ic \<longrightarrow> a_Protocol am \<in> {Some ''ICMP'', Some ''ICMPv6''} \<and> valid_icmp ic)"

definition valid_spec :: "TrafficRule list \<Rightarrow> bool" where
  "valid_spec spec \<longleftrightarrow> spec \<noteq> [] \<and> length spec \<le> MaxRules \<and> distinct (map a_Name spec) \<and>
     list_all (\<lambda>r. ruleName (a_Name r) \<and> length (a_Name r) \<le> 63 \<and> (a_Action r = ''Allow'' \<or> a_Action r = ''Deny'') \<and>
        (\<forall>am. a_Match r = Some am \<longrightarrow> valid_match am)) spec"

text \<open>Which packets a rule selects: every field that is present must match, an omitted field matches
  anything, and the entries of one list are alternatives.\<close>

definition api_side :: "string list option \<Rightarrow> string list option \<Rightarrow> addr \<Rightarrow> bool" where
  "api_side ips cidrs a \<longleftrightarrow>
     (\<forall>xs. ips = Some xs \<longrightarrow> (\<exists>s\<in>set xs. ParseAddr s = Some a)) \<and>
     (\<forall>xs. cidrs = Some xs \<longrightarrow> (\<exists>s\<in>set xs. \<exists>p. ParsePrefix s = Some p \<and> Contains p a))"

definition api_ports :: "api_PortRange list option \<Rightarrow> u16 \<Rightarrow> bool" where
  "api_ports ranges port \<longleftrightarrow>
     (\<forall>rs. ranges = Some rs \<longrightarrow> (\<exists>r\<in>set rs. ap_Start r \<le> uint port \<and> uint port \<le> ap_End r))"

definition api_protocol :: "string \<Rightarrow> Packet \<Rightarrow> bool" where
  "api_protocol s pkt \<longleftrightarrow>
     s = ''TCP'' \<and> k_Proto pkt = 6 \<or> s = ''UDP'' \<and> k_Proto pkt = 17 \<or>
     s = ''ICMP'' \<and> k_Proto pkt = 1 \<and> Is4 (k_Src pkt) \<or>
     s = ''ICMPv6'' \<and> k_Proto pkt = 58 \<and> \<not> Is4 (k_Src pkt)"

definition api_selects :: "TrafficRuleMatch \<Rightarrow> Packet \<Rightarrow> bool" where
  "api_selects am pkt \<longleftrightarrow>
     (\<forall>s. a_IPFamily am = Some s \<longrightarrow> s = (if Is4 (k_Src pkt) then ''IPv4'' else ''IPv6'')) \<and>
     (\<forall>s. a_Protocol am = Some s \<longrightarrow> api_protocol s pkt) \<and>
     api_side (a_SourceIPs am) (a_SourceCIDRs am) (k_Src pkt) \<and>
     api_side (a_DestinationIPs am) (a_DestinationCIDRs am) (k_Dst pkt) \<and>
     api_ports (a_SourcePorts am) (k_SrcPort pkt) \<and> api_ports (a_DestinationPorts am) (k_DstPort pkt) \<and>
     (\<forall>ic. a_ICMP am = Some ic \<longrightarrow> ai_Type ic = uint (k_ICMPType pkt) \<and>
        (\<forall>c. ai_Code ic = Some c \<longrightarrow> c = uint (k_ICMPCode pkt)))"

definition api_path :: "Path \<Rightarrow> string option" where
  "api_path p = (case p of PathUnknown \<Rightarrow> None | PathPrivate \<Rightarrow> Some ''Private''
     | PathPublicNAT \<Rightarrow> Some ''PublicNAT'' | PathPublicService \<Rightarrow> Some ''PublicService'')"

text \<open>The decision: the first rule that selects the packet and, when it names a path, names the
  packet's path. A rule that only lacks the path of an unclassified packet refuses it, and so does
  reaching the end.\<close>

fun api_evaluate :: "nat \<Rightarrow> TrafficRule list \<Rightarrow> Packet \<Rightarrow> Verdict" where
  "api_evaluate i [] pkt = \<lparr>v_Allow = False, v_Rule = -1, v_Reason = ReasonNoMatch\<rparr>"
| "api_evaluate i (r # rs) pkt =
     (let selects = (\<forall>am. a_Match r = Some am \<longrightarrow> api_selects am pkt);
          path = Option.bind (a_Match r) a_Path
      in if selects \<and> path \<noteq> None \<and> api_path (k_Path pkt) = None
         then \<lparr>v_Allow = False, v_Rule = -1, v_Reason = ReasonClassificationError\<rparr>
         else if selects \<and> (path = None \<or> path = api_path (k_Path pkt))
         then \<lparr>v_Allow = (a_Action r = ''Allow''), v_Rule = int i, v_Reason = ReasonRule\<rparr>
         else api_evaluate (i + 1) rs pkt)"

section \<open>The lists\<close>

lemma checkFamily_None: "checkFamily f want ip = None \<longleftrightarrow> want = None \<or> want = Some f"
  by (cases want) (auto simp: checkFamily_def)

definition host_prefix :: "string \<Rightarrow> prefix" where
  "host_prefix s = PrefixFrom (the (ParseAddr s)) (int (BitLen (the (ParseAddr s))))"

lemma addresses_loop_errors:
  "snd (addresses_loop path want i seen out errs xs) = [] \<longleftrightarrow>
     errs = [] \<and> list_all (valid_address want) xs \<and> distinct (map ParseAddr xs) \<and>
     Some ` set seen \<inter> ParseAddr ` set xs = {}"
proof (induction path want i seen out errs xs rule: addresses_loop.induct)
  case (2 path want i seen out errs s rest)
  show ?case
  proof (cases "ParseAddr s")
    case None
    then show ?thesis using 2 by (simp add: valid_address_def Let_def)
  next
    case (Some a)
    show ?thesis
    proof (cases "checkFamily (familyOf a) want (path @ [Index i])")
      case None
      then show ?thesis using Some 2 checkFamily_None [of "familyOf a" want "path @ [Index i]"]
        by (auto simp: valid_address_def Let_def)
    next
      case (Some e)
      then show ?thesis using \<open>ParseAddr s = Some a\<close> 2 checkFamily_None [of "familyOf a" want "path @ [Index i]"]
        by (auto simp: valid_address_def Let_def)
    qed
  qed
qed simp

lemma addresses_loop_out:
  "snd (addresses_loop path want i seen out errs xs) = [] \<Longrightarrow>
   fst (addresses_loop path want i seen out errs xs) = out @ map host_prefix xs"
proof (induction path want i seen out errs xs rule: addresses_loop.induct)
  case (2 path want i seen out errs s rest)
  then show ?case
    by (auto simp: Let_def addresses_loop_errors host_prefix_def split: option.splits if_splits)
qed simp

lemma prefixes_loop_errors:
  "snd (prefixes_loop path want i seen out errs xs) = [] \<longleftrightarrow>
     errs = [] \<and> list_all (valid_cidr want) xs \<and> distinct (map ParsePrefix xs) \<and>
     Some ` set seen \<inter> ParsePrefix ` set xs = {}"
proof (induction path want i seen out errs xs rule: prefixes_loop.induct)
  case (2 path want i seen out errs s rest)
  show ?case
  proof (cases "ParsePrefix s")
    case None
    then show ?thesis using 2 by (simp add: valid_cidr_def Let_def)
  next
    case (Some p)
    show ?thesis
    proof (cases "checkFamily (familyOf (p_addr p)) want (path @ [Index i])")
      case None
      then show ?thesis using Some 2 checkFamily_None [of "familyOf (p_addr p)" want "path @ [Index i]"]
        by (auto simp: valid_cidr_def Let_def)
    next
      case (Some e)
      then show ?thesis using \<open>ParsePrefix s = Some p\<close> 2 checkFamily_None [of "familyOf (p_addr p)" want "path @ [Index i]"]
        by (auto simp: valid_cidr_def Let_def)
    qed
  qed
qed simp

lemma prefixes_loop_out:
  "snd (prefixes_loop path want i seen out errs xs) = [] \<Longrightarrow>
   fst (prefixes_loop path want i seen out errs xs) = out @ map (the \<circ> ParsePrefix) xs"
proof (induction path want i seen out errs xs rule: prefixes_loop.induct)
  case (2 path want i seen out errs s rest)
  then show ?case by (auto simp: Let_def prefixes_loop_errors split: option.splits if_splits)
qed simp

lemma listBounds_Nil: "listBounds n False path mx = [] \<longleftrightarrow> n \<noteq> 0 \<and> n \<le> mx"
  by (simp add: listBounds_def)

lemma addresses_errors: "snd (addresses inp path want) = [] \<longleftrightarrow> valid_addresses want inp"
  by (cases inp) (auto simp: addresses_def valid_addresses_def Let_def listBounds_Nil addresses_loop_errors)

lemma prefixes_errors: "snd (prefixes inp path want) = [] \<longleftrightarrow> valid_cidrs want inp"
  by (cases inp) (auto simp: prefixes_def valid_cidrs_def Let_def listBounds_Nil prefixes_loop_errors)

lemma addresses_out:
  "valid_addresses want inp \<Longrightarrow> fst (addresses inp path want) = (case inp of None \<Rightarrow> [] | Some xs \<Rightarrow> map host_prefix xs)"
  by (cases inp) (auto simp: addresses_def valid_addresses_def Let_def listBounds_Nil addresses_loop_errors addresses_loop_out)

lemma prefixes_out:
  "valid_cidrs want inp \<Longrightarrow> fst (prefixes inp path want) = (case inp of None \<Rightarrow> [] | Some xs \<Rightarrow> map (the \<circ> ParsePrefix) xs)"
  by (cases inp) (auto simp: prefixes_def valid_cidrs_def Let_def listBounds_Nil prefixes_loop_errors prefixes_loop_out)

lemma host_prefix_contains:
  assumes "valid_address want s"
  shows "Contains (host_prefix s) a \<longleftrightarrow> ParseAddr s = Some a" "wf_prefix (host_prefix s)"
proof -
  obtain b where b: "ParseAddr s = Some b" "Zone b = []" using assms by (auto simp: valid_address_def)
  have nz: "b \<noteq> AddrZero" using b(1) by (rule ParseAddr_not_zero)
  show "Contains (host_prefix s) a \<longleftrightarrow> ParseAddr s = Some a"
    using Contains_host [OF nz b(2), of a] b(1) by (auto simp: host_prefix_def)
  show "wf_prefix (host_prefix s)" using b nz by (auto simp: host_prefix_def intro: wf_PrefixFrom)
qed

lemma side_errors:
  "snd (side_from_api ips p1 cidrs p2 want) = [] \<longleftrightarrow> valid_addresses want ips \<and> valid_cidrs want cidrs"
  using addresses_errors [of ips p1 want] prefixes_errors [of cidrs p2 want]
  by (auto simp: side_from_api_def Let_def valid_cidrs_def split: prod.splits)

text \<open>The list a valid side translates to: empty only when both fields are omitted.\<close>

lemma side_out:
  fixes p1 p2 :: field_path
  assumes "valid_addresses want ips" "valid_cidrs want cidrs" "ips = None \<or> cidrs = None"
  defines "out \<equiv> fst (side_from_api ips p1 cidrs p2 want)"
  shows "(out \<noteq> [] \<longrightarrow> (\<exists>p\<in>set out. Contains p a)) \<longleftrightarrow> api_side ips cidrs a" "list_all wf_prefix out"
proof -
  have "out = (case cidrs of Some xs \<Rightarrow> map (the \<circ> ParsePrefix) xs
      | None \<Rightarrow> (case ips of None \<Rightarrow> [] | Some xs \<Rightarrow> map host_prefix xs))"
    using addresses_out [OF assms(1), of p1] prefixes_out [OF assms(2), of p2]
    by (auto simp: out_def side_from_api_def Let_def split: prod.splits option.splits)
  then consider (none) "ips = None" "cidrs = None" "out = []"
    | (ips) xs where "ips = Some xs" "cidrs = None" "out = map host_prefix xs" "xs \<noteq> []" "list_all (valid_address want) xs"
    | (cidrs) xs where "cidrs = Some xs" "ips = None" "out = map (the \<circ> ParsePrefix) xs" "xs \<noteq> []" "list_all (valid_cidr want) xs"
    using assms by (cases ips; cases cidrs) (auto simp: valid_addresses_def valid_cidrs_def)
  then have "((out \<noteq> [] \<longrightarrow> (\<exists>p\<in>set out. Contains p a)) \<longleftrightarrow> api_side ips cidrs a) \<and> list_all wf_prefix out"
  proof cases
    case ips
    then have "(\<exists>p\<in>set out. Contains p a) \<longleftrightarrow> (\<exists>s\<in>set xs. ParseAddr s = Some a)"
      using host_prefix_contains(1) [of want _ a] by (auto simp: list_all_iff)
    then show ?thesis using ips host_prefix_contains(2) [of want] by (auto simp: api_side_def list_all_iff)
  next
    case cidrs
    then have p: "\<And>s. s \<in> set xs \<Longrightarrow> ParsePrefix s = Some (the (ParsePrefix s))" by (auto simp: list_all_iff valid_cidr_def)
    then have "(\<exists>p\<in>set out. Contains p a) \<longleftrightarrow> (\<exists>s\<in>set xs. \<exists>p. ParsePrefix s = Some p \<and> Contains p a)"
    proof -
      have "(\<exists>p. ParsePrefix s = Some p \<and> Contains p a) \<longleftrightarrow> Contains (the (ParsePrefix s)) a" if "s \<in> set xs" for s
        using p [OF that] by (metis option.sel)
      then show ?thesis using cidrs(3) by simp
    qed
    moreover have "list_all wf_prefix out" using cidrs(3) p ParsePrefix_wf by (auto simp: list_all_iff)
    ultimately show ?thesis using cidrs by (simp add: api_side_def)
  qed (simp add: api_side_def)
  then show "(out \<noteq> [] \<longrightarrow> (\<exists>p\<in>set out. Contains p a)) \<longleftrightarrow> api_side ips cidrs a" "list_all wf_prefix out" by blast+
qed

section \<open>Ports and ICMP\<close>

definition to_range :: "api_PortRange \<Rightarrow> PortRange" where
  "to_range r = \<lparr>pr_Start = word_of_int (ap_Start r), pr_End = word_of_int (ap_End r)\<rparr>"

lemma uint_of_int16: "0 \<le> x \<Longrightarrow> x \<le> 65535 \<Longrightarrow> uint (word_of_int x :: u16) = x"
  by (simp add: uint_word_of_int)

lemma uint_of_int8: "0 \<le> x \<Longrightarrow> x \<le> 255 \<Longrightarrow> uint (word_of_int x :: u8) = x"
  by (simp add: uint_word_of_int)

lemma to_range_Contains:
  "valid_range r \<Longrightarrow> pr_Contains (to_range r) port \<longleftrightarrow> ap_Start r \<le> uint port \<and> uint port \<le> ap_End r"
  by (simp add: pr_Contains_def to_range_def word_le_def uint_of_int16 valid_range_def)

lemma to_range_wf: "valid_range r \<Longrightarrow> pr_Start (to_range r) \<le> pr_End (to_range r)"
  by (simp add: to_range_def word_le_def uint_of_int16 valid_range_def)

lemma to_range_disjoint:
  "valid_range r \<Longrightarrow> valid_range q \<Longrightarrow>
   (pr_Start (to_range r) \<le> pr_End (to_range q) \<and> pr_Start (to_range q) \<le> pr_End (to_range r)) \<longleftrightarrow> \<not> disjoint_ranges q r"
  by (auto simp: to_range_def word_le_def uint_of_int16 valid_range_def disjoint_ranges_def)

lemma portRanges_loop_Cons:
  "portRanges_loop path i out errs (r # rs) =
     (if valid_range r
      then portRanges_loop path (i + 1) (out @ [to_range r]) (errs @ map (\<lambda>_. error_at Invalid (path @ [Index i]))
             (filter (\<lambda>q. pr_Start (to_range r) \<le> pr_End q \<and> pr_Start q \<le> pr_End (to_range r)) out)) rs
      else portRanges_loop path (i + 1) out (errs @ [error_at Invalid (path @ [Index i])]) rs)"
  by (auto simp: Let_def to_range_def valid_range_def)

lemma portRanges_loop_errors:
  "list_all valid_range qs \<Longrightarrow>
   snd (portRanges_loop path i (map to_range qs) errs rs) = [] \<longleftrightarrow>
     errs = [] \<and> list_all valid_range rs \<and> sorted_wrt disjoint_ranges rs \<and> (\<forall>q\<in>set qs. \<forall>r\<in>set rs. disjoint_ranges q r)"
proof (induction rs arbitrary: i qs errs)
  case (Cons r rs)
  show ?case
  proof (cases "valid_range r")
    case False
    then show ?thesis using Cons.IH [OF Cons.prems] by (simp add: portRanges_loop_Cons del: portRanges_loop.simps(2))
  next
    case True
    have ovl: "filter (\<lambda>q. pr_Start (to_range r) \<le> pr_End q \<and> pr_Start q \<le> pr_End (to_range r)) (map to_range qs) = []
        \<longleftrightarrow> (\<forall>q\<in>set qs. disjoint_ranges q r)"
      using Cons.prems to_range_disjoint [OF True] by (auto simp: list_all_iff filter_empty_conv)
    have "list_all valid_range (qs @ [r])" using Cons.prems True by simp
    from Cons.IH [OF this] show ?thesis
      using ovl True by (auto simp: portRanges_loop_Cons simp del: portRanges_loop.simps(2))
  qed
qed simp

lemma portRanges_loop_mono: "snd (portRanges_loop path i out errs rs) = [] \<Longrightarrow> errs = []"
proof (induction rs arbitrary: i out errs)
  case (Cons r rs)
  from Cons.prems show ?case
    by (auto simp: portRanges_loop_Cons simp del: portRanges_loop.simps(2) split: if_splits dest!: Cons.IH)
qed simp

lemma portRanges_loop_out:
  "snd (portRanges_loop path i out errs rs) = [] \<Longrightarrow> fst (portRanges_loop path i out errs rs) = out @ map to_range rs"
proof (induction rs arbitrary: i out errs)
  case (Cons r rs)
  show ?case
  proof (cases "valid_range r")
    case True
    with Cons.prems Cons.IH show ?thesis by (simp add: portRanges_loop_Cons del: portRanges_loop.simps(2))
  next
    case False
    with Cons.prems portRanges_loop_mono show ?thesis
      by (fastforce simp: portRanges_loop_Cons simp del: portRanges_loop.simps(2))
  qed
qed simp

lemma portRanges_errors: "snd (portRanges inp path) = [] \<longleftrightarrow> valid_ranges inp"
  using portRanges_loop_errors [of "[]" path 0]
  by (cases inp) (auto simp: portRanges_def valid_ranges_def Let_def listBounds_Nil)

lemma portRanges_out:
  assumes "valid_ranges inp"
  shows "fst (portRanges inp path) = (case inp of None \<Rightarrow> [] | Some xs \<Rightarrow> map to_range xs)"
proof (cases inp)
  case (Some xs)
  then have "listBounds (length xs) False path MaxPortRanges = []"
    using assms by (simp add: valid_ranges_def listBounds_Nil)
  moreover from this have "snd (portRanges_loop path 0 [] [] xs) = []"
    using assms Some portRanges_errors [of inp path] by (simp add: portRanges_def)
  ultimately show ?thesis using Some portRanges_loop_out by (fastforce simp: portRanges_def)
qed (simp add: portRanges_def)

lemma portRanges_matches:
  fixes path :: field_path
  assumes "valid_ranges inp"
  defines "out \<equiv> fst (portRanges inp path)"
  shows "(out \<noteq> [] \<longrightarrow> (\<exists>r\<in>set out. pr_Contains r port)) \<longleftrightarrow> api_ports inp port"
    "list_all (\<lambda>r. pr_Start r \<le> pr_End r) out"
proof -
  have "((out \<noteq> [] \<longrightarrow> (\<exists>r\<in>set out. pr_Contains r port)) \<longleftrightarrow> api_ports inp port) \<and>
      list_all (\<lambda>r. pr_Start r \<le> pr_End r) out"
  proof (cases inp)
    case (Some xs)
    then have out: "out = map to_range xs" and xs: "xs \<noteq> []" "\<And>r. r \<in> set xs \<Longrightarrow> valid_range r"
      using assms(1) by (simp_all add: out_def portRanges_out valid_ranges_def list_all_iff)
    have "(\<exists>r\<in>set out. pr_Contains r port) \<longleftrightarrow> (\<exists>r\<in>set xs. ap_Start r \<le> uint port \<and> uint port \<le> ap_End r)"
      using xs(2) to_range_Contains by (simp add: out)
    then show ?thesis using Some out xs to_range_wf by (simp add: api_ports_def list_all_iff)
  qed (simp add: out_def portRanges_def api_ports_def)
  then show "(out \<noteq> [] \<longrightarrow> (\<exists>r\<in>set out. pr_Contains r port)) \<longleftrightarrow> api_ports inp port"
    "list_all (\<lambda>r. pr_Start r \<le> pr_End r) out" by blast+
qed

lemma icmp_errors: "snd (icmpFromAPI ic path) = [] \<longleftrightarrow> valid_icmp ic"
  by (cases "ai_Code ic") (auto simp: icmpFromAPI_def valid_icmp_def Let_def)

lemma icmp_matches:
  fixes path :: field_path and t c :: u8
  assumes "valid_icmp ic"
  defines "out \<equiv> fst (icmpFromAPI ic path)"
  shows "(t = ic_Type out \<and> (ic_HasCode out \<longrightarrow> c = ic_Code out)) \<longleftrightarrow>
    ai_Type ic = uint t \<and> (\<forall>k. ai_Code ic = Some k \<longrightarrow> k = uint c)"
proof -
  have eq8: "(w = word_of_int x) \<longleftrightarrow> x = uint w" if "0 \<le> x" "x \<le> 255" for w :: u8 and x
    using uint_of_int8 [OF that] by (metis word_of_int_uint)
  show ?thesis
    using assms(1) eq8 by (cases "ai_Code ic") (auto simp: out_def icmpFromAPI_def Let_def valid_icmp_def)
qed

lemma family_out: "fst (family_from_api f path) = spec_family f"
  by (cases f) (auto simp: family_from_api_def spec_family_def)

lemma family_errors: "snd (family_from_api f path) = [] \<longleftrightarrow> f \<in> {None, Some ''IPv4'', Some ''IPv6''}"
  by (cases f) (auto simp: family_from_api_def)

definition proto_number :: "string option \<Rightarrow> u8 option" where
  "proto_number q = (if q = Some ''TCP'' then Some ProtoTCP else if q = Some ''UDP'' then Some ProtoUDP
     else if q = Some ''ICMP'' then Some ProtoICMP else if q = Some ''ICMPv6'' then Some ProtoICMPv6 else None)"

lemma proto_out: "fst (proto_from_api q path) = proto_number q" "fst (snd (proto_from_api q path)) = proto_family q"
  by (cases q; auto simp: proto_from_api_def proto_number_def proto_family_def)+

lemma proto_errors:
  "snd (snd (proto_from_api q path)) = [] \<longleftrightarrow> q \<in> {None, Some ''TCP'', Some ''UDP'', Some ''ICMP'', Some ''ICMPv6''}"
  by (cases q) (auto simp: proto_from_api_def)

lemma pathFromAPI_None: "pathFromAPI s \<noteq> None \<longleftrightarrow> Some s \<in> {Some ''Private'', Some ''PublicNAT'', Some ''PublicService''}"
  by (auto simp: pathFromAPI_def)

lemma matchFromAPI_fields:
  "m_Path (fst (matchFromAPI am path)) = Option.bind (a_Path am) pathFromAPI"
  "m_Family (fst (matchFromAPI am path)) = spec_family (a_IPFamily am)"
  "m_Proto (fst (matchFromAPI am path)) = proto_number (a_Protocol am)"
  "m_Source (fst (matchFromAPI am path)) = fst (side_from_api (a_SourceIPs am) (path @ [Child ''sourceIPs''])
     (a_SourceCIDRs am) (path @ [Child ''sourceCIDRs'']) (wanted_family am))"
  "m_Destination (fst (matchFromAPI am path)) = fst (side_from_api (a_DestinationIPs am) (path @ [Child ''destinationIPs''])
     (a_DestinationCIDRs am) (path @ [Child ''destinationCIDRs'']) (wanted_family am))"
  "m_SourcePorts (fst (matchFromAPI am path)) = fst (portRanges (a_SourcePorts am) (path @ [Child ''sourcePorts'']))"
  "m_DestPorts (fst (matchFromAPI am path)) = fst (portRanges (a_DestinationPorts am) (path @ [Child ''destinationPorts'']))"
  "m_ICMP (fst (matchFromAPI am path)) = map_option (\<lambda>ic. fst (icmpFromAPI ic (path @ [Child ''icmp'']))) (a_ICMP am)"
proof -
  have w: "(if spec_family (a_IPFamily am) = None then proto_family (a_Protocol am) else spec_family (a_IPFamily am))
      = wanted_family am"
    by (simp add: wanted_family_def split: option.split)
  note run = matchFromAPI_def Let_def case_prod_beta family_out proto_out w fst_conv snd_conv Match.simps
  show "m_Path (fst (matchFromAPI am path)) = Option.bind (a_Path am) pathFromAPI"
    unfolding run by (simp split: option.split)
  show "m_Family (fst (matchFromAPI am path)) = spec_family (a_IPFamily am)"
    "m_Proto (fst (matchFromAPI am path)) = proto_number (a_Protocol am)"
    "m_Source (fst (matchFromAPI am path)) = fst (side_from_api (a_SourceIPs am) (path @ [Child ''sourceIPs''])
      (a_SourceCIDRs am) (path @ [Child ''sourceCIDRs'']) (wanted_family am))"
    "m_Destination (fst (matchFromAPI am path)) = fst (side_from_api (a_DestinationIPs am) (path @ [Child ''destinationIPs''])
      (a_DestinationCIDRs am) (path @ [Child ''destinationCIDRs'']) (wanted_family am))"
    "m_SourcePorts (fst (matchFromAPI am path)) = fst (portRanges (a_SourcePorts am) (path @ [Child ''sourcePorts'']))"
    "m_DestPorts (fst (matchFromAPI am path)) = fst (portRanges (a_DestinationPorts am) (path @ [Child ''destinationPorts'']))"
    unfolding run by (rule refl)+
  show "m_ICMP (fst (matchFromAPI am path)) = map_option (\<lambda>ic. fst (icmpFromAPI ic (path @ [Child ''icmp'']))) (a_ICMP am)"
    unfolding run by (simp split: option.split)
qed

lemma proto_number_ports:
  "(proto_number q = None \<or> the (proto_number q) \<noteq> ProtoTCP \<and> the (proto_number q) \<noteq> ProtoUDP) \<longleftrightarrow>
     q \<notin> {Some ''TCP'', Some ''UDP''}"
  by (auto simp: proto_number_def ProtoTCP_def ProtoUDP_def ProtoICMP_def ProtoICMPv6_def)

lemma proto_number_icmp:
  "(proto_number q = None \<or> the (proto_number q) \<noteq> ProtoICMP \<and> the (proto_number q) \<noteq> ProtoICMPv6) \<longleftrightarrow>
     q \<notin> {Some ''ICMP'', Some ''ICMPv6''}"
  by (auto simp: proto_number_def ProtoTCP_def ProtoUDP_def ProtoICMP_def ProtoICMPv6_def)

lemma matchFromAPI_errors: "snd (matchFromAPI am path) = [] \<longleftrightarrow> valid_match am"
proof -
  have w: "(if spec_family (a_IPFamily am) = None then proto_family (a_Protocol am) else spec_family (a_IPFamily am))
      = wanted_family am"
    by (simp add: wanted_family_def split: option.split)
  have if_Nil: "(if c then [e] else []) = [] \<longleftrightarrow> \<not> c" for c and e :: field_error by simp
  have errs1: "snd (case a_Path am of None \<Rightarrow> (None, []) | Some s \<Rightarrow>
      (case pathFromAPI s of None \<Rightarrow> (None, [e]) | Some q \<Rightarrow> (Some q, []))) = []
      \<longleftrightarrow> a_Path am \<in> {None, Some ''Private'', Some ''PublicNAT'', Some ''PublicService''}" for e :: field_error
    by (auto simp: pathFromAPI_def split: option.splits)
  have errs12: "snd (case a_ICMP am of None \<Rightarrow> (None, []) | Some ic \<Rightarrow>
        (Some (fst (icmpFromAPI ic p)), (if proto_number (a_Protocol am) = None \<or>
          the (proto_number (a_Protocol am)) \<noteq> ProtoICMP \<and> the (proto_number (a_Protocol am)) \<noteq> ProtoICMPv6
          then [e] else []) @ snd (icmpFromAPI ic p))) = []
      \<longleftrightarrow> (\<forall>ic. a_ICMP am = Some ic \<longrightarrow> a_Protocol am \<in> {Some ''ICMP'', Some ''ICMPv6''} \<and> valid_icmp ic)"
    for p and e :: field_error
    unfolding proto_number_icmp by (cases "a_ICMP am") (simp_all add: icmp_errors)
  have fam: "\<not> (proto_family (a_Protocol am) \<noteq> None \<and> spec_family (a_IPFamily am) \<noteq> None \<and>
        the (proto_family (a_Protocol am)) \<noteq> the (spec_family (a_IPFamily am))) \<longleftrightarrow>
      (spec_family (a_IPFamily am) \<noteq> None \<longrightarrow> proto_family (a_Protocol am) \<noteq> None \<longrightarrow>
        spec_family (a_IPFamily am) = proto_family (a_Protocol am))"
    by (cases "spec_family (a_IPFamily am)"; cases "proto_family (a_Protocol am)") auto
  show ?thesis
    unfolding matchFromAPI_def Let_def case_prod_beta family_out proto_out w fst_conv snd_conv append_is_Nil_conv
      errs1 errs12 if_Nil family_errors proto_errors side_errors portRanges_errors proto_number_ports fam valid_match_def
    by (simp only: de_Morgan_conj de_Morgan_disj not_not conj_assoc)
qed

lemma valid_match_parts:
  assumes "valid_match am"
  shows "valid_addresses (wanted_family am) (a_SourceIPs am)" "valid_cidrs (wanted_family am) (a_SourceCIDRs am)"
    "a_SourceIPs am = None \<or> a_SourceCIDRs am = None"
    "valid_addresses (wanted_family am) (a_DestinationIPs am)" "valid_cidrs (wanted_family am) (a_DestinationCIDRs am)"
    "a_DestinationIPs am = None \<or> a_DestinationCIDRs am = None"
    "valid_ranges (a_SourcePorts am)" "valid_ranges (a_DestinationPorts am)"
  using assms unfolding valid_match_def by (simp_all only: conj_assoc)

lemma matchFromAPI_wf:
  assumes "valid_match am"
  shows "wf_match (fst (matchFromAPI am path))"
proof -
  have "spec_family f = None \<or> spec_family f = Some FamilyIPv4 \<or> spec_family f = Some FamilyIPv6" for f
    by (simp add: spec_family_def)
  moreover have "list_all wf_prefix (m_Source (fst (matchFromAPI am path)))"
    "list_all wf_prefix (m_Destination (fst (matchFromAPI am path)))"
    unfolding matchFromAPI_fields using valid_match_parts [OF assms] by (auto intro!: side_out(2))
  moreover have "list_all (\<lambda>r. pr_Start r \<le> pr_End r) (m_SourcePorts (fst (matchFromAPI am path)))"
    "list_all (\<lambda>r. pr_Start r \<le> pr_End r) (m_DestPorts (fst (matchFromAPI am path)))"
    unfolding matchFromAPI_fields using valid_match_parts [OF assms] by (auto intro!: portRanges_matches(2))
  ultimately show ?thesis by (simp add: wf_match_def matchFromAPI_fields)
qed

lemma fixed_matches_api:
  assumes "valid_match am"
  shows "fixed_matches (fst (matchFromAPI am path)) pkt \<longleftrightarrow>
     (\<forall>s. a_IPFamily am = Some s \<longrightarrow> s = (if Is4 (k_Src pkt) then ''IPv4'' else ''IPv6'')) \<and>
     (\<forall>s. a_Protocol am = Some s \<longrightarrow> api_protocol s pkt) \<and>
     (\<forall>ic. a_ICMP am = Some ic \<longrightarrow> ai_Type ic = uint (k_ICMPType pkt) \<and>
        (\<forall>c. ai_Code ic = Some c \<longrightarrow> c = uint (k_ICMPCode pkt)))"
proof -
  let ?m = "fst (matchFromAPI am path)"
  have fam: "(m_Family ?m = None \<or> m_Family ?m = Some (pkt_Family pkt)) \<longleftrightarrow>
      (\<forall>s. a_IPFamily am = Some s \<longrightarrow> s = (if Is4 (k_Src pkt) then ''IPv4'' else ''IPv6''))"
  proof -
    have "a_IPFamily am \<in> {None, Some ''IPv4'', Some ''IPv6''}" using assms by (simp only: valid_match_def)
    then show ?thesis unfolding matchFromAPI_fields by (auto simp: spec_family_def pkt_Family_def familyOf_def)
  qed
  have proto: "(m_Proto ?m = None \<or> m_Proto ?m = Some (k_Proto pkt)) \<and>
      (snd (protoFamily (m_Proto ?m)) \<longrightarrow> fst (protoFamily (m_Proto ?m)) = pkt_Family pkt) \<longleftrightarrow>
      (\<forall>s. a_Protocol am = Some s \<longrightarrow> api_protocol s pkt)"
  proof -
    have "a_Protocol am \<in> {None, Some ''TCP'', Some ''UDP'', Some ''ICMP'', Some ''ICMPv6''}"
      using assms by (simp only: valid_match_def)
    then show ?thesis unfolding matchFromAPI_fields
      by (auto simp: proto_number_def protoFamily_def api_protocol_def
        pkt_Family_def familyOf_def ProtoTCP_def ProtoUDP_def ProtoICMP_def ProtoICMPv6_def)
  qed
  have "(\<forall>ic. m_ICMP ?m = Some ic \<longrightarrow>
        k_ICMPType pkt = ic_Type ic \<and> (ic_HasCode ic \<longrightarrow> k_ICMPCode pkt = ic_Code ic)) \<longleftrightarrow>
      (\<forall>ic. a_ICMP am = Some ic \<longrightarrow> ai_Type ic = uint (k_ICMPType pkt) \<and>
        (\<forall>c. ai_Code ic = Some c \<longrightarrow> c = uint (k_ICMPCode pkt)))"
  proof (cases "a_ICMP am")
    case (Some ic)
    then have "valid_icmp ic" using assms unfolding valid_match_def by blast
    from icmp_matches [OF this, of "k_ICMPType pkt" "path @ [Child ''icmp'']" "k_ICMPCode pkt"] Some
    show ?thesis by (simp add: matchFromAPI_fields)
  qed (simp add: matchFromAPI_fields)
  then show ?thesis unfolding fixed_matches_def using fam proto by blast
qed

lemma matchFromAPI_selects:
  assumes "valid_match am"
  shows "matchesExceptPath (fst (matchFromAPI am path)) pkt \<longleftrightarrow> api_selects am pkt"
proof -
  note v = valid_match_parts [OF assms]
  show ?thesis
    unfolding matchesExceptPath_iff fixed_matches_api [OF assms] api_selects_def matchFromAPI_fields
      side_out(1) [OF v(1-3)] side_out(1) [OF v(4-6)] portRanges_matches(1) [OF v(7)] portRanges_matches(1) [OF v(8)]
    by blast
qed

section \<open>Rules and policies\<close>

definition valid_rule :: "TrafficRule \<Rightarrow> bool" where
  "valid_rule r \<longleftrightarrow> ruleName (a_Name r) \<and> length (a_Name r) \<le> 63 \<and> (a_Action r = ''Allow'' \<or> a_Action r = ''Deny'') \<and>
     (\<forall>am. a_Match r = Some am \<longrightarrow> valid_match am)"

text \<open>A rule and its translation.\<close>

definition rule_translates :: "TrafficRule \<Rightarrow> Rule \<Rightarrow> bool" where
  "rule_translates r rule \<longleftrightarrow> r_Name rule = a_Name r \<and> r_Allow rule = (a_Action r = ''Allow'') \<and>
     wf_match (r_Match rule) \<and>
     (\<forall>pkt. matchesExceptPath (r_Match rule) pkt \<longleftrightarrow> (\<forall>am. a_Match r = Some am \<longrightarrow> api_selects am pkt)) \<and>
     Option.bind (a_Match r) a_Path = Option.bind (m_Path (r_Match rule)) api_path \<and>
     m_Path (r_Match rule) \<noteq> Some PathUnknown"

lemma MatchZero_facts: "wf_match MatchZero" "matchesExceptPath MatchZero pkt" "m_Path MatchZero = None"
  by (simp_all add: wf_match_def MatchZero_def matchesExceptPath_def Let_def)

lemma pathFromAPI_api_path:
  "s \<in> {None, Some ''Private'', Some ''PublicNAT'', Some ''PublicService''} \<Longrightarrow>
   s = Option.bind (Option.bind s pathFromAPI) api_path \<and> Option.bind s pathFromAPI \<noteq> Some PathUnknown"
  by (auto simp: pathFromAPI_def api_path_def)

lemma rule_from_api_errors:
  "snd (rule_from_api r rp seen) = [] \<longleftrightarrow> a_Name r \<notin> set seen \<and> valid_rule r"
  by (cases "a_Match r")
     (auto simp: rule_from_api_def Let_def case_prod_beta valid_rule_def matchFromAPI_errors)

lemma rule_from_api_translates:
  assumes "valid_rule r"
  shows "rule_translates r (fst (rule_from_api r rp seen))"
proof -
  let ?rule = "fst (rule_from_api r rp seen)"
  have basic: "r_Name ?rule = a_Name r" "r_Allow ?rule = (a_Action r = ''Allow'')"
    "r_Match ?rule = (case a_Match r of None \<Rightarrow> MatchZero | Some am \<Rightarrow> fst (matchFromAPI am (rp @ [Child ''match''])))"
    by (auto simp: rule_from_api_def Let_def case_prod_beta split: option.split)
  show ?thesis
  proof (cases "a_Match r")
    case None
    then show ?thesis using basic by (simp add: rule_translates_def MatchZero_facts)
  next
    case (Some am)
    then have v: "valid_match am" using assms by (simp add: valid_rule_def)
    then have "a_Path am \<in> {None, Some ''Private'', Some ''PublicNAT'', Some ''PublicService''}"
      by (simp only: valid_match_def)
    from pathFromAPI_api_path [OF this] show ?thesis
      using Some basic matchFromAPI_wf [OF v] matchFromAPI_selects [OF v]
      by (simp add: rule_translates_def matchFromAPI_fields(1))
  qed
qed

lemma rules_from_api_errors:
  "snd (rules_from_api path i seen out errs rs) = [] \<longleftrightarrow>
     errs = [] \<and> list_all valid_rule rs \<and> distinct (map a_Name rs) \<and> set seen \<inter> a_Name ` set rs = {}"
proof (induction rs arbitrary: i seen out errs)
  case (Cons r rs)
  show ?case
    using Cons.IH rule_from_api_errors [of r "path @ [Index i]" seen] by (auto simp: case_prod_beta)
qed simp

lemma rules_from_api_translates:
  "list_all valid_rule rs \<Longrightarrow>
   \<exists>rules. fst (rules_from_api path i seen out errs rs) = out @ rules \<and> list_all2 rule_translates rs rules"
proof (induction rs arbitrary: i seen out errs)
  case (Cons r rs)
  let ?rule = "fst (rule_from_api r (path @ [Index i]) seen)" and ?errs = "snd (rule_from_api r (path @ [Index i]) seen)"
  have "list_all valid_rule rs" using Cons.prems by simp
  from Cons.IH [OF this, of "i + 1" "a_Name r # seen" "out @ [?rule]" "errs @ ?errs"]
  obtain rules where "fst (rules_from_api path (i + 1) (a_Name r # seen) (out @ [?rule]) (errs @ ?errs) rs)
      = (out @ [?rule]) @ rules" "list_all2 rule_translates rs rules" by blast
  moreover have "rule_translates r ?rule"
    using Cons.prems by (simp add: rule_from_api_translates)
  ultimately show ?case
    by (intro exI [of _ "?rule # rules"]) (simp add: case_prod_beta)
qed simp

lemma evaluate_translated:
  assumes "list_all2 rule_translates spec rules"
  shows "evaluate_rules (enumerate i rules) pkt = api_evaluate i spec pkt"
  using assms
proof (induction arbitrary: i rule: list_all2_induct)
  case (Cons r rs rule rules)
  have path: "(m_Path (r_Match rule) = None) = (Option.bind (a_Match r) a_Path = None)"
    "m_Path (r_Match rule) \<noteq> None \<Longrightarrow> k_Path pkt \<noteq> PathUnknown \<Longrightarrow>
       (the (m_Path (r_Match rule)) = k_Path pkt) = (Option.bind (a_Match r) a_Path = api_path (k_Path pkt))"
    "(api_path (k_Path pkt) = None) = (k_Path pkt = PathUnknown)"
    using Cons.hyps(1) by (cases "m_Path (r_Match rule)"; auto simp: rule_translates_def api_path_def split: Path.splits)+
  have sel: "matchesExceptPath (r_Match rule) pkt = (\<forall>am. a_Match r = Some am \<longrightarrow> api_selects am pkt)"
    "r_Allow rule = (a_Action r = ''Allow'')" using Cons.hyps(1) by (simp_all add: rule_translates_def)
  show ?case
    unfolding enumerate_simps evaluate_rules.simps api_evaluate.simps Let_def sel path(3) Cons.IH Suc_eq_plus1
    using path(1,2) by auto
qed simp

section \<open>Properties\<close>

lemma valid_spec_iff:
  "valid_spec spec \<longleftrightarrow> spec \<noteq> [] \<and> length spec \<le> MaxRules \<and> list_all valid_rule spec \<and> distinct (map a_Name spec)"
  by (auto simp: valid_spec_def valid_rule_def [abs_def])

lemma FromAPI_eq:
  fixes path spec
  defines "res \<equiv> rules_from_api (path @ [Child ''rules'']) 0 [] [] [] spec"
  assumes "valid_spec spec"
  shows "FromAPI spec path = (if EntryCount \<lparr>p_Rules = fst res\<rparr> > MaxCompiledEntries
     then (\<lparr>p_Rules = []\<rparr>, [error_at Invalid (path @ [Child ''rules''])]) else (\<lparr>p_Rules = fst res\<rparr>, []))"
proof -
  have "snd res = []" using assms by (simp add: valid_spec_iff rules_from_api_errors)
  then show ?thesis using assms(2) by (auto simp: FromAPI_def Let_def case_prod_beta res_def valid_spec_iff)
qed

lemma FromAPI_accepts_valid: "snd (FromAPI spec path) = [] \<Longrightarrow> valid_spec spec"
  by (auto simp: FromAPI_def Let_def case_prod_beta rules_from_api_errors valid_spec_iff MaxRules_def split: if_splits)

text \<open>
  C1. What the datapath enforces is what the API type says. If \<open>FromAPI\<close> accepts a spec, its policy
  compiles within the entry limit, and on every packet the walk over the compiled entries gives the
  verdict of the documented rule semantics: the first rule all of whose present fields match decides.
\<close>

theorem accepted_policy_enforced:
  assumes "FromAPI spec path = (p, [])"
  shows "\<exists>es. Compile p = Inr es \<and> length es \<le> MaxCompiledEntries \<and>
    (\<forall>pkt. wf_packet pkt \<longrightarrow> EvaluateEntries es pkt = api_evaluate 0 spec pkt)"
proof -
  have v: "valid_spec spec" using assms FromAPI_accepts_valid [of spec path] by simp
  obtain rules where tr: "list_all2 rule_translates spec rules"
      and rules: "fst (rules_from_api (path @ [Child ''rules'']) 0 [] [] [] spec) = rules"
    using rules_from_api_translates [of spec "path @ [Child ''rules'']" 0 "[]" "[]" "[]"] v by (auto simp: valid_spec_iff)
  then have p: "p = \<lparr>p_Rules = rules\<rparr>" and cnt: "EntryCount p \<le> MaxCompiledEntries"
    using assms FromAPI_eq [OF v, of path] by (auto split: if_splits)
  have len: "length rules \<le> MaxRules" using v list_all2_lengthD [OF tr] by (simp add: valid_spec_iff)
  then obtain es where es: "Compile p = Inr es" using cnt p by (auto simp: Compile_def)
  have wf: "list_all (\<lambda>r. wf_match (r_Match r)) rules"
    using tr by (induction rule: list_all2_induct) (auto simp: rule_translates_def)
  have ent: "es = concat (map (\<lambda>(i, r). expandRule (of_nat i) r) (enumerate 0 rules))"
    using es p by (simp add: Compile_def split: if_splits)
  have "length es \<le> MaxCompiledEntries" using length_compiled [OF wf] cnt p by (simp add: ent EntryCount_sum)
  moreover have "EvaluateEntries es pkt = api_evaluate 0 spec pkt" if "wf_packet pkt" for pkt
    using walk_compiled [OF wf that, of 0] evaluate_translated [OF tr, of 0 pkt] len by (simp add: ent MaxRules_def)
  ultimately show ?thesis using es by blast
qed


definition example_spec :: "TrafficRule list" where
  "example_spec =
     [\<lparr>a_Name = ''web'', a_Action = ''Allow'', a_Match = Some \<lparr>a_Path = Some ''PublicService'', a_IPFamily = None,
         a_Protocol = Some ''TCP'', a_SourceIPs = None, a_DestinationIPs = Some [''192.0.2.1'', ''192.0.2.2''],
         a_SourceCIDRs = Some [''10.0.0.0/8''], a_DestinationCIDRs = None, a_SourcePorts = None,
         a_DestinationPorts = Some [\<lparr>ap_Start = 80, ap_End = 80\<rparr>, \<lparr>ap_Start = 443, ap_End = 443\<rparr>], a_ICMP = None\<rparr>\<rparr>,
      \<lparr>a_Name = ''rest'', a_Action = ''Deny'', a_Match = None\<rparr>]"

theorem accepted_policy_enforced_witness:
  "\<exists>p. FromAPI example_spec [] = (p, []) \<and> (\<exists>es. Compile p = Inr es \<and> length es \<le> MaxCompiledEntries \<and>
    (\<forall>pkt. wf_packet pkt \<longrightarrow> EvaluateEntries es pkt = api_evaluate 0 example_spec pkt))"
proof -
  have "snd (FromAPI example_spec []) = []" by code_simp
  then obtain p where "FromAPI example_spec [] = (p, [])" by (cases "FromAPI example_spec []") auto
  then show ?thesis using accepted_policy_enforced [of example_spec "[]" p] by blast
qed

end
