(* ===== verification/GoMap.thy ===== *)
theory GoMap
  imports Prelude "HOL-Library.AList"
begin

text \<open>
  Go maps as association lists with distinct keys: assignment is \<open>AList.update\<close>, \<open>delete\<close> is
  \<open>AList.delete\<close>, and reading a missing key gives the zero value. The lemmas relate sums and
  membership over a map to those after an assignment or a deletion; the components that keep
  counters and inventories in maps share them.
\<close>

definition get :: "'v \<Rightarrow> ('k \<times> 'v) list \<Rightarrow> 'k \<Rightarrow> 'v" where
  "get zero m k = (case map_of m k of None \<Rightarrow> zero | Some v \<Rightarrow> v)"


section \<open>Sums over maps\<close>

lemma delete_absent: "k \<notin> fst ` set m \<Longrightarrow> AList.delete k m = m"
  by (force simp: AList.delete_eq filter_id_conv)

lemma sum_update:
  fixes f :: "'k \<times> 'v \<Rightarrow> int"
  shows "distinct (map fst m) \<Longrightarrow>
    sum_list (map f (AList.update k v m)) = f (k, v) + sum_list (map f (AList.delete k m))"
proof (induction m)
  case (Cons p m)
  note delete_absent [of k m]
  with Cons show ?case by (auto simp: AList.delete_eq)
qed (simp add: AList.delete_eq)

lemma sum_delete:
  fixes f :: "'k \<times> 'v \<Rightarrow> int"
  shows "distinct (map fst m) \<Longrightarrow>
    sum_list (map f m) = (case map_of m k of None \<Rightarrow> 0 | Some v \<Rightarrow> f (k, v)) + sum_list (map f (AList.delete k m))"
proof (induction m)
  case (Cons p m)
  note delete_absent [of k m]
  moreover have "map_of m k = None \<longleftrightarrow> k \<notin> fst ` set m" by (simp add: map_of_eq_None_iff)
  ultimately show ?case using Cons by (auto simp: AList.delete_eq split: option.split)
qed (simp add: AList.delete_eq)

lemma set_update:
  "distinct (map fst m) \<Longrightarrow> set (AList.update k v m) = insert (k, v) (set (AList.delete k m))"
  by (induction m) (force simp: AList.delete_eq)+

lemma set_delete: "p \<in> set (AList.delete k m) \<longleftrightarrow> p \<in> set m \<and> fst p \<noteq> k"
  by (auto simp: AList.delete_eq)

lemma update_same: "map_of m k = Some v \<Longrightarrow> AList.update k v m = m"
  by (induction m) auto

lemma update_update: "AList.update k v (AList.update k w m) = AList.update k v m"
  by (induction m) auto

lemma delete_update_fresh: "map_of m k = None \<Longrightarrow> AList.delete k (AList.update k v m) = m"
  by (induction m) (auto simp: AList.delete_eq split: if_splits)

lemma others_update:
  "(\<And>r. \<not> P (k, r)) \<Longrightarrow> filter P (AList.update k v m) = filter P m"
  by (induction m) auto

lemma map_of_mem: "distinct (map fst m) \<Longrightarrow> (k, v) \<in> set m \<longleftrightarrow> map_of m k = Some v"
  by (simp add: map_of_eq_Some_iff)

lemma sum_list_nonneg_int: "(\<And>x. x \<in> set xs \<Longrightarrow> 0 \<le> f x) \<Longrightarrow> 0 \<le> sum_list (map f xs :: int list)"
  by (induction xs) auto


end
