(* ===== verification/StateError.thy ===== *)
theory StateError
  imports Prelude
begin

text \<open>
  Stateful code that can fail: an operation is a function from the state to a result, an error on the
  left, and the new state, which it keeps on failure as well. \<open>bind\<close> is the sequence of two statements
  with an early return on error, \<open>lift\<close> a call of pure code, \<open>forEach\<close> a loop that returns at the first
  error. The component theories instantiate the state and the error.
\<close>

definition ret :: "'a \<Rightarrow> 's \<Rightarrow> ('e + 'a) \<times> 's" where
  "ret x w = (Inr x, w)"

definition fail :: "'e \<Rightarrow> 's \<Rightarrow> ('e + 'a) \<times> 's" where
  "fail e w = (Inl e, w)"

definition bind :: "('s \<Rightarrow> ('e + 'a) \<times> 's) \<Rightarrow> ('a \<Rightarrow> 's \<Rightarrow> ('e + 'b) \<times> 's) \<Rightarrow> 's \<Rightarrow> ('e + 'b) \<times> 's" where
  "bind m f w = (case m w of (Inl e, w') \<Rightarrow> (Inl e, w') | (Inr x, w') \<Rightarrow> f x w')"

definition lift :: "'e + 'a \<Rightarrow> 's \<Rightarrow> ('e + 'a) \<times> 's" where
  "lift r w = (r, w)"

fun forEach :: "('a \<Rightarrow> 's \<Rightarrow> ('e + unit) \<times> 's) \<Rightarrow> 'a list \<Rightarrow> 's \<Rightarrow> ('e + unit) \<times> 's" where
  "forEach f [] = ret ()"
| "forEach f (x # xs) = bind (f x) (\<lambda>_. forEach f xs)"

section \<open>Results\<close>

lemma bind_Inr [simp]: "bind m f w = (Inr y, w') \<longleftrightarrow> (\<exists>x w1. m w = (Inr x, w1) \<and> f x w1 = (Inr y, w'))"
  by (auto simp: bind_def split: prod.splits sum.splits)

lemma bind_cases:
  assumes "bind m f w = (r, w')"
  obtains (left) e where "m w = (Inl e, w')" "r = Inl e"
  | (right) x w1 where "m w = (Inr x, w1)" "f x w1 = (r, w')"
  using assms by (auto simp: bind_def split: prod.splits sum.splits)

lemma ret_simps [simp]: "ret x w = (r, w') \<longleftrightarrow> r = Inr x \<and> w' = w"
  by (auto simp: ret_def)

lemma fail_simps [simp]: "fail e w = (r, w') \<longleftrightarrow> r = Inl e \<and> w' = w"
  by (auto simp: fail_def)

lemma lift_simps [simp]: "lift x w = (r, w') \<longleftrightarrow> x = r \<and> w' = w"
  by (auto simp: lift_def)

text \<open>What every step keeps, whether it succeeds or fails, a loop of such steps keeps.\<close>

lemma forEach_inv:
  assumes "\<And>x w r w'. x \<in> set xs \<Longrightarrow> I w \<Longrightarrow> f x w = (r, w') \<Longrightarrow> I w'" "I w" "forEach f xs w = (r, w')"
  shows "I w'"
  using assms
proof (induction xs arbitrary: w)
  case Nil
  then show ?case by simp
next
  case (Cons x xs)
  from Cons.prems(3) have "bind (f x) (\<lambda>_. forEach f xs) w = (r, w')" by simp
  then show ?case
  proof (cases rule: bind_cases)
    case (left e)
    then show ?thesis using Cons.prems(1) [of x w] Cons.prems(2) by auto
  next
    case (right y w1)
    have i: "I w1" using Cons.prems(1) [OF _ Cons.prems(2) right(1)] by simp
    show ?thesis
    proof (rule Cons.IH [OF _ i right(2)])
      fix z v q v' assume "z \<in> set xs" "I v" "f z v = (q, v')"
      then show "I v'" using Cons.prems(1) [of z v q v'] by simp
    qed
  qed
qed

lemma forEach_append:
  "forEach f (xs @ ys) w = (Inr u, w') \<longleftrightarrow> (\<exists>w1. forEach f xs w = (Inr (), w1) \<and> forEach f ys w1 = (Inr u, w'))"
  by (induction xs arbitrary: w) auto

section \<open>Success and frames\<close>

text \<open>An operation that succeeds in every state, and one that leaves a part of the state alone, however it
  ends: both are carried through the constructs by introduction rules.\<close>

definition succeeds :: "('s \<Rightarrow> ('e + 'a) \<times> 's) \<Rightarrow> bool" where
  "succeeds m \<longleftrightarrow> (\<forall>w. \<exists>y w'. m w = (Inr y, w'))"

lemma succeeds_intros:
  "succeeds (ret x)" "succeeds (lift (Inr x))" "succeeds m \<Longrightarrow> (\<And>x. succeeds (f x)) \<Longrightarrow> succeeds (bind m f)"
  "(c \<Longrightarrow> succeeds m) \<Longrightarrow> (\<not> c \<Longrightarrow> succeeds m') \<Longrightarrow> succeeds (if c then m else m')"
  by (auto simp: succeeds_def) (metis)

lemma forEach_works:
  assumes "\<And>x w. x \<in> set xs \<Longrightarrow> I w \<Longrightarrow> \<exists>u w'. f x w = (Inr u, w') \<and> I w'" "I w"
  shows "\<exists>w'. forEach f xs w = (Inr (), w') \<and> I w'"
  using assms
proof (induction xs arbitrary: w)
  case (Cons x xs)
  from Cons.prems(1) [of x w] Cons.prems(2) obtain w1 where w1: "f x w = (Inr (), w1)" "I w1" by auto
  have "\<exists>w'. forEach f xs w1 = (Inr (), w') \<and> I w'" by (rule Cons.IH) (use Cons.prems(1) w1(2) in auto)
  then show ?case using w1(1) by auto
qed simp

definition keeps :: "('s \<Rightarrow> 'b) \<Rightarrow> ('s \<Rightarrow> ('e + 'a) \<times> 's) \<Rightarrow> bool" where
  "keeps p m \<longleftrightarrow> (\<forall>w. p (snd (m w)) = p w)"

lemma keeps_intros:
  "keeps p (ret x)" "keeps p (fail e)" "keeps p (lift r)" "keeps p m \<Longrightarrow> (\<And>x. keeps p (f x)) \<Longrightarrow> keeps p (bind m f)"
  "(c \<Longrightarrow> keeps p m) \<Longrightarrow> (\<not> c \<Longrightarrow> keeps p m') \<Longrightarrow> keeps p (if c then m else m')"
  "keeps p m \<Longrightarrow> keeps p (let y = z in m)"
  by (auto simp: keeps_def ret_def fail_def lift_def bind_def split: prod.splits sum.splits) (metis snd_conv)+

lemma keeps_forEach: "(\<And>x. x \<in> set xs \<Longrightarrow> keeps p (f x)) \<Longrightarrow> keeps p (forEach f xs)"
  by (induction xs) (auto intro: keeps_intros)

lemma keepsD: "keeps p m \<Longrightarrow> m w = (r, w') \<Longrightarrow> p w' = p w"
  unfolding keeps_def by (metis snd_conv)

end
