(* ===== verification/GatewayQuota.thy ===== *)
theory GatewayQuota
  imports Netip GoMap
begin

text \<open>
  \<open>internal/gateway/types.go\<close>, \<open>diff.go\<close> and \<open>quota.go\<close>: the rules a gateway node serves, the
  comparison of desired and active rules, and the node's admission quota. Go maps are association
  lists with distinct keys. The theory shows that the quota's books always balance, that no accepted
  sequence of reservations exceeds a cap or lets a port range collide with another listener, and
  that reserving is idempotent and undone by releasing.
\<close>

section \<open>Rules (types.go)\<close>

record DesiredBackend =
  b_Address :: addr
  b_Port :: u16
  b_USID :: addr

record DesiredRule =
  d_Key :: string
  d_VPCRef :: string
  d_VIPAddresses :: "addr list"
  d_Protocol :: string
  d_Port :: u16
  d_PortEnd :: u16
  d_Affinity :: string
  d_Backends :: "DesiredBackend list"
  d_IPv4Backends :: "DesiredBackend list"

definition backendsFor :: "DesiredRule \<Rightarrow> addr \<Rightarrow> DesiredBackend list" where
  "backendsFor r vip = (if Is4 vip then d_IPv4Backends r else d_Backends r)"

record RuleStatus =
  s_VIPAddresses :: "addr list"
  s_Key :: string
  s_Applied :: bool
  s_Error :: "string"

record EngineStatus =
  es_Healthy :: bool
  es_Rules :: "RuleStatus list"

fun vip_converged_loop :: "RuleStatus list \<Rightarrow> addr \<Rightarrow> bool \<Rightarrow> bool option" where
  "vip_converged_loop [] vip failed = Some failed"
| "vip_converged_loop (r # rs) vip failed =
     (if s_Error r = [] \<and> s_Applied r then vip_converged_loop rs vip failed
      else if s_VIPAddresses r = [] then None
      else if vip \<in> set (s_VIPAddresses r) then None
      else vip_converged_loop rs vip True)"

definition VIPConverged :: "EngineStatus \<Rightarrow> addr \<Rightarrow> bool" where
  "VIPConverged s vip =
     (case vip_converged_loop (es_Rules s) vip False of None \<Rightarrow> False | Some failed \<Rightarrow> es_Healthy s \<or> failed)"

section \<open>Differences (diff.go)\<close>

definition rulesEqual :: "DesiredRule \<Rightarrow> DesiredRule \<Rightarrow> bool" where
  "rulesEqual a b = (d_Key a = d_Key b \<and> d_VPCRef a = d_VPCRef b \<and> d_Protocol a = d_Protocol b \<and>
     d_Port a = d_Port b \<and> d_PortEnd a = d_PortEnd b \<and> d_Affinity a = d_Affinity b \<and>
     d_VIPAddresses a = d_VIPAddresses b \<and> d_Backends a = d_Backends b \<and> d_IPv4Backends a = d_IPv4Backends b)"

type_synonym rule_map = "(string \<times> DesiredRule) list"

definition diffRuleKeys :: "rule_map \<Rightarrow> rule_map \<Rightarrow> string list \<times> string list" where
  "diffRuleKeys active desired =
     (sort (map fst (filter (\<lambda>(key, rule). \<not> (case map_of active key of Some cur \<Rightarrow> rulesEqual cur rule | None \<Rightarrow> False)) desired)),
      sort (map fst (filter (\<lambda>(key, rule). map_of desired key = None) active)))"

section \<open>The quota (quota.go)\<close>

definition protocolUDP :: string where "protocolUDP = ''udp''"
definition MaxRangePorts :: int where "MaxRangePorts = 1024"
definition MaxCoveredPortsPerTenant :: int where "MaxCoveredPortsPerTenant = 4096"
definition MaxRangesPerVIP :: nat where "MaxRangesPerVIP = 16"

record NodeQuotaEnforcer =
  q_maxRulesPerTenant :: int
  q_maxRuleTableEntries :: int
  q_tenantRuleCount :: "(string \<times> int) list"
  q_ruleTenant :: "(string \<times> string) list"
  q_ruleEntries :: "(string \<times> int) list"
  q_totalEntries :: int
  q_rules :: rule_map

definition NewNodeQuotaEnforcer :: "int \<Rightarrow> int \<Rightarrow> NodeQuotaEnforcer" where
  "NewNodeQuotaEnforcer maxRules maxEntries =
     \<lparr>q_maxRulesPerTenant = maxRules, q_maxRuleTableEntries = maxEntries, q_tenantRuleCount = [],
      q_ruleTenant = [], q_ruleEntries = [], q_totalEntries = 0, q_rules = []\<rparr>"

definition portEnd :: "DesiredRule \<Rightarrow> u16" where
  "portEnd rule = (if d_PortEnd rule \<noteq> 0 then d_PortEnd rule else d_Port rule)"

definition covered_ports :: "DesiredRule \<Rightarrow> int" where
  "covered_ports rule = (uint (portEnd rule) - uint (d_Port rule) + 1) * int (length (d_VIPAddresses rule))"

text \<open>The loop over one VIP of the rule: the other rules' rows on that VIP and protocol.\<close>

definition sharing_vip :: "rule_map \<Rightarrow> DesiredRule \<Rightarrow> addr \<Rightarrow> DesiredRule list" where
  "sharing_vip rules rule vip =
     concat (map (\<lambda>(key, other). if key = d_Key rule \<or> d_Protocol other \<noteq> d_Protocol rule then []
        else map (\<lambda>_. other) (filter (\<lambda>ovip. ovip = vip) (d_VIPAddresses other))) rules)"

definition vip_capacity :: "rule_map \<Rightarrow> DesiredRule \<Rightarrow> addr \<Rightarrow> bool" where
  "vip_capacity rules rule vip =
     (let others = sharing_vip rules rule vip
      in if \<exists>other \<in> set others. (d_PortEnd rule \<noteq> 0 \<or> d_PortEnd other \<noteq> 0) \<and>
               d_Port rule \<le> portEnd other \<and> d_Port other \<le> portEnd rule
         then False
         else \<not> ((d_PortEnd rule \<noteq> 0 \<or> (\<exists>other \<in> set others. d_PortEnd other \<noteq> 0)) \<and>
                 1 + length others > MaxRangesPerVIP))"

definition rangeCapacity :: "NodeQuotaEnforcer \<Rightarrow> DesiredRule \<Rightarrow> bool" where
  "rangeCapacity e rule =
     (let end = portEnd rule
      in if d_PortEnd rule \<noteq> 0 \<and> (d_Protocol rule \<noteq> protocolUDP \<or> d_Port rule = 0 \<or> end < d_Port rule \<or>
              uint end - uint (d_Port rule) + 1 > MaxRangePorts)
         then False
         else
          (let others = filter (\<lambda>(key, other). key \<noteq> d_Key rule \<and> d_VPCRef other = d_VPCRef rule) (q_rules e);
               tenantHasRange = (d_PortEnd rule \<noteq> 0 \<or> (\<exists>(key, other) \<in> set others. d_PortEnd other \<noteq> 0));
               covered = covered_ports rule + sum_list (map (\<lambda>(key, other). covered_ports other) others)
           in if tenantHasRange \<and> covered > MaxCoveredPortsPerTenant then False
              else list_all (vip_capacity (q_rules e) rule) (d_VIPAddresses rule)))"

definition CheckAndReserve :: "NodeQuotaEnforcer \<Rightarrow> DesiredRule \<Rightarrow> bool \<times> NodeQuotaEnforcer" where
  "CheckAndReserve e rule =
     (if \<not> rangeCapacity e rule then (False, e)
      else
       (let entries = (if d_VIPAddresses rule = [] then 1 else int (length (d_VIPAddresses rule)));
            prevEntries = get 0 (q_ruleEntries e) (d_Key rule);
            alreadyReserved = (map_of (q_ruleEntries e) (d_Key rule) \<noteq> None);
            prevTenant = get [] (q_ruleTenant e) (d_Key rule);
            moved = (alreadyReserved \<and> prevTenant \<noteq> d_VPCRef rule);
            tenantCount = get 0 (q_tenantRuleCount e) (d_VPCRef rule) + (if \<not> alreadyReserved \<or> moved then 1 else 0)
        in if tenantCount > q_maxRulesPerTenant e then (False, e)
           else
            (let projectedTotal = q_totalEntries e - prevEntries + entries
             in if projectedTotal > q_maxRuleTableEntries e then (False, e)
                else
                 (let n = get 0 (q_tenantRuleCount e) prevTenant - 1;
                      counts = (if moved
                                then (if n \<le> 0 then AList.delete prevTenant (q_tenantRuleCount e)
                                      else AList.update prevTenant n (q_tenantRuleCount e))
                                else q_tenantRuleCount e);
                      counts = (if \<not> alreadyReserved \<or> moved then AList.update (d_VPCRef rule) tenantCount counts else counts)
                  in (True, e\<lparr>q_tenantRuleCount := counts,
                              q_rules := AList.update (d_Key rule) rule (q_rules e),
                              q_ruleTenant := AList.update (d_Key rule) (d_VPCRef rule) (q_ruleTenant e),
                              q_ruleEntries := AList.update (d_Key rule) entries (q_ruleEntries e),
                              q_totalEntries := projectedTotal\<rparr>)))))"

definition Release :: "NodeQuotaEnforcer \<Rightarrow> string \<Rightarrow> NodeQuotaEnforcer" where
  "Release e key =
     (case map_of (q_ruleEntries e) key of
        None \<Rightarrow> e
      | Some entries \<Rightarrow>
          (let tenant = get [] (q_ruleTenant e) key;
               total = q_totalEntries e - entries;
               n = get 0 (q_tenantRuleCount e) tenant - 1
           in e\<lparr>q_totalEntries := (if total < 0 then 0 else total),
                q_tenantRuleCount := (if n \<le> 0 then AList.delete tenant (q_tenantRuleCount e)
                                      else AList.update tenant n (q_tenantRuleCount e)),
                q_ruleEntries := AList.delete key (q_ruleEntries e),
                q_rules := AList.delete key (q_rules e),
                q_ruleTenant := AList.delete key (q_ruleTenant e)\<rparr>))"

section \<open>Invariants\<close>

definition rule_rows :: "DesiredRule \<Rightarrow> int" where
  "rule_rows r = max 1 (int (length (d_VIPAddresses r)))"

definition tenant_count :: "rule_map \<Rightarrow> string \<Rightarrow> int" where
  "tenant_count rules t = sum_list (map (\<lambda>(k, r). of_bool (d_VPCRef r = t)) rules)"

definition total_rows :: "rule_map \<Rightarrow> int" where
  "total_rows rules = sum_list (map (\<lambda>(k, r). rule_rows r) rules)"

text \<open>The books: every figure the enforcer keeps is the one its reserved rules add up to.\<close>

definition quota_books :: "NodeQuotaEnforcer \<Rightarrow> bool" where
  "quota_books e \<longleftrightarrow> distinct (map fst (q_rules e)) \<and> (\<forall>(k, r) \<in> set (q_rules e). d_Key r = k) \<and>
     (\<forall>k. map_of (q_ruleTenant e) k = map_option d_VPCRef (map_of (q_rules e) k)) \<and>
     (\<forall>k. map_of (q_ruleEntries e) k = map_option rule_rows (map_of (q_rules e) k)) \<and>
     q_totalEntries e = total_rows (q_rules e) \<and>
     (\<forall>t. map_of (q_tenantRuleCount e) t =
        (if tenant_count (q_rules e) t = 0 then None else Some (tenant_count (q_rules e) t)))"

text \<open>The caps.\<close>

definition quota_caps :: "NodeQuotaEnforcer \<Rightarrow> bool" where
  "quota_caps e \<longleftrightarrow> (\<forall>t. tenant_count (q_rules e) t = 0 \<or> tenant_count (q_rules e) t \<le> q_maxRulesPerTenant e) \<and>
     (q_rules e = [] \<or> total_rows (q_rules e) \<le> q_maxRuleTableEntries e)"

text \<open>The port ranges: a range is a UDP range of bounded width; a tenant with a range covers a bounded
  number of ports; a range never meets another listener on the same address and protocol; and an
  address with a range carries a bounded number of listeners.\<close>

definition valid_port_range :: "DesiredRule \<Rightarrow> bool" where
  "valid_port_range r \<longleftrightarrow> (d_PortEnd r \<noteq> 0 \<longrightarrow> d_Protocol r = protocolUDP \<and> d_Port r \<noteq> 0 \<and> d_Port r \<le> d_PortEnd r \<and>
     uint (d_PortEnd r) - uint (d_Port r) + 1 \<le> MaxRangePorts)"

definition tenant_covered :: "rule_map \<Rightarrow> string \<Rightarrow> int" where
  "tenant_covered rules t = sum_list (map (\<lambda>(k, r). if d_VPCRef r = t then covered_ports r else 0) rules)"

definition ports_meet :: "DesiredRule \<Rightarrow> DesiredRule \<Rightarrow> bool" where
  "ports_meet a b \<longleftrightarrow> d_Port a \<le> portEnd b \<and> d_Port b \<le> portEnd a"

definition on_vip :: "rule_map \<Rightarrow> string \<Rightarrow> addr \<Rightarrow> int" where
  "on_vip rules proto vip = sum_list (map (\<lambda>(k, r). of_bool (d_Protocol r = proto \<and> vip \<in> set (d_VIPAddresses r))) rules)"

definition quota_ranges :: "rule_map \<Rightarrow> bool" where
  "quota_ranges rules \<longleftrightarrow>
     (\<forall>k r. (k, r) \<in> set rules \<longrightarrow> valid_port_range r) \<and>
     (\<forall>k r. (k, r) \<in> set rules \<longrightarrow> d_PortEnd r \<noteq> 0 \<longrightarrow>
        tenant_covered rules (d_VPCRef r) \<le> MaxCoveredPortsPerTenant) \<and>
     (\<forall>k a k' b vip. (k, a) \<in> set rules \<longrightarrow> (k', b) \<in> set rules \<longrightarrow> k \<noteq> k' \<longrightarrow> d_Protocol a = d_Protocol b \<longrightarrow>
        d_PortEnd a \<noteq> 0 \<longrightarrow> vip \<in> set (d_VIPAddresses a) \<longrightarrow> vip \<in> set (d_VIPAddresses b) \<longrightarrow> \<not> ports_meet a b) \<and>
     (\<forall>k r vip. (k, r) \<in> set rules \<longrightarrow> vip \<in> set (d_VIPAddresses r) \<longrightarrow> d_PortEnd r \<noteq> 0 \<longrightarrow>
        on_vip rules (d_Protocol r) vip \<le> int MaxRangesPerVIP)"

inductive quota_reachable :: "int \<Rightarrow> int \<Rightarrow> NodeQuotaEnforcer \<Rightarrow> bool" for maxRules maxEntries where
  start: "quota_reachable maxRules maxEntries (NewNodeQuotaEnforcer maxRules maxEntries)"
| reserve: "quota_reachable maxRules maxEntries e \<Longrightarrow> quota_reachable maxRules maxEntries (snd (CheckAndReserve e rule))"
| release: "quota_reachable maxRules maxEntries e \<Longrightarrow> quota_reachable maxRules maxEntries (Release e key)"

section \<open>The books balance\<close>

lemma tenant_count_nonneg: "0 \<le> tenant_count rules t"
  by (auto simp: tenant_count_def intro: sum_list_nonneg_int)

lemma total_rows_nonneg: "0 \<le> total_rows rules"
  by (auto simp: total_rows_def rule_rows_def intro!: sum_list_nonneg_int)

lemma rule_rows_eq: "(if d_VIPAddresses r = [] then 1 else int (length (d_VIPAddresses r))) = rule_rows r"
  by (cases "d_VIPAddresses r") (auto simp: rule_rows_def)

lemma tenant_count_update:
  "distinct (map fst m) \<Longrightarrow> tenant_count (AList.update k r m) t = of_bool (d_VPCRef r = t) + tenant_count (AList.delete k m) t"
  by (simp add: tenant_count_def sum_update)

lemma tenant_count_delete:
  "distinct (map fst m) \<Longrightarrow>
   tenant_count m t = (case map_of m k of None \<Rightarrow> 0 | Some r \<Rightarrow> of_bool (d_VPCRef r = t)) + tenant_count (AList.delete k m) t"
  by (simp add: tenant_count_def sum_delete [of m _ k] split: option.split)

lemma total_rows_update:
  "distinct (map fst m) \<Longrightarrow> total_rows (AList.update k r m) = rule_rows r + total_rows (AList.delete k m)"
  by (simp add: total_rows_def sum_update)

lemma total_rows_delete:
  "distinct (map fst m) \<Longrightarrow>
   total_rows m = (case map_of m k of None \<Rightarrow> 0 | Some r \<Rightarrow> rule_rows r) + total_rows (AList.delete k m)"
  by (simp add: total_rows_def sum_delete [of m _ k] split: option.split)

lemma get_count: "quota_books e \<Longrightarrow> get 0 (q_tenantRuleCount e) t = tenant_count (q_rules e) t"
  by (auto simp: quota_books_def get_def)

text \<open>Taking one rule out of a tenant's count, and putting one in.\<close>

lemma map_of_decrement:
  fixes n :: int
  assumes "map_of counts s = Some n" "1 \<le> n"
  shows "map_of (if n - 1 \<le> 0 then AList.delete s counts else AList.update s (n - 1) counts) s'
    = (if s' = s then (if n - 1 = 0 then None else Some (n - 1)) else map_of counts s')"
  using assms by (auto simp: delete_conv' update_conv')

lemma Release_books:
  assumes "quota_books e"
  shows "quota_books (Release e key)"
proof (cases "map_of (q_rules e) key")
  case None
  then show ?thesis using assms by (auto simp: Release_def quota_books_def split: option.split)
next
  case (Some r)
  note b = assms [unfolded quota_books_def]
  let ?n = "\<lambda>t. tenant_count (q_rules e) t"
  have ent: "map_of (q_ruleEntries e) key = Some (rule_rows r)" "get [] (q_ruleTenant e) key = d_VPCRef r"
    using b Some by (simp_all add: get_def)
  have cnt: "?n t = of_bool (d_VPCRef r = t) + tenant_count (AList.delete key (q_rules e)) t" for t
    using b Some tenant_count_delete [of "q_rules e" t key] by simp
  have tot: "total_rows (q_rules e) = rule_rows r + total_rows (AList.delete key (q_rules e))"
    using b Some total_rows_delete [of "q_rules e" key] by simp
  have pos: "1 \<le> ?n (d_VPCRef r)" using cnt [of "d_VPCRef r"] tenant_count_nonneg [of "AList.delete key (q_rules e)"] by simp
  have counts: "map_of (q_tenantRuleCount (Release e key)) t =
      (if tenant_count (AList.delete key (q_rules e)) t = 0 then None else Some (tenant_count (AList.delete key (q_rules e)) t))" for t
    using map_of_decrement [of "q_tenantRuleCount e" "d_VPCRef r" "?n (d_VPCRef r)" t] b pos cnt [of t] cnt [of "d_VPCRef r"] ent
    by (auto simp: Release_def Let_def get_count [OF assms])
  show ?thesis
    unfolding quota_books_def
    using b ent tot total_rows_nonneg [of "AList.delete key (q_rules e)"] counts
    by (auto simp: Release_def Let_def delete_conv' distinct_delete set_delete)
qed

lemma CheckAndReserve_refused: "CheckAndReserve e rule = (False, e') \<Longrightarrow> e' = e"
  by (auto simp: CheckAndReserve_def Let_def split: if_splits)

lemma reserved_tenant_count:
  assumes "quota_books e"
  shows "get 0 (q_tenantRuleCount e) (d_VPCRef rule) +
      (if map_of (q_ruleEntries e) (d_Key rule) = None \<or> get [] (q_ruleTenant e) (d_Key rule) \<noteq> d_VPCRef rule then 1 else 0)
    = tenant_count (AList.update (d_Key rule) rule (q_rules e)) (d_VPCRef rule)"
proof -
  note b = assms [unfolded quota_books_def]
  show ?thesis
    using b tenant_count_update [of "q_rules e" "d_Key rule" rule] tenant_count_delete [of "q_rules e" "d_VPCRef rule" "d_Key rule"]
    by (auto simp: get_count [OF assms] get_def split: option.splits)
qed

lemma reserved_total:
  assumes "quota_books e"
  shows "q_totalEntries e - get 0 (q_ruleEntries e) (d_Key rule) + rule_rows rule
    = total_rows (AList.update (d_Key rule) rule (q_rules e))"
proof -
  note b = assms [unfolded quota_books_def]
  show ?thesis
    using b total_rows_update [of "q_rules e" "d_Key rule" rule] total_rows_delete [of "q_rules e" "d_Key rule"]
    by (auto simp: get_def split: option.splits)
qed

text \<open>What an accepted reservation checked and wrote.\<close>

lemma CheckAndReserve_accepted:
  assumes "quota_books e" "CheckAndReserve e rule = (True, e')"
  defines "R' \<equiv> AList.update (d_Key rule) rule (q_rules e)"
  shows "rangeCapacity e rule" "tenant_count R' (d_VPCRef rule) \<le> q_maxRulesPerTenant e"
    "total_rows R' \<le> q_maxRuleTableEntries e" "q_rules e' = R'" "q_totalEntries e' = total_rows R'"
    "q_ruleTenant e' = AList.update (d_Key rule) (d_VPCRef rule) (q_ruleTenant e)"
    "q_ruleEntries e' = AList.update (d_Key rule) (rule_rows rule) (q_ruleEntries e)"
    "q_maxRulesPerTenant e' = q_maxRulesPerTenant e" "q_maxRuleTableEntries e' = q_maxRuleTableEntries e"
proof -
  have cond: "(\<not> already \<or> already \<and> tenant \<noteq> v) \<longleftrightarrow> (\<not> already \<or> tenant \<noteq> v)" for already tenant and v :: string by blast
  note run = assms(2) [unfolded CheckAndReserve_def Let_def rule_rows_eq cond not_not
      reserved_tenant_count [OF assms(1)] reserved_total [OF assms(1)]]
  show "rangeCapacity e rule" "tenant_count R' (d_VPCRef rule) \<le> q_maxRulesPerTenant e"
    "total_rows R' \<le> q_maxRuleTableEntries e" "q_rules e' = R'" "q_totalEntries e' = total_rows R'"
    "q_ruleTenant e' = AList.update (d_Key rule) (d_VPCRef rule) (q_ruleTenant e)"
    "q_ruleEntries e' = AList.update (d_Key rule) (rule_rows rule) (q_ruleEntries e)"
    "q_maxRulesPerTenant e' = q_maxRulesPerTenant e" "q_maxRuleTableEntries e' = q_maxRuleTableEntries e"
    using run by (auto simp: R'_def split: if_splits)
qed

lemma CheckAndReserve_counts:
  assumes "quota_books e" "CheckAndReserve e rule = (True, e')"
  shows "map_of (q_tenantRuleCount e') t =
    (let n = tenant_count (AList.update (d_Key rule) rule (q_rules e)) t in if n = 0 then None else Some n)"
proof -
  note b = assms(1) [unfolded quota_books_def]
  let ?D = "AList.delete (d_Key rule) (q_rules e)" and ?n = "\<lambda>t. tenant_count (q_rules e) t"
  have upd: "tenant_count (AList.update (d_Key rule) rule (q_rules e)) t = of_bool (d_VPCRef rule = t) + tenant_count ?D t" for t
    using b tenant_count_update by blast
  have del: "?n t = (case map_of (q_rules e) (d_Key rule) of None \<Rightarrow> 0 | Some r \<Rightarrow> of_bool (d_VPCRef r = t)) + tenant_count ?D t" for t
    using b tenant_count_delete by blast
  have cnt: "map_of (q_tenantRuleCount e) t = (if ?n t = 0 then None else Some (?n t))" for t using b by blast
  note nonneg = tenant_count_nonneg [of ?D]
  consider (fresh) "map_of (q_rules e) (d_Key rule) = None"
    | (same) r where "map_of (q_rules e) (d_Key rule) = Some r" "d_VPCRef r = d_VPCRef rule"
    | (moved) r where "map_of (q_rules e) (d_Key rule) = Some r" "d_VPCRef r \<noteq> d_VPCRef rule"
    by (cases "map_of (q_rules e) (d_Key rule)") auto
  then show ?thesis
  proof cases
    case fresh
    then have "q_tenantRuleCount e' = AList.update (d_VPCRef rule) (?n (d_VPCRef rule) + 1) (q_tenantRuleCount e)"
      using assms(2) b by (auto simp: CheckAndReserve_def Let_def get_count [OF assms(1)] split: if_splits)
    then have "map_of (q_tenantRuleCount e') t = (if t = d_VPCRef rule then Some (?n t + 1) else map_of (q_tenantRuleCount e) t)"
      by (simp add: update_conv')
    then show ?thesis using nonneg [of t] by (cases "t = d_VPCRef rule") (simp_all add: upd del cnt fresh Let_def)
  next
    case same
    then have "q_tenantRuleCount e' = q_tenantRuleCount e"
    proof -
      have "get [] (q_ruleTenant e) (d_Key rule) = d_VPCRef rule" "map_of (q_ruleEntries e) (d_Key rule) \<noteq> None"
        using b same by (simp_all add: get_def)
      then show ?thesis using assms(2) by (simp add: CheckAndReserve_def Let_def split: if_splits) auto
    qed
    then show ?thesis by (simp add: upd del cnt same Let_def)
  next
    case moved
    then have pos: "1 \<le> ?n (d_VPCRef r)" using del [of "d_VPCRef r"] nonneg [of "d_VPCRef r"] by simp
    have "q_tenantRuleCount e' = AList.update (d_VPCRef rule) (?n (d_VPCRef rule) + 1)
        (if ?n (d_VPCRef r) - 1 \<le> 0 then AList.delete (d_VPCRef r) (q_tenantRuleCount e)
         else AList.update (d_VPCRef r) (?n (d_VPCRef r) - 1) (q_tenantRuleCount e))"
    proof -
      have "get [] (q_ruleTenant e) (d_Key rule) = d_VPCRef r" "map_of (q_ruleEntries e) (d_Key rule) \<noteq> None"
        using b moved by (simp_all add: get_def)
      then show ?thesis using assms(2) moved(2)
        by (simp add: CheckAndReserve_def Let_def get_count [OF assms(1)] split: if_splits) auto
    qed
    then have "map_of (q_tenantRuleCount e') t = (if t = d_VPCRef rule then Some (?n t + 1)
        else if t = d_VPCRef r then (if ?n t - 1 = 0 then None else Some (?n t - 1)) else map_of (q_tenantRuleCount e) t)"
      using map_of_decrement [of "q_tenantRuleCount e" "d_VPCRef r" "?n (d_VPCRef r)" t] pos cnt [of "d_VPCRef r"]
      by (simp add: update_conv')
    moreover have "?n t = of_bool (d_VPCRef r = t) + tenant_count ?D t" using del [of t] moved(1) by simp
    ultimately show ?thesis using moved(2) nonneg [of t] upd [of t] cnt [of t]
      by (cases "t = d_VPCRef rule"; cases "t = d_VPCRef r") (simp_all add: Let_def)
  qed
qed

lemma CheckAndReserve_books:
  assumes "quota_books e"
  shows "quota_books (snd (CheckAndReserve e rule))"
proof (cases "CheckAndReserve e rule")
  case (Pair ok e')
  show ?thesis
  proof (cases ok)
    case False
    with Pair show ?thesis using assms CheckAndReserve_refused by fastforce
  next
    case True
    with Pair have acc: "CheckAndReserve e rule = (True, e')" by simp
    note b = assms [unfolded quota_books_def]
    have "quota_books e'"
      unfolding quota_books_def CheckAndReserve_accepted(4-7) [OF assms acc] CheckAndReserve_counts [OF assms acc] Let_def
      using b by (auto simp: distinct_update update_conv' set_update set_delete)
    with acc show ?thesis by simp
  qed
qed

section \<open>Caps and ranges\<close>

lemma Release_rules: "quota_books e \<Longrightarrow> q_rules (Release e key) = AList.delete key (q_rules e)"
proof -
  assume "quota_books e"
  then have entries: "map_of (q_ruleEntries e) key = map_option rule_rows (map_of (q_rules e) key)" by (simp add: quota_books_def)
  then show ?thesis
  proof (cases "map_of (q_rules e) key")
    case None
    then have "AList.delete key (q_rules e) = q_rules e" by (simp add: delete_absent map_of_eq_None_iff)
    with entries None show ?thesis by (simp add: Release_def)
  qed (simp add: Release_def Let_def)
qed

lemma Release_limits [simp]:
  "q_maxRulesPerTenant (Release e key) = q_maxRulesPerTenant e" "q_maxRuleTableEntries (Release e key) = q_maxRuleTableEntries e"
  by (auto simp: Release_def Let_def split: option.split)

lemma delete_le:
  "distinct (map fst m) \<Longrightarrow> tenant_count (AList.delete k m) t \<le> tenant_count m t"
  "distinct (map fst m) \<Longrightarrow> total_rows (AList.delete k m) \<le> total_rows m"
  using tenant_count_delete [of m t k] total_rows_delete [of m k]
  by (auto simp: rule_rows_def split: option.splits)

lemma caps_Release:
  assumes "quota_books e" "quota_caps e"
  shows "quota_caps (Release e key)"
proof -
  have d: "distinct (map fst (q_rules e))" using assms(1) by (simp add: quota_books_def)
  have "tenant_count (AList.delete key (q_rules e)) t = 0 \<or> tenant_count (AList.delete key (q_rules e)) t \<le> q_maxRulesPerTenant e" for t
    using assms(2) delete_le(1) [OF d, of key t] tenant_count_nonneg [of "AList.delete key (q_rules e)" t]
    unfolding quota_caps_def by (metis dual_order.trans antisym)
  moreover have "AList.delete key (q_rules e) = [] \<or> total_rows (AList.delete key (q_rules e)) \<le> q_maxRuleTableEntries e"
    using assms(2) delete_le(2) [OF d, of key] unfolding quota_caps_def by (auto simp: AList.delete_eq)
  ultimately show ?thesis using assms(1) by (simp add: quota_caps_def Release_rules)
qed

lemma caps_reserve:
  assumes "quota_books e" "quota_caps e" "CheckAndReserve e rule = (True, e')"
  shows "quota_caps e'"
proof -
  note acc = CheckAndReserve_accepted [OF assms(1,3)]
  have d: "distinct (map fst (q_rules e))" using assms(1) by (simp add: quota_books_def)
  have "tenant_count (q_rules e') t = 0 \<or> tenant_count (q_rules e') t \<le> q_maxRulesPerTenant e" for t
  proof (cases "t = d_VPCRef rule")
    case False
    then have "tenant_count (q_rules e') t = tenant_count (AList.delete (d_Key rule) (q_rules e)) t"
      using acc(4) tenant_count_update [OF d] by simp
    then show ?thesis
      using assms(2) delete_le(1) [OF d, of "d_Key rule" t] tenant_count_nonneg [of "AList.delete (d_Key rule) (q_rules e)" t]
      unfolding quota_caps_def by (metis dual_order.trans antisym)
  qed (use acc(2,4) in simp)
  then show ?thesis using acc(3,4,8,9) by (simp add: quota_caps_def)
qed

lemma covered_nonneg: "valid_port_range r \<Longrightarrow> 0 \<le> covered_ports r"
  by (auto simp: valid_port_range_def covered_ports_def portEnd_def word_le_def)

lemma tenant_covered_update:
  "distinct (map fst m) \<Longrightarrow> tenant_covered (AList.update k r m) t =
     (if d_VPCRef r = t then covered_ports r else 0) + tenant_covered (AList.delete k m) t"
  by (simp add: tenant_covered_def sum_update)

lemma on_vip_update:
  "distinct (map fst m) \<Longrightarrow> on_vip (AList.update k r m) proto vip =
     of_bool (d_Protocol r = proto \<and> vip \<in> set (d_VIPAddresses r)) + on_vip (AList.delete k m) proto vip"
  by (simp add: on_vip_def sum_update)

lemma on_vip_delete_le: "distinct (map fst m) \<Longrightarrow> on_vip (AList.delete k m) proto vip \<le> on_vip m proto vip"
  using sum_delete [of m "\<lambda>(k, r). of_bool (d_Protocol r = proto \<and> vip \<in> set (d_VIPAddresses r))" k]
  by (auto simp: on_vip_def split: option.splits)

lemma tenant_covered_delete_le:
  assumes "distinct (map fst m)" "\<forall>(k, r) \<in> set m. valid_port_range r"
  shows "tenant_covered (AList.delete k m) t \<le> tenant_covered m t"
proof (cases "map_of m k")
  case None
  then show ?thesis by (simp add: delete_absent map_of_eq_None_iff)
next
  case (Some r)
  then have "0 \<le> covered_ports r" using assms(2) covered_nonneg map_of_SomeD [OF Some] by blast
  then show ?thesis
    using sum_delete [OF assms(1), of "\<lambda>(k, r). if d_VPCRef r = t then covered_ports r else 0" k] Some
    by (simp add: tenant_covered_def)
qed

lemma quota_rangesI:
  assumes "\<And>k r. (k, r) \<in> set rules \<Longrightarrow> valid_port_range r"
    and "\<And>k r. (k, r) \<in> set rules \<Longrightarrow> d_PortEnd r \<noteq> 0 \<Longrightarrow> tenant_covered rules (d_VPCRef r) \<le> MaxCoveredPortsPerTenant"
    and "\<And>k a k' b vip. (k, a) \<in> set rules \<Longrightarrow> (k', b) \<in> set rules \<Longrightarrow> k \<noteq> k' \<Longrightarrow> d_Protocol a = d_Protocol b \<Longrightarrow>
      d_PortEnd a \<noteq> 0 \<Longrightarrow> vip \<in> set (d_VIPAddresses a) \<Longrightarrow> vip \<in> set (d_VIPAddresses b) \<Longrightarrow> \<not> ports_meet a b"
    and "\<And>k r vip. (k, r) \<in> set rules \<Longrightarrow> vip \<in> set (d_VIPAddresses r) \<Longrightarrow> d_PortEnd r \<noteq> 0 \<Longrightarrow>
      on_vip rules (d_Protocol r) vip \<le> int MaxRangesPerVIP"
  shows "quota_ranges rules"
  using assms unfolding quota_ranges_def by (intro conjI allI impI)

lemma quota_rangesD:
  assumes "quota_ranges rules"
  shows "(k, r) \<in> set rules \<Longrightarrow> valid_port_range r"
    and "(k, r) \<in> set rules \<Longrightarrow> d_PortEnd r \<noteq> 0 \<Longrightarrow> tenant_covered rules (d_VPCRef r) \<le> MaxCoveredPortsPerTenant"
    and "(k, a) \<in> set rules \<Longrightarrow> (k', b) \<in> set rules \<Longrightarrow> k \<noteq> k' \<Longrightarrow> d_Protocol a = d_Protocol b \<Longrightarrow>
      d_PortEnd a \<noteq> 0 \<Longrightarrow> vip \<in> set (d_VIPAddresses a) \<Longrightarrow> vip \<in> set (d_VIPAddresses b) \<Longrightarrow> \<not> ports_meet a b"
    and "(k, r) \<in> set rules \<Longrightarrow> vip \<in> set (d_VIPAddresses r) \<Longrightarrow> d_PortEnd r \<noteq> 0 \<Longrightarrow>
      on_vip rules (d_Protocol r) vip \<le> int MaxRangesPerVIP"
  using assms unfolding quota_ranges_def by blast+

lemma ranges_delete:
  assumes "distinct (map fst m)" "quota_ranges m"
  shows "quota_ranges (AList.delete k m)"
proof -
  have cov: "tenant_covered (AList.delete k m) t \<le> tenant_covered m t" for t
    using tenant_covered_delete_le assms(1) quota_rangesD(1) [OF assms(2)] by blast
  have vips: "on_vip (AList.delete k m) proto vip \<le> on_vip m proto vip" for proto vip
    using on_vip_delete_le assms(1) by blast
  have sub: "p \<in> set m" if "p \<in> set (AList.delete k m)" for p using that by (simp add: set_delete)
  show ?thesis
  proof (rule quota_rangesI)
    show "tenant_covered (AList.delete k m) (d_VPCRef r) \<le> MaxCoveredPortsPerTenant"
      if "(k', r) \<in> set (AList.delete k m)" "d_PortEnd r \<noteq> 0" for k' r
      using quota_rangesD(2) [OF assms(2) sub [OF that(1)] that(2)] cov [of "d_VPCRef r"] by simp
    show "on_vip (AList.delete k m) (d_Protocol r) vip \<le> int MaxRangesPerVIP"
      if "(k', r) \<in> set (AList.delete k m)" "vip \<in> set (d_VIPAddresses r)" "d_PortEnd r \<noteq> 0" for k' r vip
      using quota_rangesD(4) [OF assms(2) sub [OF that(1)] that(2,3)] vips [of "d_Protocol r" vip] by simp
  qed (use quota_rangesD(1,3) [OF assms(2)] sub in blast)+
qed

lemma sharing_vip_simps:
  "sharing_vip [] rule vip = []"
  "sharing_vip ((k, other) # rules) rule vip =
     (if k = d_Key rule \<or> d_Protocol other \<noteq> d_Protocol rule then []
      else map (\<lambda>_. other) (filter (\<lambda>ovip. ovip = vip) (d_VIPAddresses other))) @ sharing_vip rules rule vip"
  by (simp_all add: sharing_vip_def)

lemma sharing_vip_mem:
  assumes "(k, other) \<in> set rules" "k \<noteq> d_Key rule" "d_Protocol other = d_Protocol rule" "vip \<in> set (d_VIPAddresses other)"
  shows "other \<in> set (sharing_vip rules rule vip)"
  using assms(1)
proof (induction rules)
  case (Cons p rules)
  obtain k' r where p: "p = (k', r)" by (cases p)
  show ?case
  proof (cases "(k, other) = p")
    case True
    with p assms(2-4) show ?thesis by (simp add: sharing_vip_simps image_iff)
  next
    case False
    with Cons have "other \<in> set (sharing_vip rules rule vip)" by auto
    with p show ?thesis by (simp add: sharing_vip_simps)
  qed
qed simp

lemma sharing_vip_length:
  "on_vip (AList.delete (d_Key rule) rules) (d_Protocol rule) vip \<le> int (length (sharing_vip rules rule vip))"
proof (induction rules)
  case (Cons p rules)
  obtain k r where p: "p = (k, r)" by (cases p)
  have "1 \<le> length (filter (\<lambda>ovip. ovip = vip) (d_VIPAddresses r))" if "vip \<in> set (d_VIPAddresses r)"
    using that by (simp add: Suc_le_eq filter_empty_conv)
  with Cons p show ?case by (auto simp: sharing_vip_simps on_vip_def AList.delete_eq)
qed (simp add: sharing_vip_simps on_vip_def AList.delete_eq)

lemma tenant_covered_others:
  "sum_list (map (\<lambda>(key, other). covered_ports other) (filter (\<lambda>(key, other). key \<noteq> k \<and> d_VPCRef other = t) rules))
    = tenant_covered (AList.delete k rules) t"
  by (induction rules) (auto simp: tenant_covered_def AList.delete_eq split: if_splits)

text \<open>What a passed range check established.\<close>

lemma rangeCapacityD:
  assumes "rangeCapacity e rule" "distinct (map fst (q_rules e))"
  shows "valid_port_range rule"
    and "d_PortEnd rule \<noteq> 0 \<or> (k \<noteq> d_Key rule \<and> (k, other) \<in> set (q_rules e) \<and> d_VPCRef other = d_VPCRef rule \<and> d_PortEnd other \<noteq> 0) \<Longrightarrow>
      tenant_covered (AList.update (d_Key rule) rule (q_rules e)) (d_VPCRef rule) \<le> MaxCoveredPortsPerTenant"
    and "vip \<in> set (d_VIPAddresses rule) \<Longrightarrow> vip_capacity (q_rules e) rule vip"
proof -
  note c = assms(1) [unfolded rangeCapacity_def Let_def tenant_covered_others]
  show "valid_port_range rule"
    using c unfolding valid_port_range_def portEnd_def by (auto simp: not_less split: if_splits)
  show "vip_capacity (q_rules e) rule vip" if "vip \<in> set (d_VIPAddresses rule)"
    using c that by (simp add: list_all_iff split: if_splits)
  have upd: "tenant_covered (AList.update (d_Key rule) rule (q_rules e)) (d_VPCRef rule)
      = covered_ports rule + tenant_covered (AList.delete (d_Key rule) (q_rules e)) (d_VPCRef rule)"
    using tenant_covered_update [OF assms(2)] by simp
  show "tenant_covered (AList.update (d_Key rule) rule (q_rules e)) (d_VPCRef rule) \<le> MaxCoveredPortsPerTenant"
    if "d_PortEnd rule \<noteq> 0 \<or> (k \<noteq> d_Key rule \<and> (k, other) \<in> set (q_rules e) \<and> d_VPCRef other = d_VPCRef rule \<and> d_PortEnd other \<noteq> 0)"
  proof -
    have "d_PortEnd rule \<noteq> 0 \<or> (\<exists>(key, other) \<in> set (filter (\<lambda>(key, other). key \<noteq> d_Key rule \<and> d_VPCRef other = d_VPCRef rule) (q_rules e)).
        d_PortEnd other \<noteq> 0)" using that by auto
    then show ?thesis using c upd by (simp only: if_True split: if_splits) auto
  qed
qed

text \<open>A passed check on one address: no range meets another listener there, and a range there bounds
  the number of listeners.\<close>

lemma vip_capacityD:
  assumes "vip_capacity rules rule vip"
  shows "\<lbrakk>k \<noteq> d_Key rule; (k, other) \<in> set rules; d_Protocol other = d_Protocol rule; vip \<in> set (d_VIPAddresses other);
      d_PortEnd rule \<noteq> 0 \<or> d_PortEnd other \<noteq> 0\<rbrakk> \<Longrightarrow> \<not> ports_meet rule other"
    and "d_PortEnd rule \<noteq> 0 \<or> (k \<noteq> d_Key rule \<and> (k, other) \<in> set rules \<and> d_Protocol other = d_Protocol rule \<and>
        vip \<in> set (d_VIPAddresses other) \<and> d_PortEnd other \<noteq> 0) \<Longrightarrow>
      1 + on_vip (AList.delete (d_Key rule) rules) (d_Protocol rule) vip \<le> int MaxRangesPerVIP"
proof -
  note c = assms [unfolded vip_capacity_def Let_def]
  show "\<not> ports_meet rule other"
    if "k \<noteq> d_Key rule" "(k, other) \<in> set rules" "d_Protocol other = d_Protocol rule" "vip \<in> set (d_VIPAddresses other)"
      "d_PortEnd rule \<noteq> 0 \<or> d_PortEnd other \<noteq> 0"
    using c sharing_vip_mem [OF that(2,1,3,4)] that(5) unfolding ports_meet_def by (auto split: if_splits)
  show "1 + on_vip (AList.delete (d_Key rule) rules) (d_Protocol rule) vip \<le> int MaxRangesPerVIP"
    if "d_PortEnd rule \<noteq> 0 \<or> (k \<noteq> d_Key rule \<and> (k, other) \<in> set rules \<and> d_Protocol other = d_Protocol rule \<and>
        vip \<in> set (d_VIPAddresses other) \<and> d_PortEnd other \<noteq> 0)"
  proof -
    have "d_PortEnd rule \<noteq> 0 \<or> (\<exists>other \<in> set (sharing_vip rules rule vip). d_PortEnd other \<noteq> 0)"
      using that sharing_vip_mem by blast
    then have "1 + length (sharing_vip rules rule vip) \<le> MaxRangesPerVIP" using c by (auto split: if_splits)
    then show ?thesis using sharing_vip_length [of rule rules vip] by linarith
  qed
qed

lemma ports_meet_sym: "ports_meet a b \<longleftrightarrow> ports_meet b a"
  by (auto simp: ports_meet_def)

lemma ranges_reserve:
  assumes "quota_books e" "quota_ranges (q_rules e)" "rangeCapacity e rule"
  shows "quota_ranges (AList.update (d_Key rule) rule (q_rules e))"
proof -
  let ?R = "AList.update (d_Key rule) rule (q_rules e)" and ?D = "AList.delete (d_Key rule) (q_rules e)"
  have d: "distinct (map fst (q_rules e))" using assms(1) by (simp add: quota_books_def)
  note cap = rangeCapacityD [OF assms(3) d]
  have old: "quota_ranges ?D" using ranges_delete [OF d assms(2)] .
  have mem: "(k, r) \<in> set ?R \<longleftrightarrow> (k = d_Key rule \<and> r = rule) \<or> (k, r) \<in> set ?D" for k r
    using set_update [OF d] by auto
  have olds: "(k, r) \<in> set (q_rules e) \<and> k \<noteq> d_Key rule" if "(k, r) \<in> set ?D" for k r
    using that by (simp add: set_delete)
  show ?thesis
  proof (rule quota_rangesI)
    show "valid_port_range r" if "(k, r) \<in> set ?R" for k r
      using that cap(1) quota_rangesD(1) [OF old] unfolding mem by blast
    show "tenant_covered ?R (d_VPCRef r) \<le> MaxCoveredPortsPerTenant" if r: "(k, r) \<in> set ?R" "d_PortEnd r \<noteq> 0" for k r
    proof (cases "d_VPCRef r = d_VPCRef rule")
      case True
      then show ?thesis using r olds cap(2) [of k r] unfolding mem by auto
    next
      case False
      then have "tenant_covered ?R (d_VPCRef r) = tenant_covered ?D (d_VPCRef r)" using tenant_covered_update [OF d] by auto
      then show ?thesis using False r quota_rangesD(2) [OF old] unfolding mem by auto
    qed
    show "\<not> ports_meet a b"
      if m: "(k, a) \<in> set ?R" "(k', b) \<in> set ?R" "k \<noteq> k'" "d_Protocol a = d_Protocol b" "d_PortEnd a \<noteq> 0"
        "vip \<in> set (d_VIPAddresses a)" "vip \<in> set (d_VIPAddresses b)" for k a k' b vip
    proof -
      consider "(k, a) \<in> set ?D" "(k', b) \<in> set ?D" | "a = rule" "(k', b) \<in> set ?D" | "b = rule" "(k, a) \<in> set ?D"
        using m(1-3) unfolding mem by blast
      then show ?thesis
      proof cases
        case 1
        then show ?thesis using quota_rangesD(3) [OF old] m by blast
      next
        case 2
        then show ?thesis using vip_capacityD(1) [OF cap(3)] olds [of k' b] m by auto
      next
        case 3
        then show ?thesis using vip_capacityD(1) [OF cap(3)] olds [of k a] m ports_meet_sym by auto
      qed
    qed
    show "on_vip ?R (d_Protocol r) vip \<le> int MaxRangesPerVIP"
      if m: "(k, r) \<in> set ?R" "vip \<in> set (d_VIPAddresses r)" "d_PortEnd r \<noteq> 0" for k r vip
    proof (cases "d_Protocol rule = d_Protocol r \<and> vip \<in> set (d_VIPAddresses rule)")
      case True
      then have on: "on_vip ?R (d_Protocol r) vip = 1 + on_vip ?D (d_Protocol r) vip" using on_vip_update [OF d] by simp
      have "d_PortEnd rule \<noteq> 0 \<or> (k \<noteq> d_Key rule \<and> (k, r) \<in> set (q_rules e) \<and> d_Protocol r = d_Protocol rule \<and>
          vip \<in> set (d_VIPAddresses r) \<and> d_PortEnd r \<noteq> 0)"
        using m olds True unfolding mem by auto
      from vip_capacityD(2) [OF cap(3) this] on True show ?thesis by simp
    next
      case False
      then have "on_vip ?R (d_Protocol r) vip = on_vip ?D (d_Protocol r) vip" using on_vip_update [OF d] by auto
      then show ?thesis using m False quota_rangesD(4) [OF old] unfolding mem by auto
    qed
  qed
qed

section \<open>The quota's contract\<close>

lemma quota_start: "quota_books (NewNodeQuotaEnforcer m n) \<and> quota_caps (NewNodeQuotaEnforcer m n) \<and> quota_ranges (q_rules (NewNodeQuotaEnforcer m n))"
  by (simp add: NewNodeQuotaEnforcer_def quota_books_def quota_caps_def quota_ranges_def tenant_count_def total_rows_def)

lemma quota_invariants:
  assumes "quota_reachable maxRules maxEntries e"
  shows "quota_books e \<and> quota_caps e \<and> quota_ranges (q_rules e) \<and> q_maxRulesPerTenant e = maxRules \<and> q_maxRuleTableEntries e = maxEntries"
  using assms
proof induction
  case start
  show ?case using quota_start by (simp add: NewNodeQuotaEnforcer_def)
next
  case (reserve e rule)
  obtain ok e' where run: "CheckAndReserve e rule = (ok, e')" by fastforce
  show ?case
  proof (cases ok)
    case True
    with run have acc: "CheckAndReserve e rule = (True, e')" by simp
    have books: "quota_books e" "quota_ranges (q_rules e)" "quota_caps e" using reserve by auto
    note a = CheckAndReserve_accepted [OF books(1) acc]
    have "quota_books e'" using CheckAndReserve_books [OF books(1), of rule] acc by simp
    moreover have "quota_caps e'" using caps_reserve [OF books(1,3) acc] .
    moreover have "quota_ranges (q_rules e')" using ranges_reserve [OF books(1,2) a(1)] a(4) by simp
    ultimately show ?thesis using acc a(8,9) reserve by simp
  next
    case False
    then have "e' = e" using run CheckAndReserve_refused by simp
    then show ?thesis using reserve run by simp
  qed
next
  case (release e key)
  then have "distinct (map fst (q_rules e))" by (simp add: quota_books_def)
  then show ?case using release Release_books caps_Release ranges_delete by (simp add: Release_rules)
qed

text \<open>C14. The admission quota is sound: after any sequence of reservations and releases the enforcer's
  counters are exactly what its reserved rules add up to, no tenant has more rules and the node no
  more rows than its limits, every port range is a UDP range of at most 1024 ports, a tenant with
  a range covers at most 4096 ports, no range meets another listener of the same address and
  protocol, and an address with a range carries at most 16 listeners.\<close>

theorem quota_sound:
  assumes "quota_reachable maxRules maxEntries e"
  shows "quota_books e \<and> quota_caps e \<and> quota_ranges (q_rules e)"
  using quota_invariants [OF assms] by auto

text \<open>Two services of one tenant and a range of another one on the same address.\<close>

definition rule_a :: DesiredRule where
  "rule_a = \<lparr>d_Key = ''a'', d_VPCRef = ''t1'', d_VIPAddresses = [Addr4 3221225985], d_Protocol = ''udp'', d_Port = 53, d_PortEnd = 0,
     d_Affinity = [], d_Backends = [], d_IPv4Backends = []\<rparr>"

definition rule_b :: DesiredRule where
  "rule_b = rule_a\<lparr>d_Key := ''b'', d_VPCRef := ''t2'', d_Port := 5000, d_PortEnd := 5100\<rparr>"

definition quota_example :: NodeQuotaEnforcer where
  "quota_example = snd (CheckAndReserve (snd (CheckAndReserve (NewNodeQuotaEnforcer 2 4) rule_a)) rule_b)"

lemma quota_example_reachable: "quota_reachable 2 4 quota_example"
  unfolding quota_example_def by (intro quota_reachable.intros)

lemma quota_example_step: "CheckAndReserve (snd (CheckAndReserve (NewNodeQuotaEnforcer 2 4) rule_a)) rule_b = (True, quota_example)"
proof -
  have "fst (CheckAndReserve (snd (CheckAndReserve (NewNodeQuotaEnforcer 2 4) rule_a)) rule_b)" by code_simp
  then show ?thesis by (simp add: quota_example_def prod_eq_iff)
qed

theorem quota_sound_witness:
  "map_of (q_tenantRuleCount quota_example) ''t2'' = Some 1 \<and> q_totalEntries quota_example = 2 \<and>
   quota_books quota_example \<and> quota_caps quota_example \<and> quota_ranges (q_rules quota_example)"
proof -
  have "map_of (q_tenantRuleCount quota_example) ''t2'' = Some 1" "q_totalEntries quota_example = 2" by code_simp+
  then show ?thesis using quota_sound [OF quota_example_reachable] by simp
qed

text \<open>Reserving again what is reserved changes nothing; releasing a fresh reservation undoes it.\<close>

lemma sharing_vip_update:
  "sharing_vip (AList.update (d_Key rule) r rules) rule vip = sharing_vip rules rule vip"
  by (induction rules) (auto simp: sharing_vip_simps)

lemma range_others_update:
  "filter (\<lambda>(key, other). key \<noteq> k \<and> Q other) (AList.update k r m) = filter (\<lambda>(key, other). key \<noteq> k \<and> Q other) m"
  by (rule others_update) simp

lemma vip_capacity_update:
  "vip_capacity (AList.update (d_Key rule) r rules) rule = vip_capacity rules rule"
  by (simp only: fun_eq_iff vip_capacity_def sharing_vip_update simp_thms)

lemma rangeCapacity_update:
  "q_rules e' = AList.update (d_Key rule) r (q_rules e) \<Longrightarrow> rangeCapacity e' rule = rangeCapacity e rule"
  unfolding rangeCapacity_def Let_def by (simp only: vip_capacity_update range_others_update)

text \<open>Reserving is idempotent: a reservation that was accepted is accepted again and changes nothing.\<close>

lemma reserve_idempotent:
  assumes "quota_reachable maxRules maxEntries e" "CheckAndReserve e rule = (True, e')"
  shows "CheckAndReserve e' rule = (True, e')"
proof -
  have books: "quota_books e" using quota_invariants [OF assms(1)] by simp
  note a = CheckAndReserve_accepted [OF books assms(2)]
  have books': "quota_books e'" using CheckAndReserve_books [OF books, of rule] assms(2) by simp
  have same: "q_rules e' = AList.update (d_Key rule) rule (q_rules e')" by (simp add: a(4) update_update)
  have r: "map_of (q_rules e') (d_Key rule) = Some rule" by (simp add: a(4) update_conv')
  have range: "rangeCapacity e' rule" using rangeCapacity_update [OF a(4)] a(1) by simp
  have "map_of (q_ruleEntries e') (d_Key rule) = Some (rule_rows rule)" "map_of (q_ruleTenant e') (d_Key rule) = Some (d_VPCRef rule)"
    by (simp_all add: a(6,7) update_conv')
  moreover have "tenant_count (q_rules e') (d_VPCRef rule) \<le> q_maxRulesPerTenant e'" "q_totalEntries e' \<le> q_maxRuleTableEntries e'"
    using a by simp_all
  ultimately show ?thesis
    using range same get_count [OF books', of "d_VPCRef rule"]
    by (simp add: CheckAndReserve_def Let_def rule_rows_eq get_def update_same)
qed

text \<open>Releasing undoes reserving: when a rule whose key holds no reservation is accepted and then
  released, the enforcer is back in the state it started from.\<close>

lemma release_undoes_reserve:
  assumes "quota_reachable maxRules maxEntries e" "map_of (q_rules e) (d_Key rule) = None"
    and "CheckAndReserve e rule = (True, e')"
  shows "Release e' (d_Key rule) = e"
proof -
  have books: "quota_books e" using quota_invariants [OF assms(1)] by simp
  note b = books [unfolded quota_books_def]
  note a = CheckAndReserve_accepted [OF books assms(3)]
  let ?n = "tenant_count (q_rules e) (d_VPCRef rule)"
  have none: "map_of (q_ruleEntries e) (d_Key rule) = None" "map_of (q_ruleTenant e) (d_Key rule) = None"
    using b assms(2) by simp_all
  have counts: "q_tenantRuleCount e' = AList.update (d_VPCRef rule) (?n + 1) (q_tenantRuleCount e)"
    using assms(3) none by (auto simp: CheckAndReserve_def Let_def get_count [OF books] split: if_splits)
  have "?n \<noteq> 0 \<Longrightarrow> map_of (q_tenantRuleCount e) (d_VPCRef rule) = Some ?n"
    "?n = 0 \<Longrightarrow> map_of (q_tenantRuleCount e) (d_VPCRef rule) = None" using b by simp_all
  then have restored: "(if ?n \<le> 0 then AList.delete (d_VPCRef rule) (q_tenantRuleCount e') else AList.update (d_VPCRef rule) ?n (q_tenantRuleCount e'))
      = q_tenantRuleCount e"
    using tenant_count_nonneg [of "q_rules e" "d_VPCRef rule"]
    by (cases "?n = 0") (simp_all add: counts update_update update_same delete_update_fresh)
  have "total_rows (q_rules e') = rule_rows rule + total_rows (q_rules e)"
    using total_rows_update [of "q_rules e" "d_Key rule" rule] total_rows_delete [of "q_rules e" "d_Key rule"] b assms(2) a(4) by simp
  then have "q_totalEntries e' - rule_rows rule = q_totalEntries e" "0 \<le> q_totalEntries e"
    using a(4,5) b total_rows_nonneg [of "q_rules e"] by simp_all
  moreover have "get 0 (q_tenantRuleCount e') (d_VPCRef rule) = ?n + 1" by (simp add: counts get_def update_conv')
  moreover have "map_of (q_ruleEntries e') (d_Key rule) = Some (rule_rows rule)" "get [] (q_ruleTenant e') (d_Key rule) = d_VPCRef rule"
    by (simp_all add: a(6,7) update_conv' get_def)
  ultimately have "Release e' (d_Key rule) = e'\<lparr>q_totalEntries := q_totalEntries e, q_tenantRuleCount := q_tenantRuleCount e,
      q_ruleEntries := q_ruleEntries e, q_rules := q_rules e, q_ruleTenant := q_ruleTenant e\<rparr>"
    using none assms(2) restored by (auto simp: Release_def Let_def a(4,6,7) delete_update_fresh split: if_splits)
  then show ?thesis using a(8,9) by simp
qed

section \<open>Convergence of an address and differences\<close>

definition rule_done :: "RuleStatus \<Rightarrow> bool" where
  "rule_done r \<longleftrightarrow> s_Error r = [] \<and> s_Applied r"

lemma vip_converged_loop_eq:
  "vip_converged_loop rs vip failed =
    (if \<exists>r \<in> set rs. \<not> rule_done r \<and> (s_VIPAddresses r = [] \<or> vip \<in> set (s_VIPAddresses r)) then None
     else Some (failed \<or> (\<exists>r \<in> set rs. \<not> rule_done r)))"
  by (induction rs arbitrary: failed) (auto simp: rule_done_def)

lemma VIPConverged_iff:
  "VIPConverged s vip \<longleftrightarrow>
    (\<forall>r \<in> set (es_Rules s). rule_done r \<or> (s_VIPAddresses r \<noteq> [] \<and> vip \<notin> set (s_VIPAddresses r))) \<and>
    (es_Healthy s \<or> (\<exists>r \<in> set (es_Rules s). \<not> rule_done r))"
  by (auto simp: VIPConverged_def vip_converged_loop_eq)

lemma rulesEqual_eq: "rulesEqual a b \<longleftrightarrow> a = b"
  by (cases a; cases b) (auto simp: rulesEqual_def)

lemma diffRuleKeys_apply:
  assumes "distinct (map fst desired)"
  shows "k \<in> set (fst (diffRuleKeys active desired)) \<longleftrightarrow> map_of desired k \<noteq> None \<and> map_of active k \<noteq> map_of desired k"
proof -
  have "k \<in> set (fst (diffRuleKeys active desired)) \<longleftrightarrow> (\<exists>rule. (k, rule) \<in> set desired \<and> map_of active k \<noteq> Some rule)"
    unfolding diffRuleKeys_def rulesEqual_eq by (auto simp: image_iff split: option.splits)
  then show ?thesis unfolding map_of_mem [OF assms] by auto
qed

lemma diffRuleKeys_remove:
  assumes "distinct (map fst active)"
  shows "k \<in> set (snd (diffRuleKeys active desired)) \<longleftrightarrow> map_of active k \<noteq> None \<and> map_of desired k = None"
proof -
  have "k \<in> set (snd (diffRuleKeys active desired)) \<longleftrightarrow> (\<exists>rule. (k, rule) \<in> set active) \<and> map_of desired k = None"
    unfolding diffRuleKeys_def by (auto simp: image_iff)
  then show ?thesis unfolding map_of_mem [OF assms] by auto
qed

lemma diffRuleKeys_distinct:
  "distinct (map fst desired) \<Longrightarrow> distinct (fst (diffRuleKeys active desired))"
  "distinct (map fst active) \<Longrightarrow> distinct (snd (diffRuleKeys active desired))"
  by (simp_all add: diffRuleKeys_def distinct_map_filter)

end
