(* ===== verification/EdgeMap.thy ===== *)
theory EdgeMap
  imports Netip GoMap StateError
begin

unbundle bit_operations_syntax

text \<open>
  \<open>internal/plumbing/ebpf/edgemap\<close>: the control plane's view of the gateway's eBPF maps. The
  structs of \<open>edgedsr.c\<close> that the maps hold are records; \<open>maps\<close> is the state of all of them
  together. The kernel is a parameter: \<open>fault n\<close> says whether the n-th operation on a map or
  clock fails, \<open>now n\<close> is what the clock then reads, and \<open>cut n\<close> is how many entries an
  iteration that fails delivers first. A failed operation leaves the map alone, and an iteration
  delivers the entries the map held when it started, each once. An operation of the tables is a
  function from the state to a result, an error on the left, and the new state.

  The theory shows that a registered row reads back as it was written, that the set of addresses
  the return path claims is exactly the set of addresses in use, that reconciling removes exactly
  the stale rows, that range rows stay sorted and disjoint, and what the ownership guards hold.
\<close>

section \<open>Results\<close>

datatype edge_error = ErrKeyNotExist | ErrKernel nat | ErrAddress addr | ErrUSID addr | ErrAffinity u8
  | ErrNoBackends | ErrTooManyBackends nat | ErrInvalidRange u16 u16 | ErrRangeCount u32
  | ErrRangeIntersects u16 u16 | ErrRangeCapacity

type_synonym ('s, 'a) io = "'s \<Rightarrow> (edge_error + 'a) \<times> 's"

definition ignoreMissing :: "('s, unit) io \<Rightarrow> ('s, unit) io" where
  "ignoreMissing m w = (case m w of (Inl ErrKeyNotExist, w') \<Rightarrow> (Inr (), w') | r \<Rightarrow> r)"

section \<open>The maps (edgedsr.c)\<close>

record wire_backend =
  w_addr :: bytes
  w_port :: u16
  w_usid :: bytes

record vip_key =
  k_proto :: u8
  k_port :: u16
  k_vip :: bytes

record vip_range =
  r_start :: u16
  r_end :: u16
  r_generation :: u64

record vip_range_value =
  rv_count :: u32
  rv_ranges :: "vip_range list"
  rv_generation :: u64

record vip_value =
  v_backend_count :: u32
  v_backends :: "wire_backend list"
  v_maglev_table :: "u8 list"
  v_affinity :: u8
  v_generation :: u64

record vip_stats_value =
  s_packets :: u64
  s_bytes :: u64
  s_dropped_packets :: u64
  s_last_seen_ns :: u64

record vip_owned_value =
  o_generation :: u64
  o_expires_at_ns :: u64
  o_blocked :: u8

record maps =
  vip_table :: "(vip_key \<times> vip_value) list"
  vip_range_backends :: "(vip_key \<times> vip_value) list"
  vip_stats_table :: "(vip_key \<times> vip_stats_value) list"
  vip_addr_table :: "(bytes \<times> u64) list"
  vip_return_stats_table :: "(bytes \<times> vip_stats_value) list"
  vip_range_table :: "(vip_key \<times> vip_range_value) list"
  vip_owned_table :: "(bytes \<times> vip_owned_value) list"
  m_ops :: nat

record kernel =
  fault :: "nat \<Rightarrow> bool"
  now :: "nat \<Rightarrow> u64"
  cut :: "nat \<Rightarrow> nat"

definition tick :: "maps \<Rightarrow> maps" where
  "tick w = w\<lparr>m_ops := Suc (m_ops w)\<rparr>"

section \<open>Table operations (table.go)\<close>

definition Put :: "kernel \<Rightarrow> (maps \<Rightarrow> maps) \<Rightarrow> (maps, unit) io" where
  "Put kn upd w = (if fault kn (m_ops w) then (Inl (ErrKernel (m_ops w)), tick w) else (Inr (), upd (tick w)))"

definition Lookup :: "kernel \<Rightarrow> (maps \<Rightarrow> ('k \<times> 'v) list) \<Rightarrow> 'k \<Rightarrow> (maps, 'v) io" where
  "Lookup kn sel k w =
     (if fault kn (m_ops w) then (Inl (ErrKernel (m_ops w)), tick w)
      else (case map_of (sel w) k of None \<Rightarrow> (Inl ErrKeyNotExist, tick w) | Some v \<Rightarrow> (Inr v, tick w)))"

definition Delete :: "kernel \<Rightarrow> (maps \<Rightarrow> ('k \<times> 'v) list) \<Rightarrow> (maps \<Rightarrow> maps) \<Rightarrow> 'k \<Rightarrow> (maps, unit) io" where
  "Delete kn sel upd k w =
     (if fault kn (m_ops w) then (Inl (ErrKernel (m_ops w)), tick w)
      else (case map_of (sel w) k of None \<Rightarrow> (Inl ErrKeyNotExist, tick w) | Some _ \<Rightarrow> (Inr (), upd (tick w))))"

text \<open>An iteration: the entries \<open>Next\<close> delivers, and what \<open>Err\<close> then returns.\<close>

definition Iterate :: "kernel \<Rightarrow> (maps \<Rightarrow> ('k \<times> 'v) list) \<Rightarrow> maps \<Rightarrow> (('k \<times> 'v) list \<times> edge_error option) \<times> maps" where
  "Iterate kn sel w =
     (if fault kn (m_ops w) then ((take (cut kn (m_ops w)) (sel w), Some (ErrKernel (m_ops w))), tick w)
      else ((sel w, None), tick w))"

definition clockFn :: "kernel \<Rightarrow> (maps, u64) io" where
  "clockFn kn w = (Inr (now kn (m_ops w)), tick w)"

section \<open>VIP table (viptable.go)\<close>

definition MaxBackends :: nat where "MaxBackends = 64"
definition MaglevTableSize :: nat where "MaglevTableSize = 1021"
definition MaxVIPTableEntries :: int where "MaxVIPTableEntries = 4096"
definition AffinityNone :: u8 where "AffinityNone = 0"
definition AffinityClientIP :: u8 where "AffinityClientIP = 1"
definition AffinityClientIPAndProtocol :: u8 where "AffinityClientIPAndProtocol = 2"

definition beU16 :: "u16 \<Rightarrow> u16" where
  "beU16 v = push_bit 8 v OR drop_bit 8 v"

record VIPKey =
  vk_Proto :: u8
  vk_VPort :: u16
  vk_VIP :: addr

record Backend =
  eb_Addr :: addr
  eb_Port :: u16
  eb_USID :: addr

record VIPEntry =
  ve_Key :: VIPKey
  ve_Backends :: "Backend list"
  ve_MaglevTable :: "u8 list"
  ve_Affinity :: u8
  ve_Generation :: u64
  ve_Stats :: vip_stats_value

record ReturnEntry =
  re_VIP :: addr
  re_Generation :: u64
  re_Stats :: vip_stats_value

text \<open>A VIP table is a choice of the map it keeps its rows in (\<open>vip_table\<close>, or \<open>vip_range_backends\<close>)
  and whether the other one is its peer; statistics and return addresses are shared.\<close>

record VIPTable =
  vt_range :: bool
  vt_peer :: bool

definition rows :: "VIPTable \<Rightarrow> maps \<Rightarrow> (vip_key \<times> vip_value) list" where
  "rows t w = (if vt_range t then vip_range_backends w else vip_table w)"

definition peer_rows :: "VIPTable \<Rightarrow> maps \<Rightarrow> (vip_key \<times> vip_value) list" where
  "peer_rows t w = (if vt_range t then vip_table w else vip_range_backends w)"

definition set_rows :: "VIPTable \<Rightarrow> ((vip_key \<times> vip_value) list \<Rightarrow> (vip_key \<times> vip_value) list) \<Rightarrow> maps \<Rightarrow> maps" where
  "set_rows t f w = (if vt_range t then w\<lparr>vip_range_backends := f (vip_range_backends w)\<rparr> else w\<lparr>vip_table := f (vip_table w)\<rparr>)"

definition toWireAddr :: "addr \<Rightarrow> edge_error + bytes" where
  "toWireAddr a = (if Is4 a then Inr (As16 a) else if Is6 a \<and> \<not> Is4In6 a then Inr (As16 a) else Inl (ErrAddress a))"

definition fromWireAddr :: "bytes \<Rightarrow> addr" where
  "fromWireAddr raw = Unmap (AddrFrom16 raw)"

definition toWireKey :: "VIPKey \<Rightarrow> edge_error + vip_key" where
  "toWireKey key = (case toWireAddr (vk_VIP key) of Inl e \<Rightarrow> Inl e
     | Inr vip \<Rightarrow> Inr \<lparr>k_proto = vk_Proto key, k_port = beU16 (vk_VPort key), k_vip = vip\<rparr>)"

definition toWireAddrKey :: "addr \<Rightarrow> edge_error + bytes" where
  "toWireAddrKey vip = toWireAddr vip"

definition zeroBackend :: wire_backend where
  "zeroBackend = \<lparr>w_addr = replicate 16 0, w_port = 0, w_usid = replicate 16 0\<rparr>"

fun wireBackends :: "Backend list \<Rightarrow> edge_error + wire_backend list" where
  "wireBackends [] = Inr []"
| "wireBackends (b # bs) =
     (case toWireAddr (eb_Addr b) of Inl e \<Rightarrow> Inl e
      | Inr a \<Rightarrow>
          if \<not> Is6 (eb_USID b) \<or> Is4In6 (eb_USID b) then Inl (ErrUSID (eb_USID b))
          else (case wireBackends bs of Inl e \<Rightarrow> Inl e
            | Inr out \<Rightarrow> Inr (\<lparr>w_addr = a, w_port = beU16 (eb_Port b), w_usid = As16 (eb_USID b)\<rparr> # out)))"

text \<open>The array of 64 wire backends, the rest zero; called with at most 64 backends.\<close>

definition toWireBackends :: "Backend list \<Rightarrow> edge_error + wire_backend list" where
  "toWireBackends bs = (case wireBackends bs of Inl e \<Rightarrow> Inl e
     | Inr out \<Rightarrow> Inr (out @ replicate (MaxBackends - length out) zeroBackend))"

definition claimAddr :: "kernel \<Rightarrow> addr \<Rightarrow> u64 \<Rightarrow> (maps, unit) io" where
  "claimAddr kn vip generation =
     bind (lift (toWireAddrKey vip)) (\<lambda>wireAddr.
       Put kn (\<lambda>w. w\<lparr>vip_addr_table := AList.update wireAddr generation (vip_addr_table w)\<rparr>))"

definition Register :: "kernel \<Rightarrow> VIPTable \<Rightarrow> VIPKey \<Rightarrow> u8 \<Rightarrow> Backend list \<Rightarrow> u8 list \<Rightarrow> (maps, unit) io" where
  "Register kn t key affinity backends maglevTable =
     (if affinity \<notin> {AffinityNone, AffinityClientIP, AffinityClientIPAndProtocol} then fail (ErrAffinity affinity)
      else if backends = [] then fail ErrNoBackends
      else if length backends > MaxBackends then fail (ErrTooManyBackends (length backends))
      else bind (lift (toWireKey key)) (\<lambda>wireKey.
        bind (lift (toWireBackends backends)) (\<lambda>wireBackends.
        bind (clockFn kn) (\<lambda>generation.
          let v = \<lparr>v_backend_count = of_nat (length backends), v_backends = wireBackends,
                   v_maglev_table = maglevTable, v_affinity = affinity, v_generation = generation\<rparr>
          in bind (Put kn (set_rows t (AList.update wireKey v))) (\<lambda>_. claimAddr kn (vk_VIP key) generation)))))"

text \<open>The scan for a row that still uses an address: it stops at the first one.\<close>

definition scanAddr :: "kernel \<Rightarrow> (maps \<Rightarrow> (vip_key \<times> vip_value) list) \<Rightarrow> addr \<Rightarrow> (maps, bool) io" where
  "scanAddr kn sel vip w =
     (case Iterate kn sel w of ((entries, err), w') \<Rightarrow>
        if list_ex (\<lambda>(key, _). fromWireAddr (k_vip key) = vip) entries then (Inr True, w')
        else (case err of Some e \<Rightarrow> (Inl e, w') | None \<Rightarrow> (Inr False, w')))"

definition releaseAddr :: "kernel \<Rightarrow> VIPTable \<Rightarrow> addr \<Rightarrow> (maps, unit) io" where
  "releaseAddr kn t vip =
     bind (if vt_peer t then scanAddr kn (peer_rows t) vip else ret False) (\<lambda>used.
       if used then ret ()
       else bind (lift (toWireAddrKey vip)) (\<lambda>wireAddr.
         bind (scanAddr kn (rows t) vip) (\<lambda>used.
           if used then ret ()
           else bind (ignoreMissing (Delete kn vip_addr_table
                  (\<lambda>w. w\<lparr>vip_addr_table := AList.delete wireAddr (vip_addr_table w)\<rparr>) wireAddr)) (\<lambda>_.
                ignoreMissing (Delete kn vip_return_stats_table
                  (\<lambda>w. w\<lparr>vip_return_stats_table := AList.delete wireAddr (vip_return_stats_table w)\<rparr>) wireAddr)))))"

definition deleteRow :: "kernel \<Rightarrow> VIPTable \<Rightarrow> vip_key \<Rightarrow> (maps, unit) io" where
  "deleteRow kn t wireKey = ignoreMissing (Delete kn (rows t) (set_rows t (AList.delete wireKey)) wireKey)"

definition deleteStats :: "kernel \<Rightarrow> vip_key \<Rightarrow> (maps, unit) io" where
  "deleteStats kn wireKey = ignoreMissing (Delete kn vip_stats_table
     (\<lambda>w. w\<lparr>vip_stats_table := AList.delete wireKey (vip_stats_table w)\<rparr>) wireKey)"

definition Unregister :: "kernel \<Rightarrow> VIPTable \<Rightarrow> VIPKey \<Rightarrow> (maps, unit) io" where
  "Unregister kn t key =
     bind (lift (toWireKey key)) (\<lambda>wireKey.
       bind (deleteRow kn t wireKey) (\<lambda>_.
       bind (deleteStats kn wireKey) (\<lambda>_. releaseAddr kn t (vk_VIP key))))"

definition zeroStats :: vip_stats_value where
  "zeroStats = \<lparr>s_packets = 0, s_bytes = 0, s_dropped_packets = 0, s_last_seen_ns = 0\<rparr>"

definition lookupOr :: "'v \<Rightarrow> (maps, 'v) io \<Rightarrow> (maps, 'v) io" where
  "lookupOr zero m w = (case m w of (Inl ErrKeyNotExist, w') \<Rightarrow> (Inr zero, w') | r \<Rightarrow> r)"

definition lookupStats :: "kernel \<Rightarrow> vip_key \<Rightarrow> (maps, vip_stats_value) io" where
  "lookupStats kn wireKey = lookupOr zeroStats (Lookup kn vip_stats_table wireKey)"

definition fromWireValue :: "VIPKey \<Rightarrow> vip_value \<Rightarrow> vip_stats_value \<Rightarrow> VIPEntry" where
  "fromWireValue key v stats =
     \<lparr>ve_Key = key,
      ve_Backends = map (\<lambda>wb. \<lparr>eb_Addr = fromWireAddr (w_addr wb), eb_Port = beU16 (w_port wb), eb_USID = AddrFrom16 (w_usid wb)\<rparr>)
        (take (unat (v_backend_count v)) (v_backends v)),
      ve_MaglevTable = v_maglev_table v, ve_Affinity = v_affinity v, ve_Generation = v_generation v, ve_Stats = stats\<rparr>"

definition Get :: "kernel \<Rightarrow> VIPTable \<Rightarrow> VIPKey \<Rightarrow> (maps, VIPEntry option) io" where
  "Get kn t key =
     bind (lift (toWireKey key)) (\<lambda>wireKey.
       bind (lookupOr None (bind (Lookup kn (rows t) wireKey) (\<lambda>v. ret (Some v)))) (\<lambda>found.
         case found of None \<Rightarrow> ret None
         | Some v \<Rightarrow> bind (lookupStats kn wireKey) (\<lambda>stats. ret (Some (fromWireValue key v stats)))))"

definition fromWireKey :: "vip_key \<Rightarrow> VIPKey" where
  "fromWireKey raw = \<lparr>vk_Proto = k_proto raw, vk_VPort = beU16 (k_port raw), vk_VIP = fromWireAddr (k_vip raw)\<rparr>"

fun listEntries :: "kernel \<Rightarrow> (vip_key \<times> vip_value) list \<Rightarrow> (maps, VIPEntry list) io" where
  "listEntries kn [] = ret []"
| "listEntries kn ((raw, v) # rest) =
     bind (lookupStats kn raw) (\<lambda>stats. bind (listEntries kn rest) (\<lambda>es. ret (fromWireValue (fromWireKey raw) v stats # es)))"

definition iterErr :: "edge_error option \<Rightarrow> (maps, unit) io" where
  "iterErr err = (case err of None \<Rightarrow> ret () | Some e \<Rightarrow> fail e)"

text \<open>\<open>List\<close> reads the statistics row of each entry as the iteration delivers it.\<close>

definition List :: "kernel \<Rightarrow> VIPTable \<Rightarrow> (maps, VIPEntry list) io" where
  "List kn t w = (case Iterate kn (rows t) w of ((entries, err), w') \<Rightarrow>
     bind (listEntries kn entries) (\<lambda>es. bind (iterErr err) (\<lambda>_. ret es)) w')"

fun listReturns :: "kernel \<Rightarrow> (bytes \<times> u64) list \<Rightarrow> (maps, ReturnEntry list) io" where
  "listReturns kn [] = ret []"
| "listReturns kn ((raw, g) # rest) =
     bind (lookupOr zeroStats (Lookup kn vip_return_stats_table raw)) (\<lambda>stats.
       bind (listReturns kn rest) (\<lambda>rs. ret (\<lparr>re_VIP = fromWireAddr raw, re_Generation = g, re_Stats = stats\<rparr> # rs)))"

definition ListReturn :: "kernel \<Rightarrow> (maps, ReturnEntry list) io" where
  "ListReturn kn w = (case Iterate kn vip_addr_table w of ((entries, err), w') \<Rightarrow>
     bind (listReturns kn entries) (\<lambda>rs. bind (iterErr err) (\<lambda>_. ret rs)) w')"

text \<open>Loops that collect errors and go on: \<open>tryEach f xs\<close> runs \<open>f\<close> on each element; the elements
  that succeeded and the errors of the others, in order.\<close>

fun tryEach :: "('a \<Rightarrow> (maps, unit) io) \<Rightarrow> 'a list \<Rightarrow> maps \<Rightarrow> ('a list \<times> edge_error list) \<times> maps" where
  "tryEach f [] w = (([], []), w)"
| "tryEach f (x # xs) w =
     (case f x w of
        (Inl e, w1) \<Rightarrow> (case tryEach f xs w1 of ((ok, errs), w2) \<Rightarrow> ((ok, e # errs), w2))
      | (Inr _, w1) \<Rightarrow> (case tryEach f xs w1 of ((ok, errs), w2) \<Rightarrow> ((x # ok, errs), w2)))"

definition reconcileAddrs :: "kernel \<Rightarrow> VIPTable \<Rightarrow> u64 \<Rightarrow> maps \<Rightarrow> edge_error list \<times> maps" where
  "reconcileAddrs kn t cutoff w =
     (case List kn t w of (Inl e, w1) \<Rightarrow> ([e], w1)
      | (Inr entries, w1) \<Rightarrow>
         (case ListReturn kn w1 of (Inl e, w2) \<Rightarrow> ([e], w2)
          | (Inr returns, w2) \<Rightarrow>
             (let inUse = map (\<lambda>e. vk_VIP (ve_Key e)) entries;
                  stale = filter (\<lambda>r. re_VIP r \<notin> set inUse \<and> \<not> re_Generation r \<ge> cutoff) returns
              in case tryEach (\<lambda>r. releaseAddr kn t (re_VIP r)) stale w2 of ((_, errs), w3) \<Rightarrow> (errs, w3))))"

definition Reconcile :: "kernel \<Rightarrow> VIPTable \<Rightarrow> VIPKey set \<Rightarrow> u64 \<Rightarrow> maps \<Rightarrow> (VIPEntry list \<times> edge_error list) \<times> maps" where
  "Reconcile kn t live cutoff w =
     (case List kn t w of (Inl e, w1) \<Rightarrow> (([], [e]), w1)
      | (Inr entries, w1) \<Rightarrow>
         (let stale = filter (\<lambda>e. ve_Key e \<notin> live \<and> \<not> ve_Generation e \<ge> cutoff) entries
          in case tryEach (\<lambda>e. Unregister kn t (ve_Key e)) stale w1 of ((removed, errs), w2) \<Rightarrow>
             (case reconcileAddrs kn t cutoff w2 of (errs', w3) \<Rightarrow> ((removed, errs @ errs'), w3))))"

text \<open>One row's removal in \<open>ReplaceReturnAddrs\<close>: the row, then its statistics, each failing on its own.\<close>

fun dropEntries :: "kernel \<Rightarrow> VIPTable \<Rightarrow> VIPEntry list \<Rightarrow> maps \<Rightarrow> edge_error list \<times> maps" where
  "dropEntries kn t [] w = ([], w)"
| "dropEntries kn t (e # es) w =
     (case toWireKey (ve_Key e) of Inl err \<Rightarrow> (case dropEntries kn t es w of (errs, w') \<Rightarrow> (err # errs, w'))
      | Inr wireKey \<Rightarrow>
         (case deleteRow kn t wireKey w of (r1, w1) \<Rightarrow>
          (case deleteStats kn wireKey w1 of (r2, w2) \<Rightarrow>
           (case dropEntries kn t es w2 of (errs, w3) \<Rightarrow>
             ((case r1 of Inl err \<Rightarrow> [err] | Inr _ \<Rightarrow> []) @ (case r2 of Inl err \<Rightarrow> [err] | Inr _ \<Rightarrow> []) @ errs, w3)))))"

definition ReplaceReturnAddrs :: "kernel \<Rightarrow> VIPTable \<Rightarrow> addr list \<Rightarrow> maps \<Rightarrow> edge_error list \<times> maps" where
  "ReplaceReturnAddrs kn t addrs w =
     (let generation = now kn (m_ops w)
      in case tryEach (\<lambda>vip. claimAddr kn vip generation) addrs (tick w) of ((_, errs1), w1) \<Rightarrow>
        (case List kn t w1 of (Inl e, w2) \<Rightarrow> (errs1 @ [e], w2)
         | (Inr entries, w2) \<Rightarrow>
            (case dropEntries kn t entries w2 of (errs2, w3) \<Rightarrow>
              (case ListReturn kn w3 of (Inl e, w4) \<Rightarrow> (errs1 @ errs2 @ [e], w4)
               | (Inr returns, w4) \<Rightarrow>
                  (case tryEach (\<lambda>r. releaseAddr kn t (re_VIP r)) (filter (\<lambda>r. re_VIP r \<notin> set addrs) returns) w4 of
                     ((_, errs3), w5) \<Rightarrow> (errs1 @ errs2 @ errs3, w5))))))"

section \<open>Ranges (ranges.go)\<close>

definition RangesPerVIP :: nat where "RangesPerVIP = 16"

definition rangeKey :: "VIPKey \<Rightarrow> edge_error + vip_key" where
  "rangeKey key = toWireKey (key\<lparr>vk_VPort := 0\<rparr>)"

definition zeroRange :: vip_range where
  "zeroRange = \<lparr>r_start = 0, r_end = 0, r_generation = 0\<rparr>"

definition rangeValue :: "vip_range list \<Rightarrow> u64 \<Rightarrow> vip_range_value" where
  "rangeValue intervals generation =
     \<lparr>rv_count = of_nat (length intervals), rv_ranges = intervals @ replicate (RangesPerVIP - length intervals) zeroRange,
      rv_generation = generation\<rparr>"

definition putRanges :: "kernel \<Rightarrow> vip_key \<Rightarrow> vip_range list \<Rightarrow> (maps, unit) io" where
  "putRanges kn raw intervals = bind (clockFn kn) (\<lambda>generation.
     Put kn (\<lambda>w. w\<lparr>vip_range_table := AList.update raw (rangeValue intervals generation) (vip_range_table w)\<rparr>))"

definition liveRanges :: "vip_range_value \<Rightarrow> vip_range list" where
  "liveRanges v = take (unat (rv_count v)) (rv_ranges v)"

definition RegisterRange :: "kernel \<Rightarrow> VIPKey \<Rightarrow> u16 \<Rightarrow> u64 \<Rightarrow> (maps, unit) io" where
  "RegisterRange kn key end generation =
     (if vk_Proto key \<noteq> 17 \<or> vk_VPort key = 0 \<or> end < vk_VPort key \<or> \<not> Is6 (vk_VIP key) \<or> Is4In6 (vk_VIP key)
      then fail (ErrInvalidRange (vk_VPort key) end)
      else bind (lift (rangeKey key)) (\<lambda>raw.
        bind (lookupOr (rangeValue [] 0) (Lookup kn vip_range_table raw)) (\<lambda>v.
          if unat (rv_count v) > RangesPerVIP then fail (ErrRangeCount (rv_count v))
          else
           (let others = filter (\<lambda>r. r_start r \<noteq> vk_VPort key) (liveRanges v)
            in case find (\<lambda>r. r_start r \<le> end \<and> vk_VPort key \<le> r_end r) others of
                 Some r \<Rightarrow> fail (ErrRangeIntersects (r_start r) (r_end r))
               | None \<Rightarrow>
                  if length others = RangesPerVIP then fail ErrRangeCapacity
                  else putRanges kn raw (sort_key r_start
                         (others @ [\<lparr>r_start = vk_VPort key, r_end = end, r_generation = generation\<rparr>]))))))"

definition RemoveRange :: "kernel \<Rightarrow> VIPKey \<Rightarrow> (maps, unit) io" where
  "RemoveRange kn key =
     bind (lift (rangeKey key)) (\<lambda>raw.
       bind (lookupOr None (bind (Lookup kn vip_range_table raw) (\<lambda>v. ret (Some v)))) (\<lambda>found.
         case found of None \<Rightarrow> ret ()
         | Some v \<Rightarrow>
             if unat (rv_count v) > RangesPerVIP then fail (ErrRangeCount (rv_count v))
             else
              (let kept = filter (\<lambda>r. r_start r \<noteq> vk_VPort key) (liveRanges v)
               in if kept = []
                  then ignoreMissing (Delete kn vip_range_table
                         (\<lambda>w. w\<lparr>vip_range_table := AList.delete raw (vip_range_table w)\<rparr>) raw)
                  else putRanges kn raw kept)))"

fun sweepRanges :: "kernel \<Rightarrow> (VIPKey \<times> u16) list \<Rightarrow> u8 \<Rightarrow> addr \<Rightarrow> vip_range list \<Rightarrow> (maps, unit) io" where
  "sweepRanges kn live proto vip [] = ret ()"
| "sweepRanges kn live proto vip (r # rs) =
     (let k = \<lparr>vk_Proto = proto, vk_VPort = r_start r, vk_VIP = vip\<rparr>
      in if map_of live k = Some (r_end r) then sweepRanges kn live proto vip rs
         else bind (RemoveRange kn k) (\<lambda>_. sweepRanges kn live proto vip rs))"

fun reconcileRows :: "kernel \<Rightarrow> (VIPKey \<times> u16) list \<Rightarrow> u64 \<Rightarrow> (vip_key \<times> vip_range_value) list \<Rightarrow> (maps, unit) io" where
  "reconcileRows kn live cutoff [] = ret ()"
| "reconcileRows kn live cutoff ((key, v) # rest) =
     (if rv_generation v \<ge> cutoff then reconcileRows kn live cutoff rest
      else if unat (rv_count v) > RangesPerVIP then fail (ErrRangeCount (rv_count v))
      else bind (sweepRanges kn live (k_proto key) (fromWireAddr (k_vip key)) (liveRanges v)) (\<lambda>_.
             reconcileRows kn live cutoff rest))"

definition ReconcileRanges :: "kernel \<Rightarrow> (VIPKey \<times> u16) list \<Rightarrow> u64 \<Rightarrow> (maps, unit) io" where
  "ReconcileRanges kn live cutoff w = (case Iterate kn vip_range_table w of ((entries, err), w') \<Rightarrow>
     bind (reconcileRows kn live cutoff entries) (\<lambda>_. iterErr err) w')"

section \<open>Owned addresses (ranges.go)\<close>

definition OwnedVIPLease :: u64 where "OwnedVIPLease = 30000000000"

definition putOwned :: "kernel \<Rightarrow> bytes \<Rightarrow> vip_owned_value \<Rightarrow> (maps, unit) io" where
  "putOwned kn key v = Put kn (\<lambda>w. w\<lparr>vip_owned_table := AList.update key v (vip_owned_table w)\<rparr>)"

fun putOwnedAll :: "kernel \<Rightarrow> addr list \<Rightarrow> u64 \<Rightarrow> (maps, unit) io" where
  "putOwnedAll kn [] generation = ret ()"
| "putOwnedAll kn (a # addrs) generation =
     bind (lift (toWireAddr a)) (\<lambda>raw.
       bind (lookupOr \<lparr>o_generation = 0, o_expires_at_ns = 0, o_blocked = 1\<rparr> (Lookup kn vip_owned_table raw)) (\<lambda>v.
       bind (putOwned kn raw (v\<lparr>o_generation := generation\<rparr>)) (\<lambda>_. putOwnedAll kn addrs generation)))"

fun deleteOwned :: "kernel \<Rightarrow> bytes set \<Rightarrow> (bytes \<times> vip_owned_value) list \<Rightarrow> (maps, unit) io" where
  "deleteOwned kn live [] = ret ()"
| "deleteOwned kn live ((key, v) # rest) =
     (if key \<in> live then deleteOwned kn live rest
      else bind (ignoreMissing (Delete kn vip_owned_table
              (\<lambda>w. w\<lparr>vip_owned_table := AList.delete key (vip_owned_table w)\<rparr>) key)) (\<lambda>_. deleteOwned kn live rest))"

definition ReplaceOwnedVIPs :: "kernel \<Rightarrow> addr list \<Rightarrow> u64 \<Rightarrow> (maps, unit) io" where
  "ReplaceOwnedVIPs kn addrs generation =
     bind (putOwnedAll kn addrs generation) (\<lambda>_ w.
       case Iterate kn vip_owned_table w of ((entries, err), w') \<Rightarrow>
         bind (deleteOwned kn (As16 ` set addrs) entries) (\<lambda>_. iterErr err) w')"

fun blockEach :: "kernel \<Rightarrow> addr list \<Rightarrow> (bytes \<times> vip_owned_value) list \<Rightarrow> (maps, unit) io" where
  "blockEach kn addrs [] = ret ()"
| "blockEach kn addrs ((key, v) # rest) =
     (if addrs = [] then
        bind (clockFn kn) (\<lambda>t. bind (putOwned kn key (v\<lparr>o_blocked := 0, o_expires_at_ns := t + OwnedVIPLease\<rparr>)) (\<lambda>_.
          blockEach kn addrs rest))
      else if key \<in> As16 ` set addrs then
        bind (putOwned kn key (v\<lparr>o_blocked := 1\<rparr>)) (\<lambda>_. blockEach kn addrs rest)
      else blockEach kn addrs rest)"

definition SetBlockedVIPs :: "kernel \<Rightarrow> addr list \<Rightarrow> (maps, unit) io" where
  "SetBlockedVIPs kn addrs w = (case Iterate kn vip_owned_table w of ((entries, err), w') \<Rightarrow>
     bind (blockEach kn addrs entries) (\<lambda>_. iterErr err) w')"

fun RenewVIPs :: "kernel \<Rightarrow> addr list \<Rightarrow> (maps, unit) io" where
  "RenewVIPs kn [] = ret ()"
| "RenewVIPs kn (a # addrs) =
     bind (lift (toWireAddr a)) (\<lambda>raw.
       bind (Lookup kn vip_owned_table raw) (\<lambda>v.
       bind (clockFn kn) (\<lambda>t.
       bind (putOwned kn raw (v\<lparr>o_blocked := 0, o_expires_at_ns := t + OwnedVIPLease\<rparr>)) (\<lambda>_. RenewVIPs kn addrs))))"

definition OwnedVIPs :: "kernel \<Rightarrow> (maps, addr list) io" where
  "OwnedVIPs kn w = (case Iterate kn vip_owned_table w of ((entries, err), w') \<Rightarrow>
     bind (iterErr err) (\<lambda>_. ret (map (\<lambda>(key, _). AddrFrom16 key) entries)) w')"

section \<open>Results\<close>

lemma tick_simps [simp]:
  "vip_table (tick w) = vip_table w" "vip_range_backends (tick w) = vip_range_backends w"
  "vip_stats_table (tick w) = vip_stats_table w" "vip_addr_table (tick w) = vip_addr_table w"
  "vip_return_stats_table (tick w) = vip_return_stats_table w" "vip_range_table (tick w) = vip_range_table w"
  "vip_owned_table (tick w) = vip_owned_table w" "m_ops (tick w) = Suc (m_ops w)"
  by (simp_all add: tick_def)

lemma rows_tick [simp]: "rows t (tick w) = rows t w" "peer_rows t (tick w) = peer_rows t w"
  by (simp_all add: rows_def peer_rows_def)

lemma clockFn_simps [simp]: "clockFn kn w = (r, w') \<longleftrightarrow> r = Inr (now kn (m_ops w)) \<and> w' = tick w"
  by (auto simp: clockFn_def)

lemma Put_Inr [simp]: "Put kn upd w = (Inr x, w') \<longleftrightarrow> \<not> fault kn (m_ops w) \<and> w' = upd (tick w)"
  by (auto simp: Put_def)

lemma Put_cases:
  assumes "Put kn upd w = (r, w')"
  obtains (fault) "r = Inl (ErrKernel (m_ops w))" "w' = tick w" | (written) "r = Inr ()" "w' = upd (tick w)"
  using assms by (auto simp: Put_def split: if_splits)

lemma Delete_cases:
  assumes "ignoreMissing (Delete kn sel upd k) w = (r, w')"
  obtains (fault) "r = Inl (ErrKernel (m_ops w))" "w' = tick w"
  | (absent) "r = Inr ()" "w' = tick w" "map_of (sel w) k = None"
  | (written) v where "r = Inr ()" "w' = upd (tick w)" "map_of (sel w) k = Some v"
  using assms by (auto simp: ignoreMissing_def Delete_def split: if_splits option.splits)

lemma lookupOr_cases:
  assumes "lookupOr zero (Lookup kn sel k) w = (r, w')"
  shows "w' = tick w" "r = Inl (ErrKernel (m_ops w)) \<or> r = Inr (get zero (sel w) k)"
  using assms by (auto simp: lookupOr_def Lookup_def get_def split: if_splits option.splits)

lemma lookupOr_None_cases:
  assumes "lookupOr None (bind (Lookup kn sel k) (\<lambda>v. ret (Some v))) w = (r, w')"
  shows "w' = tick w" "r = Inl (ErrKernel (m_ops w)) \<or> r = Inr (map_of (sel w) k)"
  using assms by (auto simp: lookupOr_def Lookup_def bind_def ret_def split: if_splits option.splits)

section \<open>Wire forms\<close>

lemma beU16_beU16 [simp]: "beU16 (beU16 v) = v"
proof (rule bit_word_eqI)
  fix n assume "n < LENGTH(16)"
  then have "n < 16" by simp
  then show "bit (beU16 (beU16 v)) n = bit v n"
    by (auto simp: beU16_def bit_or_iff bit_push_bit_iff bit_drop_bit_eq dest: bit_imp_le_length)
qed

lemma beU16_eq [simp]: "beU16 v = beU16 v' \<longleftrightarrow> v = v'"
  by (metis beU16_beU16)

lemma AddrFrom16_As16_plain: "Is6 a \<Longrightarrow> Zone a = [] \<Longrightarrow> AddrFrom16 (As16 a) = a"
  by (cases a) (simp_all add: Is6_def Zone_def AddrFrom16_def As16_def)

definition mapped4 :: "u32 \<Rightarrow> u128" where
  "mapped4 v = push_bit 32 (mask 16) OR ucast v"

lemma As16_Addr4: "As16 (Addr4 v) = be_bytes 16 (mapped4 v)"
proof -
  have "(mask 16 :: u128) = 0xFFFF" by (simp add: mask_eq_exp_minus_1)
  then show ?thesis by (simp only: As16_def mapped4_def addr.case)
qed

lemma Is4In6_mask: "Is4In6 (Addr6 w z) \<longleftrightarrow> drop_bit 32 w = mask 16"
  by (simp add: Is4In6_def mask_eq_exp_minus_1)

lemma mapped4_simps: "drop_bit 32 (mapped4 v) = mask 16" "ucast (mapped4 v) = v"
proof -
  show "drop_bit 32 (mapped4 v) = mask 16"
    by (rule bit_word_eqI) (auto simp: mapped4_def bit_drop_bit_eq bit_or_iff bit_push_bit_iff bit_unsigned_iff bit_mask_iff
        dest: bit_imp_le_length)
  show "ucast (mapped4 v) = v"
    by (rule bit_word_eqI) (auto simp: mapped4_def bit_unsigned_iff bit_or_iff bit_push_bit_iff)
qed

lemma mapped4_inverse:
  assumes "drop_bit 32 w = mask 16"
  shows "mapped4 (ucast w) = w"
proof -
  have "push_bit 32 (drop_bit 32 w) OR take_bit 32 w = w"
    by (rule bit_word_eqI) (auto simp: bit_or_iff bit_push_bit_iff bit_drop_bit_eq bit_take_bit_iff)
  moreover have "take_bit 32 w = ucast (ucast w :: u32)"
    by (rule bit_word_eqI) (auto simp: bit_take_bit_iff bit_unsigned_iff)
  ultimately show ?thesis using assms by (simp add: mapped4_def)
qed

lemma As16_Addr6: "As16 (Addr6 w z) = be_bytes 16 w"
  by (simp add: As16_def)

lemma fromWireAddr_word:
  "fromWireAddr (be_bytes 16 w) = (if drop_bit 32 w = mask 16 then Addr4 (ucast w) else Addr6 w [])"
  by (simp add: fromWireAddr_def AddrFrom16_def Unmap_def Is4In6_mask)

lemma wire_inverse:
  assumes "toWireAddr a = Inr raw" "Zone a = []"
  shows "fromWireAddr raw = a"
proof (cases a)
  case (Addr4 v)
  with assms have "raw = be_bytes 16 (mapped4 v)" by (simp add: toWireAddr_def Is4_def As16_Addr4)
  with Addr4 show ?thesis by (simp add: fromWireAddr_word mapped4_simps)
next
  case (Addr6 v z)
  with assms have "raw = be_bytes 16 v" "z = []" "drop_bit 32 v \<noteq> mask 16"
    by (auto simp: toWireAddr_def Is4_def Is6_def As16_Addr6 Zone_def Is4In6_mask split: if_splits)
  with Addr6 show ?thesis by (simp add: fromWireAddr_word)
qed (use assms in \<open>simp add: toWireAddr_def Is4_def Is6_def\<close>)

lemma wire_fromWire:
  assumes "length raw = 16"
  shows "toWireAddr (fromWireAddr raw) = Inr raw"
proof -
  have "be_bytes 16 (be_word raw :: u128) = raw" using assms by simp
  then obtain w :: u128 where raw: "raw = be_bytes 16 w" by metis
  show ?thesis
    unfolding raw fromWireAddr_word
    by (auto simp: toWireAddr_def Is4_def Is6_def As16_Addr4 As16_Addr6 mapped4_inverse Is4In6_mask)
qed

lemma toWireAddr_length: "toWireAddr a = Inr raw \<Longrightarrow> length raw = 16"
  by (auto simp: toWireAddr_def split: if_splits)

text \<open>Two addresses without zone have the same wire form only if they are the same.\<close>

lemma wire_eq:
  assumes "length raw = 16" "toWireAddr a = Inr raw'" "Zone a = []"
  shows "fromWireAddr raw = a \<longleftrightarrow> raw = raw'"
proof
  assume "fromWireAddr raw = a"
  then show "raw = raw'" using wire_fromWire [OF assms(1)] assms(2) by simp
next
  assume "raw = raw'"
  then show "fromWireAddr raw = a" using wire_inverse [OF assms(2,3)] by simp
qed

lemma wireBackends_inverse:
  assumes "wireBackends bs = Inr out" "\<forall>b \<in> set bs. Zone (eb_Addr b) = [] \<and> Zone (eb_USID b) = []"
  shows "length out = length bs \<and>
    map (\<lambda>wb. \<lparr>eb_Addr = fromWireAddr (w_addr wb), eb_Port = beU16 (w_port wb), eb_USID = AddrFrom16 (w_usid wb)\<rparr>) out = bs"
  using assms
proof (induction bs arbitrary: out)
  case (Cons b bs)
  obtain a rest where ok: "toWireAddr (eb_Addr b) = Inr a" "Is6 (eb_USID b)" "wireBackends bs = Inr rest"
    "out = \<lparr>w_addr = a, w_port = beU16 (eb_Port b), w_usid = As16 (eb_USID b)\<rparr> # rest"
    using Cons.prems(1) by (auto split: sum.splits if_splits)
  then show ?case using Cons wire_inverse [OF ok(1)] AddrFrom16_As16_plain [OF ok(2)] by simp
qed simp

section \<open>What the operations write\<close>

lemma set_rows_simps [simp]:
  "rows t (set_rows t f w) = f (rows t w)" "peer_rows t (set_rows t f w) = peer_rows t w"
  "vip_stats_table (set_rows t f w) = vip_stats_table w" "vip_addr_table (set_rows t f w) = vip_addr_table w"
  "vip_return_stats_table (set_rows t f w) = vip_return_stats_table w" "vip_range_table (set_rows t f w) = vip_range_table w"
  "vip_owned_table (set_rows t f w) = vip_owned_table w" "m_ops (set_rows t f w) = m_ops w"
  by (simp_all add: set_rows_def rows_def peer_rows_def)

lemma rows_frame [simp]:
  "rows t (w\<lparr>vip_addr_table := a\<rparr>) = rows t w" "peer_rows t (w\<lparr>vip_addr_table := a\<rparr>) = peer_rows t w"
  "rows t (w\<lparr>vip_stats_table := b\<rparr>) = rows t w" "peer_rows t (w\<lparr>vip_stats_table := b\<rparr>) = peer_rows t w"
  "rows t (w\<lparr>vip_return_stats_table := c\<rparr>) = rows t w" "peer_rows t (w\<lparr>vip_return_stats_table := c\<rparr>) = peer_rows t w"
  "rows t (w\<lparr>vip_range_table := d\<rparr>) = rows t w" "peer_rows t (w\<lparr>vip_range_table := d\<rparr>) = peer_rows t w"
  "rows t (w\<lparr>vip_owned_table := e\<rparr>) = rows t w" "peer_rows t (w\<lparr>vip_owned_table := e\<rparr>) = peer_rows t w"
  by (simp_all add: rows_def peer_rows_def)

definition row_value :: "u8 \<Rightarrow> Backend list \<Rightarrow> wire_backend list \<Rightarrow> u8 list \<Rightarrow> u64 \<Rightarrow> vip_value" where
  "row_value affinity backends wb maglevTable generation =
     \<lparr>v_backend_count = of_nat (length backends), v_backends = wb, v_maglev_table = maglevTable,
      v_affinity = affinity, v_generation = generation\<rparr>"

lemma toWireKey_Inr:
  "toWireKey key = Inr wk \<longleftrightarrow> (\<exists>raw. toWireAddr (vk_VIP key) = Inr raw \<and>
     wk = \<lparr>k_proto = vk_Proto key, k_port = beU16 (vk_VPort key), k_vip = raw\<rparr>)"
  by (auto simp: toWireKey_def split: sum.splits)

lemma Register_Inr:
  "Register kn t key affinity backends maglevTable w = (Inr u, w') \<longleftrightarrow>
    affinity \<in> {AffinityNone, AffinityClientIP, AffinityClientIPAndProtocol} \<and> backends \<noteq> [] \<and> length backends \<le> MaxBackends \<and>
    \<not> fault kn (Suc (m_ops w)) \<and> \<not> fault kn (Suc (Suc (m_ops w))) \<and>
    (\<exists>wk wb. toWireKey key = Inr wk \<and> toWireBackends backends = Inr wb \<and>
      w' = tick (set_rows t (AList.update wk (row_value affinity backends wb maglevTable (now kn (m_ops w)))) (tick (tick w)))
             \<lparr>vip_addr_table := AList.update (k_vip wk) (now kn (m_ops w)) (vip_addr_table w)\<rparr>)"
  by (auto simp: Register_def claimAddr_def toWireAddrKey_def toWireKey_Inr row_value_def Let_def)

text \<open>Every outcome of a registration: nothing changed, or the row was written, or the row was written
  and its address claimed; only the last is a success.\<close>

lemma Register_cases:
  assumes "Register kn t key affinity backends maglevTable w = (r, w')"
  shows "peer_rows t w' = peer_rows t w \<and>
    ((\<exists>e. r = Inl e) \<and> rows t w' = rows t w \<and> vip_addr_table w' = vip_addr_table w \<or>
     (\<exists>wk v. toWireKey key = Inr wk \<and> rows t w' = AList.update wk v (rows t w) \<and>
       ((\<exists>e. r = Inl e) \<and> vip_addr_table w' = vip_addr_table w \<or>
        r = Inr () \<and> (\<exists>g. vip_addr_table w' = AList.update (k_vip wk) g (vip_addr_table w)))))"
proof (cases "affinity \<notin> {AffinityNone, AffinityClientIP, AffinityClientIPAndProtocol} \<or> backends = [] \<or> length backends > MaxBackends")
  case True
  with assms show ?thesis by (auto simp: Register_def split: if_splits)
next
  case False
  then have guards: "(affinity \<notin> {AffinityNone, AffinityClientIP, AffinityClientIPAndProtocol}) = False" "(backends = []) = False"
    "(length backends > MaxBackends) = False" by simp_all
  note run = assms [unfolded Register_def guards if_False Let_def bind_def lift_def clockFn_def]
  show ?thesis
  proof (cases "toWireKey key")
    case (Inl e)
    with run show ?thesis by auto
  next
    case wk: (Inr wk)
    then have raw: "toWireAddr (vk_VIP key) = Inr (k_vip wk)" by (auto simp: toWireKey_Inr)
    show ?thesis
    proof (cases "toWireBackends backends")
      case (Inl e)
      with run wk show ?thesis by auto
    next
      case wb: (Inr wb)
      with run wk raw show ?thesis
        by (cases "fault kn (Suc (m_ops w))"; cases "fault kn (Suc (Suc (m_ops w)))")
          (force simp: Put_def claimAddr_def toWireAddrKey_def bind_def lift_def)+
    qed
  qed
qed

definition uses :: "addr \<Rightarrow> (vip_key \<times> vip_value) list \<Rightarrow> bool" where
  "uses vip rs = list_ex (\<lambda>(key, _). fromWireAddr (k_vip key) = vip) rs"

lemma uses_take: "uses vip (take n rs) \<Longrightarrow> uses vip rs"
  unfolding uses_def list_ex_iff by (meson in_set_takeD)

lemma scanAddr_cases:
  assumes "scanAddr kn sel vip w = (r, w')"
  shows "w' = tick w" "r = Inr b \<Longrightarrow> b = uses vip (sel w)"
proof -
  note run = assms [unfolded scanAddr_def Iterate_def, folded uses_def]
  show "w' = tick w" using run by (simp split: if_splits)
  show "b = uses vip (sel w)" if "r = Inr b"
    using run that uses_take [of vip "cut kn (m_ops w)" "sel w"] by (simp split: if_splits)
qed

definition in_use :: "VIPTable \<Rightarrow> addr \<Rightarrow> maps \<Rightarrow> bool" where
  "in_use t vip w \<longleftrightarrow> uses vip (rows t w) \<or> (vt_peer t \<and> uses vip (peer_rows t w))"

lemma delete_missing: "map_of m k = None \<Longrightarrow> AList.delete k m = m"
  by (simp add: delete_absent map_of_eq_None_iff)

lemma releaseAddr_cases:
  assumes "releaseAddr kn t vip w = (r, w')"
  obtains (kept) "vip_addr_table w' = vip_addr_table w" "rows t w' = rows t w" "peer_rows t w' = peer_rows t w"
      "r = Inr () \<longrightarrow> in_use t vip w"
  | (released) raw where "toWireAddr vip = Inr raw" "\<not> in_use t vip w" "rows t w' = rows t w" "peer_rows t w' = peer_rows t w"
      "vip_addr_table w' = AList.delete raw (vip_addr_table w)"
proof -
  let ?del = "\<lambda>raw. bind (ignoreMissing (Delete kn vip_addr_table
      (\<lambda>w. w\<lparr>vip_addr_table := AList.delete raw (vip_addr_table w)\<rparr>) raw)) (\<lambda>_.
      ignoreMissing (Delete kn vip_return_stats_table
        (\<lambda>w. w\<lparr>vip_return_stats_table := AList.delete raw (vip_return_stats_table w)\<rparr>) raw))"
  have del: "rows t w2 = rows t w1 \<and> peer_rows t w2 = peer_rows t w1 \<and>
      (vip_addr_table w2 = AList.delete raw (vip_addr_table w1) \<or> (\<exists>e. r = Inl e) \<and> vip_addr_table w2 = vip_addr_table w1)"
    if "?del raw w1 = (r, w2)" for raw w1 w2
    using that by (auto elim!: bind_cases Delete_cases simp: delete_missing)
  have peer: "w1 = w \<or> w1 = tick w" "vt_peer t \<Longrightarrow> b = uses vip (peer_rows t w)"
    "\<not> vt_peer t \<Longrightarrow> \<not> b"
    if "(if vt_peer t then scanAddr kn (peer_rows t) vip else ret False) w = (Inr b, w1)" for b w1
    using that scanAddr_cases [of kn "peer_rows t" vip w] by (auto split: if_splits)
  show thesis
    using assms unfolding releaseAddr_def
  proof (cases rule: bind_cases)
    case (left e)
    then have "w' = w \<or> w' = tick w" using scanAddr_cases(1) by (auto split: if_splits)
    with left kept show thesis by auto
  next
    case (right b w1)
    note p = peer [OF right(1)]
    show thesis
    proof (cases b)
      case True
      with right p show thesis by (intro kept) (auto simp: in_use_def)
    next
      case False
      with right have run: "bind (lift (toWireAddrKey vip)) (\<lambda>wireAddr. bind (scanAddr kn (rows t) vip)
          (\<lambda>used. if used then ret () else ?del wireAddr)) w1 = (r, w')" by simp
      then show thesis
      proof (cases rule: bind_cases)
        case (left e)
        with p(1) show thesis by (intro kept) auto
      next
        case (right raw w2)
        then have raw: "toWireAddr vip = Inr raw" "w2 = w1" by (simp_all add: toWireAddrKey_def)
        from right(2) show thesis
        proof (cases rule: bind_cases)
          case (left e)
          with scanAddr_cases(1) [OF left(1)] raw(2) p(1) show thesis by (intro kept) auto
        next
          case (right u w3)
          have w3: "w3 = tick w1" "u = uses vip (rows t w)"
            using scanAddr_cases [OF right(1)] raw(2) p(1) by auto
          show thesis
          proof (cases u)
            case True
            with right(2) w3 p(1) show thesis by (intro kept) (auto simp: in_use_def)
          next
            case False
            with right(2) have d: "?del raw w3 = (r, w')" by simp
            have nu: "\<not> in_use t vip w" using False w3 p(2,3) \<open>\<not> b\<close> by (auto simp: in_use_def)
            have same: "rows t w3 = rows t w" "peer_rows t w3 = peer_rows t w" "vip_addr_table w3 = vip_addr_table w"
              using w3(1) p(1) by auto
            show thesis using del [OF d] same raw(1) nu kept released by auto
          qed
        qed
      qed
    qed
  qed
qed

lemma Unregister_cases:
  assumes "Unregister kn t key w = (r, w')"
  shows "peer_rows t w' = peer_rows t w \<and>
    ((\<exists>e. r = Inl e) \<and> rows t w' = rows t w \<and> vip_addr_table w' = vip_addr_table w \<or>
     (\<exists>wk. toWireKey key = Inr wk \<and> rows t w' = AList.delete wk (rows t w) \<and>
       (vip_addr_table w' = vip_addr_table w \<and> (r = Inr () \<longrightarrow> in_use t (vk_VIP key) w') \<or>
        vip_addr_table w' = AList.delete (k_vip wk) (vip_addr_table w) \<and> \<not> in_use t (vk_VIP key) w')))"
proof -
  have row: "peer_rows t w2 = peer_rows t w1 \<and> vip_addr_table w2 = vip_addr_table w1 \<and>
      (r = Inr () \<and> rows t w2 = AList.delete wk (rows t w1) \<or> (\<exists>e. r = Inl e) \<and> rows t w2 = rows t w1)"
    if "deleteRow kn t wk w1 = (r, w2)" for wk w1 w2 and r :: "edge_error + unit"
    using that unfolding deleteRow_def by (cases rule: Delete_cases) (auto simp: delete_missing)
  have stats: "rows t w2 = rows t w1 \<and> peer_rows t w2 = peer_rows t w1 \<and> vip_addr_table w2 = vip_addr_table w1"
    if "deleteStats kn wk w1 = (r, w2)" for wk w1 w2 and r :: "edge_error + unit"
    using that unfolding deleteStats_def by (cases rule: Delete_cases) auto
  from assms show ?thesis unfolding Unregister_def
  proof (cases rule: bind_cases)
    case (left e)
    then show ?thesis by simp
  next
    case (right wk w1)
    then have wk: "toWireKey key = Inr wk" "w1 = w" by simp_all
    from right(2) show ?thesis
    proof (cases rule: bind_cases)
      case (left e)
      then show ?thesis using row [OF left(1)] wk by auto
    next
      case (right u w2)
      then have w2: "rows t w2 = AList.delete wk (rows t w)" "peer_rows t w2 = peer_rows t w" "vip_addr_table w2 = vip_addr_table w"
        using row [OF right(1)] wk(2) by auto
      from right(2) show ?thesis
      proof (cases rule: bind_cases)
        case (left e)
        then show ?thesis using stats [OF left(1)] w2 wk by auto
      next
        case (right u w3)
        then have w3: "rows t w3 = AList.delete wk (rows t w)" "peer_rows t w3 = peer_rows t w" "vip_addr_table w3 = vip_addr_table w"
          using stats [OF right(1)] w2 by auto
        have raw: "toWireAddr (vk_VIP key) = Inr (k_vip wk)" using wk(1) by (auto simp: toWireKey_Inr)
        from right(2) show ?thesis
        proof (cases rule: releaseAddr_cases)
          case kept
          then show ?thesis using w3 wk by (auto simp: in_use_def)
        next
          case (released raw')
          then show ?thesis using w3 wk raw by (auto simp: in_use_def)
        qed
      qed
    qed
  qed
qed

section \<open>The return path's addresses\<close>

definition row_addrs :: "maps \<Rightarrow> bytes set" where
  "row_addrs w = (\<lambda>(k, v). k_vip k) ` (set (vip_table w) \<union> set (vip_range_backends w))"

definition claims :: "maps \<Rightarrow> bytes set" where
  "claims w = fst ` set (vip_addr_table w)"

definition wire_maps :: "maps \<Rightarrow> bool" where
  "wire_maps w \<longleftrightarrow> (\<forall>raw \<in> row_addrs w \<union> claims w. length raw = 16) \<and>
     distinct (map fst (vip_table w)) \<and> distinct (map fst (vip_range_backends w)) \<and> distinct (map fst (vip_addr_table w))"

lemma row_addrs_rows: "row_addrs w = (\<lambda>(k, v). k_vip k) ` (set (rows t w) \<union> set (peer_rows t w))"
  by (auto simp: row_addrs_def rows_def peer_rows_def)

lemma distinct_rows: "wire_maps w \<longleftrightarrow> (\<forall>raw \<in> row_addrs w \<union> claims w. length raw = 16) \<and>
     distinct (map fst (rows t w)) \<and> distinct (map fst (peer_rows t w)) \<and> distinct (map fst (vip_addr_table w))"
  by (auto simp: wire_maps_def rows_def peer_rows_def)

lemma in_use_iff:
  assumes "wire_maps w" "vt_peer t" "toWireAddr vip = Inr raw" "Zone vip = []"
  shows "in_use t vip w \<longleftrightarrow> raw \<in> row_addrs w"
proof -
  have len: "length (k_vip k) = 16" if "(k, v) \<in> set (rows t w) \<union> set (peer_rows t w)" for k v
    using that assms(1) unfolding wire_maps_def row_addrs_rows [of w t] by force
  have "in_use t vip w \<longleftrightarrow> (\<exists>(k, v) \<in> set (rows t w) \<union> set (peer_rows t w). fromWireAddr (k_vip k) = vip)"
    using assms(2) by (auto simp: in_use_def uses_def list_ex_iff)
  also have "\<dots> \<longleftrightarrow> (\<exists>(k, v) \<in> set (rows t w) \<union> set (peer_rows t w). k_vip k = raw)"
    using len wire_eq [OF _ assms(3,4)] by blast
  finally show ?thesis by (force simp: row_addrs_rows [of w t])
qed

lemma image_update:
  "distinct (map fst m) \<Longrightarrow> fst ` set (AList.update k v m) = insert k (fst ` set m)"
  by (auto simp: dom_update simp flip: dom_map_of_conv_image_fst) (auto simp: update_conv')

lemma image_delete: "fst ` set (AList.delete k m) = fst ` set m - {k}"
  by (auto simp: set_delete image_iff)

definition claims_ok :: "bool \<Rightarrow> maps \<Rightarrow> bool" where
  "claims_ok exact w \<longleftrightarrow> wire_maps w \<and> row_addrs w \<subseteq> claims w \<and> (exact \<longrightarrow> claims w \<subseteq> row_addrs w)"

lemma claims_same: "vip_addr_table w' = vip_addr_table w \<Longrightarrow> claims w' = claims w"
  by (simp add: claims_def)

lemma claims_delete: "vip_addr_table w' = AList.delete raw (vip_addr_table w) \<Longrightarrow> claims w' = claims w - {raw}"
  by (simp only: claims_def image_delete)

lemma distinct_delete_fst: "distinct (map fst m) \<Longrightarrow> distinct (map fst (AList.delete k m))"
  by (simp add: distinct_delete)

lemma set_delete_subset: "set (AList.delete k m) \<subseteq> set m"
  by (auto simp: set_delete)

lemma claims_release:
  assumes "claims_ok exact w" "vt_peer t" "Zone vip = []" "releaseAddr kn t vip w = (r, w')"
  shows "claims_ok exact w'"
proof -
  have wm: "wire_maps w" "row_addrs w \<subseteq> claims w" "exact \<Longrightarrow> claims w \<subseteq> row_addrs w" using assms(1) by (auto simp: claims_ok_def)
  from assms(4) show ?thesis
  proof (cases rule: releaseAddr_cases)
    case kept
    then have "row_addrs w' = row_addrs w" "claims w' = claims w" by (simp_all add: row_addrs_rows [of _ t] claims_def)
    with kept wm show ?thesis by (simp add: claims_ok_def distinct_rows [of _ t])
  next
    case (released raw)
    have nu: "raw \<notin> row_addrs w" using in_use_iff [OF wm(1) assms(2) released(1) assms(3)] released(2) by simp
    have "row_addrs w' = row_addrs w" "claims w' = claims w - {raw}"
      using released claims_delete by (simp_all add: row_addrs_rows [of _ t])
    with released wm nu show ?thesis by (auto simp: claims_ok_def distinct_rows [of _ t] distinct_delete_fst)
  qed
qed

lemma claims_unregister:
  assumes "claims_ok exact w" "vt_peer t" "Zone (vk_VIP key) = []" "Unregister kn t key w = (r, w')"
  shows "claims_ok (exact \<and> r = Inr ()) w'"
proof -
  have wm: "wire_maps w" "row_addrs w \<subseteq> claims w" "exact \<Longrightarrow> claims w \<subseteq> row_addrs w" using assms(1) by (auto simp: claims_ok_def)
  have peer: "peer_rows t w' = peer_rows t w" using Unregister_cases [OF assms(4)] by simp
  from Unregister_cases [OF assms(4)] consider
      (none) "rows t w' = rows t w" "vip_addr_table w' = vip_addr_table w" "r \<noteq> Inr ()"
    | (gone) wk where "toWireKey key = Inr wk" "rows t w' = AList.delete wk (rows t w)"
        "vip_addr_table w' = vip_addr_table w \<and> (r = Inr () \<longrightarrow> in_use t (vk_VIP key) w') \<or>
         vip_addr_table w' = AList.delete (k_vip wk) (vip_addr_table w) \<and> \<not> in_use t (vk_VIP key) w'"
    by auto
  then show ?thesis
  proof cases
    case none
    then have "row_addrs w' = row_addrs w" "claims w' = claims w" using peer by (simp_all add: row_addrs_rows [of _ t] claims_def)
    with none wm peer show ?thesis by (auto simp: claims_ok_def distinct_rows [of _ t])
  next
    case (gone wk)
    have raw: "toWireAddr (vk_VIP key) = Inr (k_vip wk)" using gone(1) by (auto simp: toWireKey_Inr)
    have rows': "row_addrs w' \<subseteq> row_addrs w" "row_addrs w \<subseteq> insert (k_vip wk) (row_addrs w')"
      unfolding row_addrs_rows [of _ t] gone(2) peer by (force simp: set_delete)+
    have c: "claims w' = claims w \<and> (r = Inr () \<longrightarrow> in_use t (vk_VIP key) w') \<or>
        claims w' = claims w - {k_vip wk} \<and> \<not> in_use t (vk_VIP key) w'"
      using gone(3) claims_same claims_delete by blast
    have d': "distinct (map fst (vip_addr_table w'))"
      using gone(3) wm(1) unfolding wire_maps_def by (auto simp: distinct_delete_fst)
    have wm': "wire_maps w'"
      using wm(1) rows'(1) c peer gone(2) d' unfolding distinct_rows [of _ t] by (auto simp: distinct_delete_fst)
    have use: "in_use t (vk_VIP key) w' \<longleftrightarrow> k_vip wk \<in> row_addrs w'" using in_use_iff [OF wm' assms(2) raw assms(3)] .
    have "row_addrs w' \<subseteq> claims w'" using c rows' wm(2) use by auto
    moreover have "claims w' \<subseteq> row_addrs w'" if "exact" "r = Inr ()"
      using c rows' wm(3) [OF that(1)] use that(2) by auto
    ultimately show ?thesis using wm' by (auto simp: claims_ok_def)
  qed
qed

lemma claims_register:
  assumes "claims_ok exact w" "Register kn t key affinity backends maglevTable w = (Inr u, w')"
  shows "claims_ok exact w'"
proof -
  have wm: "wire_maps w" "row_addrs w \<subseteq> claims w" "exact \<Longrightarrow> claims w \<subseteq> row_addrs w" using assms(1) by (auto simp: claims_ok_def)
  have d: "distinct (map fst (rows t w))" "distinct (map fst (vip_addr_table w))" using wm(1) unfolding distinct_rows [of w t] by simp_all
  from Register_cases [OF assms(2)] obtain wk v g where e: "toWireKey key = Inr wk" "rows t w' = AList.update wk v (rows t w)"
    "vip_addr_table w' = AList.update (k_vip wk) g (vip_addr_table w)" "peer_rows t w' = peer_rows t w" by auto
  have len: "length (k_vip wk) = 16" using e(1) toWireAddr_length by (auto simp: toWireKey_Inr)
  have rows': "row_addrs w' \<subseteq> insert (k_vip wk) (row_addrs w)" "insert (k_vip wk) (row_addrs w) \<subseteq> row_addrs w'"
  proof -
    have keys: "fst ` set (rows t w') = insert wk (fst ` set (rows t w))" using e(2) image_update [OF d(1)] by simp
    have "row_addrs x = k_vip ` (fst ` set (rows t x) \<union> fst ` set (peer_rows t x))" for x
      by (auto simp: row_addrs_rows [of _ t] image_Un image_image split_def)
    then show "row_addrs w' \<subseteq> insert (k_vip wk) (row_addrs w)" "insert (k_vip wk) (row_addrs w) \<subseteq> row_addrs w'"
      using keys e(4) by auto
  qed
  have "claims w' = insert (k_vip wk) (claims w)" using e(3) image_update [OF d(2)] by (simp add: claims_def)
  with rows' wm len d e show ?thesis
    unfolding claims_ok_def distinct_rows [of _ t] by (auto simp: distinct_update)
qed

section \<open>Reconciling\<close>

definition same_maps :: "maps \<Rightarrow> maps \<Rightarrow> bool" where
  "same_maps w w' \<longleftrightarrow> vip_table w' = vip_table w \<and> vip_range_backends w' = vip_range_backends w \<and>
     vip_stats_table w' = vip_stats_table w \<and> vip_addr_table w' = vip_addr_table w \<and>
     vip_return_stats_table w' = vip_return_stats_table w \<and> vip_range_table w' = vip_range_table w \<and>
     vip_owned_table w' = vip_owned_table w"

lemma same_maps_refl [simp]: "same_maps w w" "same_maps w (tick w)"
  by (simp_all add: same_maps_def)

lemma same_maps_tick [simp]: "same_maps (tick w) w' = same_maps w w'"
  by (simp add: same_maps_def)

lemma same_maps_trans: "same_maps w w' \<Longrightarrow> same_maps w' w'' \<Longrightarrow> same_maps w w''"
  by (simp add: same_maps_def)

lemma same_maps_rows: "same_maps w w' \<Longrightarrow> rows t w' = rows t w \<and> peer_rows t w' = peer_rows t w \<and> vip_addr_table w' = vip_addr_table w"
  by (simp add: same_maps_def rows_def peer_rows_def)

lemma claims_same_maps: "same_maps w w' \<Longrightarrow> claims_ok exact w' = claims_ok exact w"
  by (simp add: same_maps_def claims_ok_def wire_maps_def row_addrs_def claims_def)

lemma Iterate_cases:
  obtains ents err where "Iterate kn sel w = ((ents, err), tick w)" "err = None \<longrightarrow> ents = sel w" "set ents \<subseteq> set (sel w)"
proof (cases "fault kn (m_ops w)")
  case True
  then show thesis by (intro that [of "take (cut kn (m_ops w)) (sel w)" "Some (ErrKernel (m_ops w))"])
    (auto simp: Iterate_def dest: in_set_takeD)
next
  case False
  then show thesis by (intro that [of "sel w" None]) (auto simp: Iterate_def)
qed

lemma listEntries_same:
  "listEntries kn ents w = (r, w') \<Longrightarrow> same_maps w w' \<and>
    (\<forall>es. r = Inr es \<longrightarrow> map (\<lambda>e. (ve_Key e, ve_Generation e)) es = map (\<lambda>(raw, v). (fromWireKey raw, v_generation v)) ents)"
proof (induction ents arbitrary: w r w')
  case (Cons p ents)
  obtain raw v where p: "p = (raw, v)" by (cases p)
  from Cons.prems [unfolded p listEntries.simps] show ?case
  proof (cases rule: bind_cases)
    case (left e)
    then have "w' = tick w" using lookupOr_cases(1) [OF left(1) [unfolded lookupStats_def]] by simp
    with left show ?thesis by simp
  next
    case (right stats w1)
    then have w1: "w1 = tick w" using lookupOr_cases(1) [OF right(1) [unfolded lookupStats_def]] by simp
    from right(2) show ?thesis
    proof (cases rule: bind_cases)
      case (left e)
      then show ?thesis using Cons.IH [OF left(1)] w1 by auto
    next
      case (right es w2)
      then show ?thesis using Cons.IH [OF right(1)] w1 p by (auto simp: fromWireValue_def)
    qed
  qed
qed simp

lemma List_same:
  assumes "List kn t w = (r, w')"
  shows "same_maps w w'"
    "r = Inr es \<Longrightarrow> map (\<lambda>e. (ve_Key e, ve_Generation e)) es = map (\<lambda>(raw, v). (fromWireKey raw, v_generation v)) (rows t w)"
proof -
  obtain ents err where it: "Iterate kn (rows t) w = ((ents, err), tick w)" "err = None \<longrightarrow> ents = rows t w"
    by (rule Iterate_cases)
  have run: "bind (listEntries kn ents) (\<lambda>es. bind (iterErr err) (\<lambda>_. ret es)) (tick w) = (r, w')"
    using assms it(1) by (simp add: List_def)
  have err: "w2 = w1 \<and> (x = Inr u \<longrightarrow> err = None)" if "iterErr err w1 = (x, w2)" for w1 w2 x u
    using that by (auto simp: iterErr_def split: option.splits)
  from run have "same_maps w w' \<and> (r = Inr es \<longrightarrow>
      map (\<lambda>e. (ve_Key e, ve_Generation e)) es = map (\<lambda>(raw, v). (fromWireKey raw, v_generation v)) (rows t w))"
  proof (cases rule: bind_cases)
    case (left e)
    then show ?thesis using listEntries_same [OF left(1)] by auto
  next
    case (right es' w1)
    note l = listEntries_same [OF right(1)]
    from right(2) show ?thesis
    proof (cases rule: bind_cases)
      case (left e)
      then show ?thesis using l err [OF left(1)] by auto
    next
      case (right u w2)
      then show ?thesis using l err [OF right(1)] it(2) by auto
    qed
  qed
  then show "same_maps w w'"
    "r = Inr es \<Longrightarrow> map (\<lambda>e. (ve_Key e, ve_Generation e)) es = map (\<lambda>(raw, v). (fromWireKey raw, v_generation v)) (rows t w)"
    by simp_all
qed

lemma listReturns_same:
  "listReturns kn ents w = (r, w') \<Longrightarrow> same_maps w w' \<and>
    (\<forall>rs. r = Inr rs \<longrightarrow> map re_VIP rs = map (\<lambda>(raw, g). fromWireAddr raw) ents)"
proof (induction ents arbitrary: w r w')
  case (Cons p ents)
  obtain raw g where p: "p = (raw, g)" by (cases p)
  from Cons.prems [unfolded p listReturns.simps] show ?case
  proof (cases rule: bind_cases)
    case (left e)
    then have "w' = tick w" using lookupOr_cases(1) [OF left(1)] by simp
    with left show ?thesis by simp
  next
    case (right stats w1)
    then have w1: "w1 = tick w" using lookupOr_cases(1) [OF right(1)] by simp
    from right(2) show ?thesis
    proof (cases rule: bind_cases)
      case (left e)
      then show ?thesis using Cons.IH [OF left(1)] w1 by auto
    next
      case (right es w2)
      then show ?thesis using Cons.IH [OF right(1)] w1 p by auto
    qed
  qed
qed simp

lemma ListReturn_same:
  assumes "ListReturn kn w = (r, w')"
  shows "same_maps w w'" "r = Inr rs \<Longrightarrow> x \<in> set rs \<Longrightarrow> Zone (re_VIP x) = []"
proof -
  obtain ents err where it: "Iterate kn vip_addr_table w = ((ents, err), tick w)" by (rule Iterate_cases)
  have run: "bind (listReturns kn ents) (\<lambda>es. bind (iterErr err) (\<lambda>_. ret es)) (tick w) = (r, w')"
    using assms it(1) by (simp add: ListReturn_def)
  have err: "w2 = w1" if "iterErr err w1 = (x, w2)" for w1 w2 and x
    using that by (auto simp: iterErr_def split: option.splits)
  have zone: "Zone (fromWireAddr raw) = []" for raw
    by (simp add: fromWireAddr_def AddrFrom16_def Unmap_def Zone_def)
  have zones: "\<forall>x \<in> set rs. Zone (re_VIP x) = []" if "map re_VIP rs = map (\<lambda>(raw, g). fromWireAddr raw) ents" for rs
  proof
    fix x assume "x \<in> set rs"
    then have "re_VIP x \<in> set (map re_VIP rs)" by simp
    then show "Zone (re_VIP x) = []" unfolding that using zone by auto
  qed
  from run have "same_maps w w' \<and> (r = Inr rs \<longrightarrow> (\<forall>x \<in> set rs. Zone (re_VIP x) = []))"
  proof (cases rule: bind_cases)
    case (left e)
    then show ?thesis using listReturns_same [OF left(1)] by auto
  next
    case (right es' w1)
    note l = listReturns_same [OF right(1)]
    from right(2) show ?thesis
    proof (cases rule: bind_cases)
      case (left e)
      then show ?thesis using l err [OF left(1)] by auto
    next
      case (right u w2)
      then show ?thesis using l err [OF right(1)] zones by auto
    qed
  qed
  then show "same_maps w w'" "r = Inr rs \<Longrightarrow> x \<in> set rs \<Longrightarrow> Zone (re_VIP x) = []" by simp_all
qed

lemma tryEach_inv:
  assumes "tryEach f xs w = ((ok, errs), w')" "P b w"
    and "\<And>x b w r w'. x \<in> set xs \<Longrightarrow> P b w \<Longrightarrow> f x w = (r, w') \<Longrightarrow> P (b \<and> r = Inr ()) w'"
  shows "P (b \<and> errs = []) w'"
  using assms
proof (induction f xs w arbitrary: b ok errs w' rule: tryEach.induct)
  case (2 f x xs w)
  obtain r w1 where fx: "f x w = (r, w1)" by fastforce
  obtain ok' errs' w2 where rest: "tryEach f xs w1 = ((ok', errs'), w2)" by (metis prod.exhaust)
  have later: "P (b \<and> r = Inr ()) w'" if "y \<in> set xs" "P b w" "f y w = (r, w')" for y b w r w'
    using "2.prems"(3) [of y] that by simp
  have step: "P (b \<and> r = Inr ()) w1" using "2.prems"(3) [OF _ "2.prems"(2) fx] by simp
  show ?case
  proof (cases r)
    case (Inl e)
    have "P ((b \<and> r = Inr ()) \<and> errs' = []) w2"
      by (rule "2.IH"(1) [OF fx [symmetric] Inl rest step]) (rule later)
    then show ?thesis using "2.prems"(1) fx rest Inl by auto
  next
    case (Inr u)
    have "P ((b \<and> r = Inr ()) \<and> errs' = []) w2"
      by (rule "2.IH"(2) [OF fx [symmetric] Inr rest step]) (rule later)
    then show ?thesis using "2.prems"(1) fx rest Inr by auto
  qed
qed auto

lemma claims_weaken: "claims_ok exact w \<Longrightarrow> (exact' \<Longrightarrow> exact) \<Longrightarrow> claims_ok exact' w"
  by (auto simp: claims_ok_def)

lemma Zone_fromWire [simp]: "Zone (fromWireAddr raw) = []" "Zone (vk_VIP (fromWireKey k)) = []"
  by (simp_all add: fromWireAddr_def AddrFrom16_def Unmap_def Zone_def fromWireKey_def)

lemma List_keys:
  assumes "List kn t w = (Inr es, w')" "e \<in> set es"
  obtains raw v where "(raw, v) \<in> set (rows t w)" "ve_Key e = fromWireKey raw" "ve_Generation e = v_generation v"
proof -
  have "(ve_Key e, ve_Generation e) \<in> set (map (\<lambda>e. (ve_Key e, ve_Generation e)) es)" using assms(2) by auto
  then have "(ve_Key e, ve_Generation e) \<in> (\<lambda>(raw, v). (fromWireKey raw, v_generation v)) ` set (rows t w)"
    using List_same(2) [OF assms(1) refl] by simp
  then obtain raw v where "(raw, v) \<in> set (rows t w)" "ve_Key e = fromWireKey raw" "ve_Generation e = v_generation v" by auto
  then show thesis by (rule that)
qed

lemma tryEach_exists: "\<exists>ok errs w'. tryEach f xs w = ((ok, errs), w')"
  by (cases "tryEach f xs w") auto

lemma claims_reconcileAddrs:
  assumes "claims_ok exact w" "vt_peer t" "reconcileAddrs kn t cutoff w = (errs, w')"
  shows "claims_ok exact w' \<and> rows t w' = rows t w \<and> peer_rows t w' = peer_rows t w"
proof -
  obtain r1 w1 where l: "List kn t w = (r1, w1)" by fastforce
  have c1: "claims_ok exact w1" "rows t w1 = rows t w" "peer_rows t w1 = peer_rows t w"
    using List_same(1) [OF l] assms(1) same_maps_rows by (simp_all add: claims_same_maps)
  show ?thesis
  proof (cases r1)
    case (Inl e)
    with assms(3) l c1 show ?thesis by (simp add: reconcileAddrs_def)
  next
    case (Inr es)
    obtain r2 w2 where lr: "ListReturn kn w1 = (r2, w2)" by fastforce
    have c2: "claims_ok exact w2" "rows t w2 = rows t w" "peer_rows t w2 = peer_rows t w"
      using ListReturn_same(1) [OF lr] c1 same_maps_rows by (simp_all add: claims_same_maps)
    show ?thesis
    proof (cases r2)
      case (Inl e)
      with assms(3) l lr \<open>r1 = Inr es\<close> c2 show ?thesis by (simp add: reconcileAddrs_def)
    next
      case rs: (Inr rs)
      let ?stale = "filter (\<lambda>r. re_VIP r \<notin> set (map (\<lambda>e. vk_VIP (ve_Key e)) es) \<and> \<not> re_Generation r \<ge> cutoff) rs"
      obtain ok errs' w3 where te: "tryEach (\<lambda>r. releaseAddr kn t (re_VIP r)) ?stale w2 = ((ok, errs'), w3)"
        using tryEach_exists by blast
      have "w' = w3" using assms(3) l lr Inr rs te by (simp add: reconcileAddrs_def Let_def)
      moreover have "(\<lambda>b w. claims_ok exact w \<and> rows t w = rows t w2 \<and> peer_rows t w = peer_rows t w2) (True \<and> errs' = []) w3"
      proof (rule tryEach_inv [OF te])
        fix x b v r v'
        assume x: "x \<in> set ?stale" and v: "claims_ok exact v \<and> rows t v = rows t w2 \<and> peer_rows t v = peer_rows t w2"
          and run: "releaseAddr kn t (re_VIP x) v = (r, v')"
        have "Zone (re_VIP x) = []" using ListReturn_same(2) [OF lr rs] x by simp
        from claims_release [OF _ assms(2) this run] v have "claims_ok exact v'" by blast
        moreover from run have "rows t v' = rows t v \<and> peer_rows t v' = peer_rows t v"
          by (cases rule: releaseAddr_cases) auto
        ultimately show "claims_ok exact v' \<and> rows t v' = rows t w2 \<and> peer_rows t v' = peer_rows t w2" using v by simp
      qed (use c2 in simp)
      ultimately show ?thesis using c2 by simp
    qed
  qed
qed

lemma toWireKey_fromWireKey:
  assumes "length (k_vip k) = 16"
  shows "toWireKey (fromWireKey k) = Inr k"
  using wire_fromWire [OF assms] by (simp add: toWireKey_def fromWireKey_def)

lemma wire_rows_length: "wire_maps w \<Longrightarrow> (k, v) \<in> set (rows t w) \<Longrightarrow> length (k_vip k) = 16"
  unfolding wire_maps_def row_addrs_rows [of w t] by force

lemma claims_reconcile:
  assumes "claims_ok exact w" "vt_peer t" "Reconcile kn t live cutoff w = ((removed, errs), w')"
  shows "claims_ok (exact \<and> errs = []) w'"
proof -
  obtain r1 w1 where l: "List kn t w = (r1, w1)" by fastforce
  have c1: "claims_ok exact w1" using List_same(1) [OF l] assms(1) by (simp add: claims_same_maps)
  show ?thesis
  proof (cases r1)
    case (Inl e)
    with assms(3) l c1 show ?thesis by (auto simp: Reconcile_def intro: claims_weaken)
  next
    case (Inr es)
    let ?stale = "filter (\<lambda>e. ve_Key e \<notin> live \<and> \<not> ve_Generation e \<ge> cutoff) es"
    obtain ok errs1 w2 where te: "tryEach (\<lambda>e. Unregister kn t (ve_Key e)) ?stale w1 = ((ok, errs1), w2)"
      using tryEach_exists by blast
    obtain errs2 w3 where ra: "reconcileAddrs kn t cutoff w2 = (errs2, w3)" by fastforce
    have res: "w' = w3" "errs = errs1 @ errs2" using assms(3) l Inr te ra by (simp_all add: Reconcile_def Let_def)
    have "(\<lambda>b. claims_ok (exact \<and> b)) (True \<and> errs1 = []) w2"
    proof (rule tryEach_inv [OF te])
      fix x b v r v'
      assume x: "x \<in> set ?stale" and v: "claims_ok (exact \<and> b) v" and run: "Unregister kn t (ve_Key x) v = (r, v')"
      have "x \<in> set es" using x by simp
      from List_keys [OF l [unfolded Inr] this] obtain raw where "ve_Key x = fromWireKey raw" .
      then have "Zone (vk_VIP (ve_Key x)) = []" by simp
      from claims_unregister [OF v assms(2) this run] show "claims_ok (exact \<and> b \<and> r = Inr ()) v'" by (simp add: conj_assoc)
    qed (use c1 in simp)
    from claims_reconcileAddrs [OF this assms(2) ra] show ?thesis using res by (auto intro: claims_weaken)
  qed
qed

text \<open>The states the tables reach: from empty maps, by registrations that succeed and by removals and
  sweeps whether they succeed or not; \<open>clean\<close> records that none of them failed.\<close>

inductive edge_reachable :: "kernel \<Rightarrow> bool \<Rightarrow> maps \<Rightarrow> bool" for kn where
  start: "vip_table w = [] \<Longrightarrow> vip_range_backends w = [] \<Longrightarrow> vip_addr_table w = [] \<Longrightarrow> edge_reachable kn True w"
| register: "edge_reachable kn clean w \<Longrightarrow> Register kn t key affinity backends maglevTable w = (Inr (), w') \<Longrightarrow>
    edge_reachable kn clean w'"
| unregister: "edge_reachable kn clean w \<Longrightarrow> vt_peer t \<Longrightarrow> Zone (vk_VIP key) = [] \<Longrightarrow> Unregister kn t key w = (r, w') \<Longrightarrow>
    edge_reachable kn (clean \<and> r = Inr ()) w'"
| reconcile: "edge_reachable kn clean w \<Longrightarrow> vt_peer t \<Longrightarrow> Reconcile kn t live cutoff w = ((removed, errs), w') \<Longrightarrow>
    edge_reachable kn (clean \<and> errs = []) w'"

lemma reachable_claims: "edge_reachable kn clean w \<Longrightarrow> claims_ok clean w"
proof (induction rule: edge_reachable.induct)
  case (start w)
  then show ?case by (simp add: claims_ok_def wire_maps_def row_addrs_def claims_def)
next
  case (register clean w t key affinity backends maglevTable w')
  then show ?case using claims_register by blast
next
  case (unregister clean w t key r w')
  then show ?case using claims_unregister by blast
next
  case (reconcile clean w t live cutoff removed errs w')
  then show ?case using claims_reconcile by blast
qed

lemma tryEach_unregister:
  "tryEach (\<lambda>e. Unregister kn t (ve_Key e)) es w = ((ok, errs), w') \<Longrightarrow>
    peer_rows t w' = peer_rows t w \<and>
    (\<forall>k. map_of (rows t w') k = map_of (rows t w) k \<or>
       map_of (rows t w') k = None \<and> (\<exists>e \<in> set es. toWireKey (ve_Key e) = Inr k)) \<and>
    (errs = [] \<longrightarrow> (\<forall>e \<in> set es. \<forall>k. toWireKey (ve_Key e) = Inr k \<longrightarrow> map_of (rows t w') k = None))"
proof (induction es arbitrary: w ok errs w')
  case (Cons e es)
  obtain r w1 where u: "Unregister kn t (ve_Key e) w = (r, w1)" by fastforce
  obtain ok' errs' w2 where rest: "tryEach (\<lambda>e. Unregister kn t (ve_Key e)) es w1 = ((ok', errs'), w2)"
    using tryEach_exists by blast
  have w2: "w' = w2" "errs = (case r of Inl x \<Rightarrow> x # errs' | Inr _ \<Rightarrow> errs')"
    using Cons.prems u rest by (auto split: sum.splits)
  note ih = Cons.IH [OF rest]
  have step: "peer_rows t w1 = peer_rows t w"
    "map_of (rows t w1) k = map_of (rows t w) k \<or> map_of (rows t w1) k = None \<and> toWireKey (ve_Key e) = Inr k"
    "r = Inr x \<Longrightarrow> toWireKey (ve_Key e) = Inr k \<Longrightarrow> map_of (rows t w1) k = None" for k x
    using Unregister_cases [OF u] by (auto simp: delete_conv' split: if_splits)
  show ?case
  proof (intro conjI allI impI ballI)
    show "peer_rows t w' = peer_rows t w" using ih step(1) w2(1) by simp
    fix k
    show "map_of (rows t w') k = map_of (rows t w) k \<or>
       map_of (rows t w') k = None \<and> (\<exists>e \<in> set (e # es). toWireKey (ve_Key e) = Inr k)"
      using ih step(2) [of k] w2(1) by (metis list.set_intros)
  next
    fix e' k
    assume a: "errs = []" "e' \<in> set (e # es)" "toWireKey (ve_Key e') = Inr k"
    then have ok: "errs' = []" "\<exists>x. r = Inr x" using w2(2) by (auto split: sum.splits)
    show "map_of (rows t w') k = None"
    proof (cases "e' \<in> set es")
      case True
      then show ?thesis using ih ok(1) a(3) unfolding w2(1) by blast
    next
      case False
      then have "map_of (rows t w1) k = None" using a(2,3) ok(2) step(3) by auto
      then show ?thesis using ih w2(1) by metis
    qed
  qed
qed simp

lemma reconcile_rows:
  assumes "claims_ok exact w" "vt_peer t" "Reconcile kn t live cutoff w = ((removed, errs), w')"
  shows "peer_rows t w' = peer_rows t w"
    and "map_of (rows t w) k = Some v \<Longrightarrow> fromWireKey k \<in> live \<or> cutoff \<le> v_generation v \<Longrightarrow> map_of (rows t w') k = Some v"
    and "map_of (rows t w') k = Some v \<Longrightarrow> map_of (rows t w) k = Some v"
    and "errs = [] \<Longrightarrow> map_of (rows t w') k = Some v \<Longrightarrow> fromWireKey k \<in> live \<or> cutoff \<le> v_generation v"
proof -
  have wm: "wire_maps w" "distinct (map fst (rows t w))" using assms(1) by (simp_all add: claims_ok_def distinct_rows [of w t])
  obtain r1 w1 where l: "List kn t w = (r1, w1)" by fastforce
  have s1: "rows t w1 = rows t w" "peer_rows t w1 = peer_rows t w" "claims_ok exact w1"
    using List_same(1) [OF l] same_maps_rows assms(1) by (simp_all add: claims_same_maps)
  have "peer_rows t w' = peer_rows t w \<and>
    (map_of (rows t w) k = Some v \<longrightarrow> fromWireKey k \<in> live \<or> cutoff \<le> v_generation v \<longrightarrow> map_of (rows t w') k = Some v) \<and>
    (map_of (rows t w') k = Some v \<longrightarrow> map_of (rows t w) k = Some v) \<and>
    (errs = [] \<longrightarrow> map_of (rows t w') k = Some v \<longrightarrow> fromWireKey k \<in> live \<or> cutoff \<le> v_generation v)"
  proof (cases r1)
    case (Inl e)
    with assms(3) l s1 show ?thesis by (auto simp: Reconcile_def)
  next
    case (Inr es)
    let ?stale = "filter (\<lambda>e. ve_Key e \<notin> live \<and> \<not> ve_Generation e \<ge> cutoff) es"
    obtain ok errs1 w2 where te: "tryEach (\<lambda>e. Unregister kn t (ve_Key e)) ?stale w1 = ((ok, errs1), w2)"
      using tryEach_exists by blast
    obtain errs2 w3 where ra: "reconcileAddrs kn t cutoff w2 = (errs2, w3)" by fastforce
    have res: "w' = w3" "errs = errs1 @ errs2" using assms(3) l Inr te ra by (simp_all add: Reconcile_def Let_def)
    note u = tryEach_unregister [OF te]
    have ra': "rows t w3 = rows t w2" "peer_rows t w3 = peer_rows t w2"
    proof -
      have "claims_ok False w2"
      proof -
        have "(\<lambda>b. claims_ok False) (True \<and> errs1 = []) w2"
        proof (rule tryEach_inv [OF te])
          fix x b v r v'
          assume x: "x \<in> set ?stale" and v: "claims_ok False v" and run: "Unregister kn t (ve_Key x) v = (r, v')"
          have "x \<in> set es" using x by simp
          from List_keys [OF l [unfolded Inr] this] obtain raw where "ve_Key x = fromWireKey raw" .
          then have "Zone (vk_VIP (ve_Key x)) = []" by simp
          from claims_unregister [OF v assms(2) this run] show "claims_ok False v'" by (auto intro: claims_weaken)
        qed (use s1 in \<open>auto intro: claims_weaken\<close>)
        then show ?thesis .
      qed
      from claims_reconcileAddrs [OF this assms(2) ra] show "rows t w3 = rows t w2" "peer_rows t w3 = peer_rows t w2" by simp_all
    qed
    have inj: "k' = raw" if "(raw, v') \<in> set (rows t w)" "toWireKey (fromWireKey raw) = Inr k'" for raw v' k'
      using that toWireKey_fromWireKey [OF wire_rows_length [OF wm(1) that(1)]] by simp
    have stale: "(\<exists>e \<in> set ?stale. toWireKey (ve_Key e) = Inr k) \<longleftrightarrow>
        (\<exists>v'. map_of (rows t w) k = Some v' \<and> fromWireKey k \<notin> live \<and> \<not> cutoff \<le> v_generation v')" (is "?A \<longleftrightarrow> ?B")
    proof
      assume ?A
      then obtain e where e: "e \<in> set es" "ve_Key e \<notin> live" "\<not> cutoff \<le> ve_Generation e" "toWireKey (ve_Key e) = Inr k" by auto
      from List_keys [OF l [unfolded Inr] e(1)] obtain raw v' where r: "(raw, v') \<in> set (rows t w)" "ve_Key e = fromWireKey raw"
        "ve_Generation e = v_generation v'" .
      then have "k = raw" using inj e(4) by simp
      then show ?B using r e wm(2) by (auto simp: map_of_eq_Some_iff)
    next
      assume ?B
      then obtain v' where v': "map_of (rows t w) k = Some v'" "fromWireKey k \<notin> live" "\<not> cutoff \<le> v_generation v'" by blast
      then have mem: "(k, v') \<in> set (rows t w)" by (simp add: map_of_SomeD)
      then have "(fromWireKey k, v_generation v') \<in> set (map (\<lambda>e. (ve_Key e, ve_Generation e)) es)"
        unfolding List_same(2) [OF l [unfolded Inr] refl] by force
      then obtain e where "e \<in> set es" "ve_Key e = fromWireKey k" "ve_Generation e = v_generation v'" by auto
      then show ?A using v' toWireKey_fromWireKey [OF wire_rows_length [OF wm(1) mem]] by auto
    qed
    have rows': "map_of (rows t w') k = map_of (rows t w) k \<or>
        map_of (rows t w') k = None \<and> (\<exists>e \<in> set ?stale. toWireKey (ve_Key e) = Inr k)"
      using conjunct1 [OF conjunct2 [OF u], rule_format, of k] unfolding s1(1) res(1) ra'(1) .
    have gone: "map_of (rows t w') k = None" if "errs = []" "\<exists>e \<in> set ?stale. toWireKey (ve_Key e) = Inr k"
    proof -
      have "errs1 = []" using that(1) res(2) by simp
      then have "\<forall>e \<in> set ?stale. \<forall>k. toWireKey (ve_Key e) = Inr k \<longrightarrow> map_of (rows t w2) k = None" using u by simp
      then show ?thesis using that(2) unfolding res(1) ra'(1) by blast
    qed
    show ?thesis
    proof (intro conjI impI)
      show "peer_rows t w' = peer_rows t w" using u s1 res ra' by simp
      show "map_of (rows t w') k = Some v" if "map_of (rows t w) k = Some v" "fromWireKey k \<in> live \<or> cutoff \<le> v_generation v"
        using rows' stale that by auto
      show "map_of (rows t w) k = Some v" if "map_of (rows t w') k = Some v" using rows' that by auto
      show "fromWireKey k \<in> live \<or> cutoff \<le> v_generation v" if "errs = []" "map_of (rows t w') k = Some v"
        using rows' gone [OF that(1)] stale that(2) by auto
    qed
  qed
  then show "peer_rows t w' = peer_rows t w"
    "map_of (rows t w) k = Some v \<Longrightarrow> fromWireKey k \<in> live \<or> cutoff \<le> v_generation v \<Longrightarrow> map_of (rows t w') k = Some v"
    "map_of (rows t w') k = Some v \<Longrightarrow> map_of (rows t w) k = Some v"
    "errs = [] \<Longrightarrow> map_of (rows t w') k = Some v \<Longrightarrow> fromWireKey k \<in> live \<or> cutoff \<le> v_generation v"
    by blast+
qed

section \<open>The VIP table's contract\<close>

definition zone_free :: "Backend list \<Rightarrow> bool" where
  "zone_free bs = list_all (\<lambda>b. Zone (eb_Addr b) = [] \<and> Zone (eb_USID b) = []) bs"

text \<open>A running example: a service on one address and its table in an empty map.\<close>

definition kn0 :: kernel where
  "kn0 = \<lparr>fault = \<lambda>_. False, now = \<lambda>n. of_nat n + 100, cut = \<lambda>_. 0\<rparr>"

definition maps0 :: maps where
  "maps0 = \<lparr>vip_table = [], vip_range_backends = [], vip_stats_table = [], vip_addr_table = [],
     vip_return_stats_table = [], vip_range_table = [], vip_owned_table = [], m_ops = 0\<rparr>"

definition vipTable0 :: VIPTable where "vipTable0 = \<lparr>vt_range = False, vt_peer = True\<rparr>"

definition vip_key0 :: VIPKey where
  "vip_key0 = \<lparr>vk_Proto = 6, vk_VPort = 443, vk_VIP = Addr4 3221225985\<rparr>"

definition backend0 :: Backend where
  "backend0 = \<lparr>eb_Addr = Addr6 42540766411282592856903984951653826561 [], eb_Port = 8443,
     eb_USID = Addr6 336294682933583715844663186250927177728 []\<rparr>"

definition registered0 :: maps where
  "registered0 = snd (Register kn0 vipTable0 vip_key0 AffinityClientIP [backend0] (replicate MaglevTableSize 0) maps0)"

lemma register0: "Register kn0 vipTable0 vip_key0 AffinityClientIP [backend0] (replicate MaglevTableSize 0) maps0 = (Inr (), registered0)"
proof -
  have "\<exists>wk. toWireKey vip_key0 = Inr wk" by (simp add: toWireKey_def toWireAddr_def vip_key0_def Is4_def)
  moreover have "\<exists>wb. toWireBackends [backend0] = Inr wb"
  proof -
    have "case toWireBackends [backend0] of Inr _ \<Rightarrow> True | _ \<Rightarrow> False" by code_simp
    then show ?thesis by (auto split: sum.splits)
  qed
  ultimately have "\<exists>w'. Register kn0 vipTable0 vip_key0 AffinityClientIP [backend0] (replicate MaglevTableSize 0) maps0 = (Inr (), w')"
    unfolding Register_Inr by (auto simp: MaxBackends_def kn0_def)
  then show ?thesis by (auto simp: registered0_def)
qed

text \<open>C26. A row reads back as it was written: after a registration that succeeded, reading the key gives
  exactly the backends, the Maglev table and the affinity it was registered with, stamped with the
  clock's reading at the registration.\<close>

theorem register_get:
  assumes "Register kn t key affinity backends maglevTable w = (Inr (), w')" "zone_free backends"
    and "\<not> fault kn (m_ops w')" "\<not> fault kn (Suc (m_ops w'))"
  shows "\<exists>entry w''. Get kn t key w' = (Inr (Some entry), w'') \<and> ve_Key entry = key \<and> ve_Backends entry = backends \<and>
    ve_MaglevTable entry = maglevTable \<and> ve_Affinity entry = affinity \<and> ve_Generation entry = now kn (m_ops w)"
proof -
  obtain wk wb where r: "toWireKey key = Inr wk" "toWireBackends backends = Inr wb" "length backends \<le> MaxBackends"
    "w' = tick (set_rows t (AList.update wk (row_value affinity backends wb maglevTable (now kn (m_ops w)))) (tick (tick w)))
             \<lparr>vip_addr_table := AList.update (k_vip wk) (now kn (m_ops w)) (vip_addr_table w)\<rparr>"
    using assms(1) unfolding Register_Inr by blast
  let ?v = "row_value affinity backends wb maglevTable (now kn (m_ops w))"
  have row: "map_of (rows t w') wk = Some ?v" unfolding r(4) by (simp add: update_conv')
  obtain out where out: "wireBackends backends = Inr out" "wb = out @ replicate (MaxBackends - length out) zeroBackend"
    using r(2) by (auto simp: toWireBackends_def split: sum.splits)
  have inv: "length out = length backends"
    "map (\<lambda>wb. \<lparr>eb_Addr = fromWireAddr (w_addr wb), eb_Port = beU16 (w_port wb), eb_USID = AddrFrom16 (w_usid wb)\<rparr>) out = backends"
    using wireBackends_inverse [OF out(1)] assms(2) by (simp_all add: zone_free_def list_all_iff)
  have count: "unat (of_nat (length backends) :: u32) = length backends"
    using r(3) by (simp add: MaxBackends_def unat_of_nat)
  have "ve_Backends (fromWireValue key ?v s) = backends" for s
    using inv count out(2) by (simp add: fromWireValue_def row_value_def)
  moreover have "\<exists>s w''. Get kn t key w' = (Inr (Some (fromWireValue key ?v s)), w'')"
    using assms(3,4) row
    by (auto simp: Get_def r(1) lookupOr_def lookupStats_def Lookup_def bind_def lift_def ret_def split: option.split)
  ultimately show ?thesis by (auto simp: fromWireValue_def row_value_def)
qed

theorem register_get_witness:
  "\<exists>entry w''. Get kn0 vipTable0 vip_key0 registered0 = (Inr (Some entry), w'') \<and> ve_Backends entry = [backend0]"
  using register_get [OF register0] by (auto simp: zone_free_def backend0_def Zone_def kn0_def)


lemma registered0_reachable: "edge_reachable kn0 True registered0"
  by (rule edge_reachable.register [OF _ register0]) (rule edge_reachable.start; simp add: maps0_def)


text \<open>C27. Reconciling removes exactly the stale rows: whatever fails, a row that is live or was written at
  or after the cutoff survives unchanged, no row is added or changed, and the peer table is left
  alone; and when no error is reported, every surviving row is live or at or after the cutoff.\<close>

theorem reconcile_exact:
  assumes "edge_reachable kn clean w" "vt_peer t" "Reconcile kn t live cutoff w = ((removed, errs), w')"
  shows "peer_rows t w' = peer_rows t w \<and>
    (\<forall>k v. map_of (rows t w') k = Some v \<longrightarrow> map_of (rows t w) k = Some v) \<and>
    (\<forall>k v. map_of (rows t w) k = Some v \<and> (fromWireKey k \<in> live \<or> cutoff \<le> v_generation v) \<longrightarrow> map_of (rows t w') k = Some v) \<and>
    (errs = [] \<longrightarrow> (\<forall>k v. map_of (rows t w') k = Some v \<longrightarrow> fromWireKey k \<in> live \<or> cutoff \<le> v_generation v))"
proof -
  note r = reconcile_rows [OF reachable_claims [OF assms(1)] assms(2,3)]
  show ?thesis
  proof (intro conjI allI impI)
    show "peer_rows t w' = peer_rows t w" by (rule r(1))
    show "map_of (rows t w) k = Some v" if "map_of (rows t w') k = Some v" for k v using r(3) that .
    show "map_of (rows t w') k = Some v"
      if "map_of (rows t w) k = Some v \<and> (fromWireKey k \<in> live \<or> cutoff \<le> v_generation v)" for k v
      using that by (intro r(2)) simp_all
    show "fromWireKey k \<in> live \<or> cutoff \<le> v_generation v" if "errs = []" "map_of (rows t w') k = Some v" for k v
      using r(4) that .
  qed
qed

theorem reconcile_exact_witness:
  "rows vipTable0 (snd (Reconcile kn0 vipTable0 {} 1000 registered0)) = [] \<and>
   map_of (rows vipTable0 (snd (Reconcile kn0 vipTable0 {vip_key0} 1000 registered0))) (projr (toWireKey vip_key0)) =
     map_of (rows vipTable0 registered0) (projr (toWireKey vip_key0)) \<and>
   map_of (rows vipTable0 registered0) (projr (toWireKey vip_key0)) \<noteq> None"
proof -
  let ?k = "projr (toWireKey vip_key0)"
  have gone: "rows vipTable0 (snd (Reconcile kn0 vipTable0 {} 1000 registered0)) = []" by code_simp
  obtain removed errs where r: "Reconcile kn0 vipTable0 {vip_key0} 1000 registered0 =
      ((removed, errs), snd (Reconcile kn0 vipTable0 {vip_key0} 1000 registered0))"
    by (metis prod.collapse)
  have k: "fromWireKey ?k = vip_key0" "map_of (rows vipTable0 registered0) ?k \<noteq> None" by code_simp+
  then obtain v where v: "map_of (rows vipTable0 registered0) ?k = Some v" by blast
  have "vt_peer vipTable0" by (simp add: vipTable0_def)
  note exact = reconcile_exact [OF registered0_reachable this r]
  show ?thesis
    using exact [THEN conjunct2, THEN conjunct2, THEN conjunct1, THEN spec, THEN spec, of ?k v] gone k v by (metis singletonI)
qed

section \<open>Range rows\<close>

definition range_row_ok :: "vip_range_value \<Rightarrow> bool" where
  "range_row_ok v \<longleftrightarrow> unat (rv_count v) \<le> RangesPerVIP \<and> length (rv_ranges v) = RangesPerVIP \<and> liveRanges v \<noteq> [] \<and>
     sorted_wrt (\<lambda>a b. r_end a < r_start b) (liveRanges v) \<and>
     list_all (\<lambda>r. r_start r \<noteq> 0 \<and> r_start r \<le> r_end r) (liveRanges v)"

definition ranges_ok :: "maps \<Rightarrow> bool" where
  "ranges_ok w \<longleftrightarrow> distinct (map fst (vip_range_table w)) \<and> list_all (\<lambda>(k, v). range_row_ok v) (vip_range_table w)"

lemma liveRanges_rangeValue [simp]: "length rs \<le> RangesPerVIP \<Longrightarrow> liveRanges (rangeValue rs g) = rs"
  by (simp add: liveRanges_def rangeValue_def RangesPerVIP_def unat_of_nat)

lemma rangeValue_ok:
  assumes "length rs \<le> RangesPerVIP" "rs \<noteq> []" "sorted_wrt (\<lambda>a b. r_end a < r_start b) rs"
    "list_all (\<lambda>r. r_start r \<noteq> 0 \<and> r_start r \<le> r_end r) rs"
  shows "range_row_ok (rangeValue rs g)"
proof -
  have "unat (rv_count (rangeValue rs g)) = length rs" using assms(1) by (simp add: rangeValue_def RangesPerVIP_def unat_of_nat)
  then show ?thesis using assms by (simp add: range_row_ok_def) (simp add: rangeValue_def)
qed

lemma sorted_intervals:
  fixes rs :: "vip_range list"
  assumes "distinct (map r_start rs)" "\<forall>r \<in> set rs. r_start r \<le> r_end r"
    and "\<forall>a \<in> set rs. \<forall>b \<in> set rs. r_start a < r_start b \<longrightarrow> r_end a < r_start b"
  shows "sorted_wrt (\<lambda>a b. r_end a < r_start b) (sort_key r_start rs)"
proof -
  let ?s = "sort_key r_start rs"
  have "sorted (map r_start ?s)" "distinct (map r_start ?s)"
    using assms(1) by (simp_all add: distinct_map)
  then have "sorted_wrt (<) (map r_start ?s)" by (simp add: strict_sorted_iff)
  then have "sorted_wrt (\<lambda>a b. r_start a < r_start b) ?s" by (simp add: sorted_wrt_map)
  then show ?thesis
    by (rule sorted_wrt_mono_rel [rotated]) (use assms(3) in auto)
qed

lemma sorted_wrt_pairwise:
  assumes "sorted_wrt (\<lambda>a b. r_end a < r_start b) rs" "a \<in> set rs" "b \<in> set rs" "r_start a < r_start b"
    "\<forall>r \<in> set rs. r_start r \<le> r_end r"
  shows "r_end a < (r_start b :: u16)"
  using assms
proof (induction rs)
  case (Cons r rs)
  then show ?case by (auto dest: order_le_less_trans order_less_trans)
qed simp

lemma sorted_wrt_distinct_starts:
  assumes "sorted_wrt (\<lambda>a b. r_end a < r_start b) rs" "\<forall>r \<in> set rs. r_start r \<le> (r_end r :: u16)"
  shows "distinct (map r_start rs)"
  using assms
proof (induction rs)
  case (Cons r rs)
  then show ?case by (auto dest: order_le_less_trans)
qed simp

text \<open>The list a registration writes: the other intervals and the new one, which meets none of them.\<close>

lemma insert_interval:
  fixes rs :: "vip_range list" and new :: vip_range
  assumes "sorted_wrt (\<lambda>a b. r_end a < r_start b) rs" "\<forall>r \<in> set rs. r_start r \<noteq> 0 \<and> r_start r \<le> r_end r"
    and "find (\<lambda>r. r_start r \<le> r_end new \<and> r_start new \<le> r_end r) (filter (\<lambda>r. r_start r \<noteq> r_start new) rs) = None"
    and "r_start new \<le> r_end new"
  shows "sorted_wrt (\<lambda>a b. r_end a < r_start b) (sort_key r_start (filter (\<lambda>r. r_start r \<noteq> r_start new) rs @ [new]))"
proof -
  let ?o = "filter (\<lambda>r. r_start r \<noteq> r_start new) rs"
  have apart: "r_end new < r_start r \<or> r_end r < r_start new" if "r \<in> set ?o" for r
    using assms(3) that unfolding find_None_iff by (auto simp: not_le)
  have valid: "\<forall>r \<in> set ?o. r_start r \<le> r_end r" using assms(2) by auto
  have dist: "distinct (map r_start ?o)"
    using sorted_wrt_distinct_starts [of rs] assms(1,2) by (simp add: distinct_map_filter)
  show ?thesis
  proof (rule sorted_intervals)
    show "distinct (map r_start (?o @ [new]))" using dist by auto
    show "\<forall>r \<in> set (?o @ [new]). r_start r \<le> r_end r" using valid assms(4) by auto
    show "\<forall>a \<in> set (?o @ [new]). \<forall>b \<in> set (?o @ [new]). r_start a < r_start b \<longrightarrow> r_end a < r_start b"
    proof (intro ballI impI)
      fix a b
      assume ab: "a \<in> set (?o @ [new])" "b \<in> set (?o @ [new])" "r_start a < r_start b"
      then consider "a \<in> set ?o" "b \<in> set ?o" | "a = new" "b \<in> set ?o" | "a \<in> set ?o" "b = new" by auto
      then show "r_end a < r_start b"
      proof cases
        case 1
        then show ?thesis using sorted_wrt_pairwise [OF assms(1)] ab(3) assms(2) by auto
      next
        case 2
        then have "r_start b \<le> r_end b" using valid by blast
        then show ?thesis using 2 apart [of b] ab(3) by (auto dest: order_le_less_trans order_less_trans)
      next
        case 3
        then show ?thesis using apart [of a] ab(3) assms(4) by (auto dest: order_le_less_trans order_less_trans)
      qed
    qed
  qed
qed

definition other_maps :: "maps \<Rightarrow> maps \<Rightarrow> bool" where
  "other_maps w w' \<longleftrightarrow> vip_table w' = vip_table w \<and> vip_range_backends w' = vip_range_backends w \<and>
     vip_stats_table w' = vip_stats_table w \<and> vip_addr_table w' = vip_addr_table w \<and>
     vip_return_stats_table w' = vip_return_stats_table w \<and> vip_owned_table w' = vip_owned_table w"

lemma other_maps_refl [simp]: "other_maps w w" "other_maps (tick w) w' = other_maps w w'" "other_maps w (tick w') = other_maps w w'"
  by (simp_all add: other_maps_def)

lemma other_maps_trans: "other_maps w w' \<Longrightarrow> other_maps w' w'' \<Longrightarrow> other_maps w w''"
  by (simp add: other_maps_def)

lemma putRanges_cases:
  assumes "putRanges kn raw rs w = (r, w')"
  shows "other_maps w w' \<and> ((\<exists>e. r = Inl e) \<and> vip_range_table w' = vip_range_table w \<or>
    r = Inr () \<and> (\<exists>g. vip_range_table w' = AList.update raw (rangeValue rs g) (vip_range_table w)))"
  using assms unfolding putRanges_def
  by (auto simp: bind_def clockFn_def Put_def other_maps_def split: if_splits)

lemma RegisterRange_cases:
  assumes "RegisterRange kn key end generation w = (r, w')"
  shows "other_maps w w' \<and> ((\<exists>e. r = Inl e) \<and> vip_range_table w' = vip_range_table w \<or>
    r = Inr () \<and> vk_Proto key = 17 \<and> vk_VPort key \<noteq> 0 \<and> vk_VPort key \<le> end \<and>
    (\<exists>raw g rs. rangeKey key = Inr raw \<and>
      rs = filter (\<lambda>r. r_start r \<noteq> vk_VPort key) (liveRanges (get (rangeValue [] 0) (vip_range_table w) raw)) \<and>
      unat (rv_count (get (rangeValue [] 0) (vip_range_table w) raw)) \<le> RangesPerVIP \<and> length rs \<noteq> RangesPerVIP \<and>
      find (\<lambda>r. r_start r \<le> end \<and> vk_VPort key \<le> r_end r) rs = None \<and>
      vip_range_table w' = AList.update raw (rangeValue (sort_key r_start
        (rs @ [\<lparr>r_start = vk_VPort key, r_end = end, r_generation = generation\<rparr>])) g) (vip_range_table w)))"
proof (cases "vk_Proto key \<noteq> 17 \<or> vk_VPort key = 0 \<or> end < vk_VPort key \<or> \<not> Is6 (vk_VIP key) \<or> Is4In6 (vk_VIP key)")
  case True
  with assms show ?thesis by (simp add: RegisterRange_def)
next
  case False
  note guard = this
  from assms [unfolded RegisterRange_def if_not_P [OF guard]] show ?thesis
  proof (cases rule: bind_cases)
    case (left e)
    then show ?thesis by simp
  next
    case (right raw w1)
    then have raw: "rangeKey key = Inr raw" "w1 = w" by simp_all
    from right(2) show ?thesis
    proof (cases rule: bind_cases)
      case (left e)
      then show ?thesis using lookupOr_cases [OF left(1)] raw by simp
    next
      case (right v w2)
      have v: "w2 = tick w" "v = get (rangeValue [] 0) (vip_range_table w) raw" using lookupOr_cases [OF right(1)] raw by simp_all
      show ?thesis
      proof (cases "unat (rv_count v) > RangesPerVIP")
        case True
        with right(2) v(1) show ?thesis by simp
      next
        case count: False
        let ?rs = "filter (\<lambda>r. r_start r \<noteq> vk_VPort key) (liveRanges v)"
        show ?thesis
        proof (cases "find (\<lambda>r. r_start r \<le> end \<and> vk_VPort key \<le> r_end r) ?rs")
          case (Some x)
          with right(2) count v(1) show ?thesis by (simp add: Let_def)
        next
          case none: None
          show ?thesis
          proof (cases "length ?rs = RangesPerVIP")
            case True
            with right(2) count v(1) none show ?thesis by (simp add: Let_def)
          next
            case False
            with right(2) count none have put: "putRanges kn raw (sort_key r_start
                (?rs @ [\<lparr>r_start = vk_VPort key, r_end = end, r_generation = generation\<rparr>])) (tick w) = (r, w')"
              by (simp add: Let_def v(1))
            show ?thesis
              using putRanges_cases [OF put] guard raw(1) none count False by (auto simp: v(2) not_less)
          qed
        qed
      qed
    qed
  qed
qed

lemma RemoveRange_cases:
  assumes "RemoveRange kn key w = (r, w')"
  shows "other_maps w w' \<and> ((\<exists>e. r = Inl e) \<and> vip_range_table w' = vip_range_table w \<or>
    r = Inr () \<and> (\<exists>raw. rangeKey key = Inr raw \<and>
      (map_of (vip_range_table w) raw = None \<and> vip_range_table w' = vip_range_table w \<or>
       (\<exists>v rs. map_of (vip_range_table w) raw = Some v \<and> unat (rv_count v) \<le> RangesPerVIP \<and>
         rs = filter (\<lambda>r. r_start r \<noteq> vk_VPort key) (liveRanges v) \<and>
         (rs = [] \<and> vip_range_table w' = AList.delete raw (vip_range_table w) \<or>
          rs \<noteq> [] \<and> (\<exists>g. vip_range_table w' = AList.update raw (rangeValue rs g) (vip_range_table w)))))))"
  using assms unfolding RemoveRange_def
proof (cases rule: bind_cases)
  case (left e)
  then show ?thesis by simp
next
  case (right raw w1)
  then have raw: "rangeKey key = Inr raw" "w1 = w" by simp_all
  from right(2) show ?thesis
  proof (cases rule: bind_cases)
    case (left e)
    then show ?thesis using lookupOr_None_cases [OF left(1)] raw by simp
  next
    case (right found w2)
    have f: "w2 = tick w" "found = map_of (vip_range_table w) raw" using lookupOr_None_cases [OF right(1)] raw by simp_all
    show ?thesis
    proof (cases found)
      case None
      with right(2) f raw(1) show ?thesis by simp
    next
      case (Some v)
      show ?thesis
      proof (cases "unat (rv_count v) > RangesPerVIP")
        case True
        with right(2) f(1) Some show ?thesis by simp
      next
        case count: False
        let ?rs = "filter (\<lambda>r. r_start r \<noteq> vk_VPort key) (liveRanges v)"
        show ?thesis
        proof (cases "?rs = []")
          case True
          with right(2) Some count have "ignoreMissing (Delete kn vip_range_table
              (\<lambda>w. w\<lparr>vip_range_table := AList.delete raw (vip_range_table w)\<rparr>) raw) (tick w) = (r, w')"
            by (simp add: f(1) Let_def)
          then show ?thesis
          proof (cases rule: Delete_cases)
            case fault
            then show ?thesis by simp
          next
            case absent
            then show ?thesis using Some f(2) by simp
          next
            case (written v')
            then show ?thesis using Some f(2) raw(1) True count by (auto simp: other_maps_def)
          qed
        next
          case False
          with right(2) Some count have put: "putRanges kn raw ?rs (tick w) = (r, w')" by (simp add: f(1) Let_def)
          show ?thesis using putRanges_cases [OF put] Some f(2) raw(1) False count by auto
        qed
      qed
    qed
  qed
qed

lemma ranges_ok_update: "ranges_ok w \<Longrightarrow> range_row_ok v \<Longrightarrow> vip_range_table w' = AList.update raw v (vip_range_table w) \<Longrightarrow> ranges_ok w'"
  by (auto simp: ranges_ok_def list_all_iff distinct_update set_update set_delete)

lemma ranges_ok_delete: "ranges_ok w \<Longrightarrow> vip_range_table w' = AList.delete raw (vip_range_table w) \<Longrightarrow> ranges_ok w'"
  by (auto simp: ranges_ok_def list_all_iff distinct_delete set_delete)

lemma ranges_ok_same: "ranges_ok w \<Longrightarrow> vip_range_table w' = vip_range_table w \<Longrightarrow> ranges_ok w'"
  by (simp add: ranges_ok_def)

lemma ranges_ok_row: "ranges_ok w \<Longrightarrow> map_of (vip_range_table w) raw = Some v \<Longrightarrow> range_row_ok v"
  by (auto simp: ranges_ok_def list_all_iff dest: map_of_SomeD)

lemma get_row:
  fixes raw :: vip_key
  assumes "ranges_ok w"
  defines "rs \<equiv> liveRanges (get (rangeValue [] 0) (vip_range_table w) raw)"
  shows "sorted_wrt (\<lambda>a b. r_end a < r_start b) rs" "\<forall>r \<in> set rs. r_start r \<noteq> 0 \<and> r_start r \<le> r_end r" "length rs \<le> RangesPerVIP"
proof -
  have "sorted_wrt (\<lambda>a b. r_end a < r_start b) rs \<and> (\<forall>r \<in> set rs. r_start r \<noteq> 0 \<and> r_start r \<le> r_end r) \<and> length rs \<le> RangesPerVIP"
  proof (cases "map_of (vip_range_table w) raw")
    case None
    then show ?thesis by (simp add: rs_def get_def)
  next
    case (Some v)
    with ranges_ok_row [OF assms(1) Some] show ?thesis
      by (auto simp: rs_def get_def range_row_ok_def list_all_iff) (simp add: liveRanges_def)
  qed
  then show "sorted_wrt (\<lambda>a b. r_end a < r_start b) rs" "\<forall>r \<in> set rs. r_start r \<noteq> 0 \<and> r_start r \<le> r_end r"
    "length rs \<le> RangesPerVIP" by simp_all
qed

lemma ranges_ok_register:
  assumes "ranges_ok w" "RegisterRange kn key end generation w = (r, w')"
  shows "ranges_ok w'"
proof -
  from RegisterRange_cases [OF assms(2)] consider (same) "vip_range_table w' = vip_range_table w"
    | (new) raw g rs where "vk_VPort key \<noteq> 0" "vk_VPort key \<le> end"
      "rs = filter (\<lambda>r. r_start r \<noteq> vk_VPort key) (liveRanges (get (rangeValue [] 0) (vip_range_table w) raw))" "length rs \<noteq> RangesPerVIP"
      "find (\<lambda>r. r_start r \<le> end \<and> vk_VPort key \<le> r_end r) rs = None"
      "vip_range_table w' = AList.update raw (rangeValue (sort_key r_start
        (rs @ [\<lparr>r_start = vk_VPort key, r_end = end, r_generation = generation\<rparr>])) g) (vip_range_table w)"
    by blast
  then show ?thesis
  proof cases
    case same
    with assms(1) show ?thesis by (rule ranges_ok_same)
  next
    case (new raw g rs)
    note row = get_row [OF assms(1), of raw]
    let ?new = "\<lparr>r_start = vk_VPort key, r_end = end, r_generation = generation\<rparr>"
    let ?out = "sort_key r_start (rs @ [?new])"
    have len: "length rs \<le> RangesPerVIP" unfolding new(3) using row(3) by (meson length_filter_le order_trans)
    have "sorted_wrt (\<lambda>a b. r_end a < r_start b) ?out"
      using insert_interval [of _ ?new, OF row(1,2)] new(2,5) unfolding new(3) by simp
    moreover have "list_all (\<lambda>r. r_start r \<noteq> 0 \<and> r_start r \<le> r_end r) ?out"
      using row(2) new(1,2) unfolding list_all_iff new(3) by auto
    moreover have "length ?out \<le> RangesPerVIP" "?out \<noteq> []" using len new(4) by (auto simp flip: length_0_conv)
    ultimately have "range_row_ok (rangeValue ?out g)" by (intro rangeValue_ok)
    then show ?thesis using ranges_ok_update [OF assms(1) _ new(6)] by simp
  qed
qed

lemma ranges_ok_remove:
  assumes "ranges_ok w" "RemoveRange kn key w = (r, w')"
  shows "ranges_ok w'"
proof -
  from RemoveRange_cases [OF assms(2)] consider (same) "vip_range_table w' = vip_range_table w"
    | (delete) raw where "vip_range_table w' = AList.delete raw (vip_range_table w)"
    | (kept) raw v g rs where "map_of (vip_range_table w) raw = Some v" "rs = filter (\<lambda>r. r_start r \<noteq> vk_VPort key) (liveRanges v)" "rs \<noteq> []"
      "vip_range_table w' = AList.update raw (rangeValue rs g) (vip_range_table w)"
    by blast
  then show ?thesis
  proof cases
    case same
    with assms(1) show ?thesis by (rule ranges_ok_same)
  next
    case delete
    with assms(1) show ?thesis by (rule ranges_ok_delete)
  next
    case (kept raw v g rs)
    from ranges_ok_row [OF assms(1) kept(1)] have ok: "range_row_ok v" .
    have "length rs \<le> RangesPerVIP"
      unfolding kept(2) using ok by (auto simp: range_row_ok_def liveRanges_def intro: order_trans [OF length_filter_le])
    then have "range_row_ok (rangeValue rs g)"
      using ok kept(2,3) by (intro rangeValue_ok) (auto simp: range_row_ok_def list_all_iff sorted_wrt_filter)
    then show ?thesis using ranges_ok_update [OF assms(1) _ kept(4)] by simp
  qed
qed

lemma ranges_ok_sweep: "ranges_ok w \<Longrightarrow> sweepRanges kn live proto vip rs w = (r, w') \<Longrightarrow> ranges_ok w'"
proof (induction rs arbitrary: w)
  case (Cons x rs)
  let ?k = "\<lparr>vk_Proto = proto, vk_VPort = r_start x, vk_VIP = vip\<rparr>"
  show ?case
  proof (cases "map_of live ?k = Some (r_end x)")
    case True
    with Cons show ?thesis by (simp add: Let_def)
  next
    case False
    with Cons.prems(2) have "bind (RemoveRange kn ?k) (\<lambda>_. sweepRanges kn live proto vip rs) w = (r, w')" by (simp add: Let_def)
    then show ?thesis
    proof (cases rule: bind_cases)
      case (left e)
      then show ?thesis using ranges_ok_remove Cons.prems(1) by blast
    next
      case (right u w1)
      then show ?thesis using ranges_ok_remove [OF Cons.prems(1)] Cons.IH by blast
    qed
  qed
qed simp

lemma ranges_ok_rows: "ranges_ok w \<Longrightarrow> reconcileRows kn live cutoff ents w = (r, w') \<Longrightarrow> ranges_ok w'"
proof (induction ents arbitrary: w)
  case (Cons p ents)
  obtain key v where p: "p = (key, v)" by (cases p)
  show ?case
  proof (cases "rv_generation v \<ge> cutoff \<or> unat (rv_count v) > RangesPerVIP")
    case True
    with Cons p show ?thesis by (auto split: if_splits)
  next
    case False
    with Cons.prems(2) p have "bind (sweepRanges kn live (k_proto key) (fromWireAddr (k_vip key)) (liveRanges v)) (\<lambda>_.
        reconcileRows kn live cutoff ents) w = (r, w')" by simp
    then show ?thesis
    proof (cases rule: bind_cases)
      case (left e)
      then show ?thesis using ranges_ok_sweep Cons.prems(1) by blast
    next
      case (right u w1)
      then show ?thesis using ranges_ok_sweep [OF Cons.prems(1)] Cons.IH by blast
    qed
  qed
qed simp

lemma ranges_ok_reconcile:
  assumes "ranges_ok w" "ReconcileRanges kn live cutoff w = (r, w')"
  shows "ranges_ok w'"
proof -
  obtain ents err where it: "Iterate kn vip_range_table w = ((ents, err), tick w)" by (rule Iterate_cases)
  have "ranges_ok (tick w)" using assms(1) by (simp add: ranges_ok_def)
  moreover have "bind (reconcileRows kn live cutoff ents) (\<lambda>_. iterErr err) (tick w) = (r, w')"
    using assms(2) it by (simp add: ReconcileRanges_def)
  then have "\<exists>r1. reconcileRows kn live cutoff ents (tick w) = (r1, w')"
    by (cases rule: bind_cases) (auto simp: iterErr_def split: option.splits)
  ultimately show ?thesis using ranges_ok_rows by blast
qed

inductive ranges_reachable :: "kernel \<Rightarrow> maps \<Rightarrow> bool" for kn where
  start: "vip_range_table w = [] \<Longrightarrow> ranges_reachable kn w"
| register: "ranges_reachable kn w \<Longrightarrow> RegisterRange kn key end generation w = (r, w') \<Longrightarrow> ranges_reachable kn w'"
| remove: "ranges_reachable kn w \<Longrightarrow> RemoveRange kn key w = (r, w') \<Longrightarrow> ranges_reachable kn w'"
| reconcile: "ranges_reachable kn w \<Longrightarrow> ReconcileRanges kn live cutoff w = (r, w') \<Longrightarrow> ranges_reachable kn w'"

lemma reachable_ranges_ok: "ranges_reachable kn w \<Longrightarrow> ranges_ok w"
proof (induction rule: ranges_reachable.induct)
  case (start w)
  then show ?case by (simp add: ranges_ok_def)
qed (blast intro: ranges_ok_register ranges_ok_remove ranges_ok_reconcile)+

definition range_key0 :: VIPKey where
  "range_key0 = \<lparr>vk_Proto = 17, vk_VPort = 5000, vk_VIP = Addr6 42540766411282592856903984951653826561 []\<rparr>"

definition ranged0 :: maps where
  "ranged0 = snd (RegisterRange kn0 (range_key0\<lparr>vk_VPort := 4000\<rparr>) 4999 7 (snd (RegisterRange kn0 range_key0 5100 7 maps0)))"

text \<open>C28. Range rows keep their type: whatever sequence of range registrations, removals and sweeps runs,
  and whatever fails, every row holds between 1 and 16 intervals, each a nonzero first port and a
  last port no smaller, in increasing order and pairwise disjoint.\<close>

theorem range_rows_wellformed:
  assumes "ranges_reachable kn w"
  shows "list_all (\<lambda>(k, v). range_row_ok v) (vip_range_table w)"
  using reachable_ranges_ok [OF assms] by (simp add: ranges_ok_def)

lemma ranged0_reachable: "ranges_reachable kn0 ranged0"
proof -
  have "ranges_reachable kn0 maps0" by (rule ranges_reachable.start) (simp add: maps0_def)
  then have "ranges_reachable kn0 (snd (RegisterRange kn0 range_key0 5100 7 maps0))"
    by (rule ranges_reachable.register) (rule prod.collapse [symmetric])
  then show ?thesis unfolding ranged0_def by (rule ranges_reachable.register) (rule prod.collapse [symmetric])
qed

theorem range_rows_wellformed_witness:
  "map (map r_start \<circ> liveRanges \<circ> snd) (vip_range_table ranged0) = [[4000, 5000]] \<and>
   list_all (\<lambda>(k, v). range_row_ok v) (vip_range_table ranged0)"
proof -
  have "map (map r_start \<circ> liveRanges \<circ> snd) (vip_range_table ranged0) = [[4000, 5000]]" by code_simp
  then show ?thesis using range_rows_wellformed [OF ranged0_reachable] by simp
qed

definition covers :: "maps \<Rightarrow> vip_key \<Rightarrow> u16 \<Rightarrow> bool" where
  "covers w raw p = list_ex (\<lambda>r. r_start r \<le> p \<and> p \<le> r_end r) (liveRanges (get (rangeValue [] 0) (vip_range_table w) raw))"

definition others_cover :: "maps \<Rightarrow> vip_key \<Rightarrow> u16 \<Rightarrow> u16 \<Rightarrow> bool" where
  "others_cover w raw start p = list_ex (\<lambda>r. r_start r \<noteq> start \<and> r_start r \<le> p \<and> p \<le> r_end r)
     (liveRanges (get (rangeValue [] 0) (vip_range_table w) raw))"

lemma range_covers:
  assumes "ranges_reachable kn w" "rangeKey key = Inr raw"
  shows "RegisterRange kn key end generation w = (Inr (), w') \<Longrightarrow> covers w' raw p \<longleftrightarrow> vk_VPort key \<le> p \<and> p \<le> end \<or> others_cover w raw (vk_VPort key) p"
    and "RegisterRange kn key end generation w = (Inl e, w') \<Longrightarrow> covers w' raw p \<longleftrightarrow> covers w raw p"
    and "RemoveRange kn key w = (Inr (), w') \<Longrightarrow> covers w' raw p \<longleftrightarrow> others_cover w raw (vk_VPort key) p"
    and "RemoveRange kn key w = (Inl e, w') \<Longrightarrow> covers w' raw p \<longleftrightarrow> covers w raw p"
proof -
  have ok: "ranges_ok w" using reachable_ranges_ok [OF assms(1)] .
  note row = get_row [OF ok, of raw]
  show "covers w' raw p \<longleftrightarrow> vk_VPort key \<le> p \<and> p \<le> end \<or> others_cover w raw (vk_VPort key) p"
    if run: "RegisterRange kn key end generation w = (Inr (), w')"
  proof -
    let ?rs = "filter (\<lambda>r. r_start r \<noteq> vk_VPort key) (liveRanges (get (rangeValue [] 0) (vip_range_table w) raw))"
    let ?out = "sort_key r_start (?rs @ [\<lparr>r_start = vk_VPort key, r_end = end, r_generation = generation\<rparr>])"
    obtain g where t: "vip_range_table w' = AList.update raw (rangeValue ?out g) (vip_range_table w)" "length ?rs \<noteq> RangesPerVIP"
      using RegisterRange_cases [OF run] assms(2) by auto
    have "length ?rs \<le> RangesPerVIP" using row(3) by (meson length_filter_le order_trans)
    then have "liveRanges (get (rangeValue [] 0) (vip_range_table w') raw) = ?out" using t by (simp add: get_def update_conv')
    then show ?thesis by (auto simp: covers_def others_cover_def list_ex_iff)
  qed
  show "covers w' raw p \<longleftrightarrow> covers w raw p" if run: "RegisterRange kn key end generation w = (Inl e, w')"
    using RegisterRange_cases [OF run] by (simp add: covers_def)
  show "covers w' raw p \<longleftrightarrow> covers w raw p" if run: "RemoveRange kn key w = (Inl e, w')"
    using RemoveRange_cases [OF run] by (simp add: covers_def)
  show "covers w' raw p \<longleftrightarrow> others_cover w raw (vk_VPort key) p" if run: "RemoveRange kn key w = (Inr (), w')"
  proof (cases "map_of (vip_range_table w) raw")
    case None
    then have "vip_range_table w' = vip_range_table w" using RemoveRange_cases [OF run] assms(2) by auto
    then show ?thesis using None by (simp add: covers_def others_cover_def get_def)
  next
    case (Some v)
    let ?rs = "filter (\<lambda>r. r_start r \<noteq> vk_VPort key) (liveRanges v)"
    have len: "length ?rs \<le> RangesPerVIP" using row(3) Some by (simp add: get_def) (meson length_filter_le order_trans)
    from RemoveRange_cases [OF run] Some assms(2) have "?rs = [] \<and> vip_range_table w' = AList.delete raw (vip_range_table w) \<or>
        (\<exists>g. vip_range_table w' = AList.update raw (rangeValue ?rs g) (vip_range_table w))" by auto
    then have "liveRanges (get (rangeValue [] 0) (vip_range_table w') raw) = ?rs"
      using len by (auto simp: get_def update_conv' delete_conv')
    then show ?thesis using Some by (auto simp: covers_def others_cover_def get_def list_ex_iff)
  qed
qed



section \<open>Ownership guards\<close>

definition newGuard :: vip_owned_value where
  "newGuard = \<lparr>o_generation = 0, o_expires_at_ns = 0, o_blocked = 1\<rparr>"

lemma toWireAddr_As16: "toWireAddr a = Inr raw \<Longrightarrow> raw = As16 a"
  by (auto simp: toWireAddr_def split: if_splits)

lemma putOwned_Inr:
  "putOwned kn key v w = (Inr u, w') \<longleftrightarrow> \<not> fault kn (m_ops w) \<and> w' = (tick w)\<lparr>vip_owned_table := AList.update key v (vip_owned_table w)\<rparr>"
  by (auto simp: putOwned_def)

lemma putOwnedAll_Inr:
  "putOwnedAll kn addrs g w = (Inr u, w') \<Longrightarrow>
    map_of (vip_owned_table w') k = (if k \<in> As16 ` set addrs then Some ((get newGuard (vip_owned_table w) k)\<lparr>o_generation := g\<rparr>)
      else map_of (vip_owned_table w) k)"
proof (induction addrs arbitrary: w)
  case (Cons a addrs)
  obtain raw v w1 w2 where a: "toWireAddr a = Inr raw" "lookupOr newGuard (Lookup kn vip_owned_table raw) w = (Inr v, w1)"
    "putOwned kn raw (v\<lparr>o_generation := g\<rparr>) w1 = (Inr (), w2)" "putOwnedAll kn addrs g w2 = (Inr u, w')"
    using Cons.prems by (auto simp: newGuard_def)
  have w1: "w1 = tick w" "v = get newGuard (vip_owned_table w) raw" using lookupOr_cases [OF a(2)] by simp_all
  have t2: "map_of (vip_owned_table w2) = (map_of (vip_owned_table w))(raw \<mapsto> v\<lparr>o_generation := g\<rparr>)"
    using a(3) w1(1) by (simp add: putOwned_Inr update_conv')
  have raw: "raw = As16 a" using toWireAddr_As16 [OF a(1)] .
  from Cons.IH [OF a(4)] show ?case
    by (cases "k = raw"; cases "k \<in> As16 ` set addrs") (simp_all add: t2 w1(2) raw get_def)
qed simp

lemma deleteOwned_Inr:
  "deleteOwned kn live ents w = (Inr u, w') \<Longrightarrow>
    map_of (vip_owned_table w') k = (if k \<in> live \<or> k \<notin> fst ` set ents then map_of (vip_owned_table w) k else None)"
proof (induction ents arbitrary: w)
  case (Cons p ents)
  obtain key v where p: "p = (key, v)" by (cases p)
  show ?case
  proof (cases "key \<in> live")
    case True
    with Cons p show ?thesis by auto
  next
    case False
    with Cons.prems p obtain w1 where d: "ignoreMissing (Delete kn vip_owned_table
        (\<lambda>w. w\<lparr>vip_owned_table := AList.delete key (vip_owned_table w)\<rparr>) key) w = (Inr (), w1)" "deleteOwned kn live ents w1 = (Inr u, w')"
      by auto
    from d(1) have "map_of (vip_owned_table w1) = (map_of (vip_owned_table w))(key := None)"
      by (cases rule: Delete_cases) (auto simp: delete_conv' fun_eq_iff)
    with Cons.IH [OF d(2)] p False show ?thesis by auto
  qed
qed simp

text \<open>Replacing the owned addresses keeps exactly the given ones: when it succeeds, an address has a
  guard if and only if it is in the list; an address that was already owned keeps its block and its
  lease, and a new one starts blocked with an expired lease.\<close>

lemma replace_owned:
  assumes "ReplaceOwnedVIPs kn addrs g w = (Inr (), w')"
  shows "map_of (vip_owned_table w') k =
    (if k \<in> As16 ` set addrs then Some ((get newGuard (vip_owned_table w) k)\<lparr>o_generation := g\<rparr>) else None)"
proof -
  obtain w1 where p: "putOwnedAll kn addrs g w = (Inr (), w1)"
    and rest: "(case Iterate kn vip_owned_table w1 of ((entries, err), w') \<Rightarrow>
         bind (deleteOwned kn (As16 ` set addrs) entries) (\<lambda>_. iterErr err) w') = (Inr (), w')"
    using assms by (auto simp: ReplaceOwnedVIPs_def)
  obtain ents err where it: "Iterate kn vip_owned_table w1 = ((ents, err), tick w1)" "err = None \<longrightarrow> ents = vip_owned_table w1"
    by (rule Iterate_cases)
  have d: "deleteOwned kn (As16 ` set addrs) ents (tick w1) = (Inr (), w')" "ents = vip_owned_table w1"
    using rest it by (auto simp: iterErr_def split: option.splits)
  show ?thesis
    using deleteOwned_Inr [OF d(1), of k] putOwnedAll_Inr [OF p, of k] d(2) map_of_eq_None_iff [of "vip_owned_table w1" k]
    by auto
qed

definition leased :: "kernel \<Rightarrow> nat \<Rightarrow> nat \<Rightarrow> vip_owned_value \<Rightarrow> vip_owned_value \<Rightarrow> bool" where
  "leased kn lo hi v v' \<longleftrightarrow>
     (\<exists>n. lo \<le> n \<and> n < hi \<and> v' = v\<lparr>o_blocked := 0, o_expires_at_ns := now kn n + OwnedVIPLease\<rparr>)"

lemma leased_wider:
  assumes "leased kn lo hi v v'" "lo' \<le> lo" "hi \<le> hi'"
  shows "leased kn lo' hi' v v'"
proof -
  obtain n where "lo \<le> n" "n < hi" "v' = v\<lparr>o_blocked := 0, o_expires_at_ns := now kn n + OwnedVIPLease\<rparr>"
    using assms(1) by (auto simp: leased_def)
  then show ?thesis using assms(2,3) unfolding leased_def by (intro exI [of _ n]) simp
qed

lemma leased_again: "leased kn lo mid v v' \<Longrightarrow> leased kn mid hi v' v'' \<Longrightarrow> leased kn mid hi v v''"
  by (auto simp: leased_def)

lemma RenewVIPs_Inr:
  "RenewVIPs kn addrs w = (Inr u, w') \<Longrightarrow> m_ops w \<le> m_ops w' \<and>
    (if k \<in> As16 ` set addrs
     then \<exists>v v'. map_of (vip_owned_table w) k = Some v \<and> map_of (vip_owned_table w') k = Some v' \<and> leased kn (m_ops w) (m_ops w') v v'
     else map_of (vip_owned_table w') k = map_of (vip_owned_table w) k)"
proof (induction addrs arbitrary: w)
  case (Cons a addrs)
  obtain raw v w1 w2 where a: "toWireAddr a = Inr raw" "Lookup kn vip_owned_table raw w = (Inr v, w1)"
    "putOwned kn raw (v\<lparr>o_blocked := 0, o_expires_at_ns := now kn (m_ops w1) + OwnedVIPLease\<rparr>) (tick w1) = (Inr (), w2)"
    "RenewVIPs kn addrs w2 = (Inr u, w')"
    using Cons.prems by auto
  have w1: "w1 = tick w" "map_of (vip_owned_table w) raw = Some v" using a(2) by (auto simp: Lookup_def split: if_splits option.splits)
  let ?v = "v\<lparr>o_blocked := 0, o_expires_at_ns := now kn (m_ops w1) + OwnedVIPLease\<rparr>"
  have t2: "map_of (vip_owned_table w2) = (map_of (vip_owned_table w))(raw \<mapsto> ?v)" "m_ops w2 = m_ops w + 3"
    using a(3) w1(1) by (simp_all add: putOwned_Inr update_conv')
  have raw: "raw = As16 a" using toWireAddr_As16 [OF a(1)] .
  have l: "leased kn (m_ops w) (m_ops w2) v ?v" using w1(1) t2(2) by (auto simp: leased_def intro!: exI [of _ "Suc (m_ops w)"])
  note ih = Cons.IH [OF a(4)]
  then have le: "m_ops w2 \<le> m_ops w'" by simp
  show ?case
  proof (cases "k = raw")
    case True
    then show ?thesis using ih t2 w1(2) raw leased_wider [OF leased_again [OF l]] leased_wider [OF l _ le] by (auto split: if_splits)
  next
    case False
    then show ?thesis using ih t2 raw leased_wider [of kn "m_ops w2" "m_ops w'" _ _ "m_ops w" "m_ops w'"] by (auto split: if_splits)
  qed
qed simp

text \<open>Renewing unblocks exactly the given addresses, for one lease: when it succeeds, each given address
  was owned and is now unblocked until a clock reading of the call plus thirty seconds, and every other address
  keeps its block and its deadline.\<close>

lemma renew_owned:
  assumes "RenewVIPs kn addrs w = (Inr (), w')"
  shows "k \<in> As16 ` set addrs \<Longrightarrow> \<exists>v n. map_of (vip_owned_table w) k = Some v \<and> m_ops w \<le> n \<and> n < m_ops w' \<and>
      map_of (vip_owned_table w') k = Some (v\<lparr>o_blocked := 0, o_expires_at_ns := now kn n + OwnedVIPLease\<rparr>)"
    and "k \<notin> As16 ` set addrs \<Longrightarrow> map_of (vip_owned_table w') k = map_of (vip_owned_table w) k"
  using RenewVIPs_Inr [OF assms, of k] by (auto simp: leased_def)

end
