(* ===== verification/XdpDispatch.thy ===== *)
theory XdpDispatch
  imports GoMap
begin

unbundle bit_operations_syntax

text \<open>
  \<open>internal/plumbing/ebpf/xdpdispatch/dispatch.h\<close> and \<open>dispatch.c\<close>: the walk by which the node's XDP
  programs hand a packet on. A program is identified by its slot. A tail call into an occupied slot does
  not return, so the result of the walk is the slot it enters or the verdict it reaches. The theory
  shows which slot the walk enters, that the return program never runs on a public interface, and that
  a packet handed on from slot to slot always gets a verdict.
\<close>

section \<open>The code\<close>

datatype xdp_action = XDP_ABORTED | XDP_DROP | XDP_PASS | XDP_TX | XDP_REDIRECT

datatype xdp_result = Verdict xdp_action | TailCall nat

definition XDPD_MAX_SLOTS :: nat where "XDPD_MAX_SLOTS = 8"
definition XDPD_SLOT_GATEWAY_LB :: nat where "XDPD_SLOT_GATEWAY_LB = 0"
definition XDPD_SLOT_GATEWAY_RETURN :: nat where "XDPD_SLOT_GATEWAY_RETURN = 1"
definition XDPD_SLOT_NAT :: nat where "XDPD_SLOT_NAT = 2"
definition XDPD_ROLE_PUBLIC_LB :: u32 where "XDPD_ROLE_PUBLIC_LB = push_bit XDPD_SLOT_GATEWAY_LB 1"
definition XDPD_ROLE_INTERNAL_RETURN :: u32 where "XDPD_ROLE_INTERNAL_RETURN = push_bit XDPD_SLOT_GATEWAY_RETURN 1"
definition XDPD_ROLE_EGRESS :: u32 where "XDPD_ROLE_EGRESS = push_bit XDPD_SLOT_NAT 1"

text \<open>The dispatcher's maps: the roles of each interface, the lease of each slot, and which slots hold a
  program.\<close>

record dispatcher =
  iface_roles :: "(u32 \<times> u32) list"
  slot_lease :: "(nat \<times> u64) list"
  dispatch_progs :: "nat list"

definition xdpd_slot_permitted :: "u32 \<Rightarrow> nat \<Rightarrow> bool" where
  "xdpd_slot_permitted roles slot =
     (if roles AND push_bit slot 1 = 0 then False
      else if slot = XDPD_SLOT_GATEWAY_RETURN \<and> roles AND XDPD_ROLE_PUBLIC_LB \<noteq> 0 then False
      else True)"

definition lease_live :: "dispatcher \<Rightarrow> u64 \<Rightarrow> nat \<Rightarrow> bool" where
  "lease_live d now slot = (case map_of (slot_lease d) slot of None \<Rightarrow> False | Some expiry \<Rightarrow> \<not> expiry \<le> now)"

fun dispatch_walk :: "dispatcher \<Rightarrow> u32 \<Rightarrow> u64 \<Rightarrow> nat \<Rightarrow> nat list \<Rightarrow> xdp_result" where
  "dispatch_walk d roles now first [] = Verdict XDP_PASS"
| "dispatch_walk d roles now first (slot # slots) =
     (if slot < first \<or> \<not> xdpd_slot_permitted roles slot then dispatch_walk d roles now first slots
      else if \<not> lease_live d now slot then dispatch_walk d roles now first slots
      else if slot \<in> set (dispatch_progs d) then TailCall slot
      else dispatch_walk d roles now first slots)"

definition dispatch_from :: "dispatcher \<Rightarrow> u64 \<Rightarrow> u32 \<Rightarrow> nat \<Rightarrow> xdp_result" where
  "dispatch_from d now ifindex first =
     (case map_of (iface_roles d) ifindex of None \<Rightarrow> Verdict XDP_PASS
      | Some roles \<Rightarrow> dispatch_walk d roles now first [0..<XDPD_MAX_SLOTS])"

definition dispatch_next :: "dispatcher \<Rightarrow> u64 \<Rightarrow> u32 \<Rightarrow> nat \<Rightarrow> xdp_result" where
  "dispatch_next d now ifindex my_slot = dispatch_from d now ifindex (my_slot + 1)"

definition xdp_dispatch :: "dispatcher \<Rightarrow> u64 \<Rightarrow> u32 \<Rightarrow> xdp_result" where
  "xdp_dispatch d now ifindex = dispatch_from d now ifindex 0"

section \<open>What the walk enters\<close>

definition runnable :: "dispatcher \<Rightarrow> u64 \<Rightarrow> u32 \<Rightarrow> nat \<Rightarrow> bool" where
  "runnable d now ifindex slot \<longleftrightarrow> slot < XDPD_MAX_SLOTS \<and> lease_live d now slot \<and> slot \<in> set (dispatch_progs d) \<and>
     (case map_of (iface_roles d) ifindex of None \<Rightarrow> False | Some roles \<Rightarrow> xdpd_slot_permitted roles slot)"

definition enterable :: "dispatcher \<Rightarrow> u32 \<Rightarrow> u64 \<Rightarrow> nat \<Rightarrow> bool" where
  "enterable d roles now s \<longleftrightarrow> xdpd_slot_permitted roles s \<and> lease_live d now s \<and> s \<in> set (dispatch_progs d)"

lemma dispatch_walk_find:
  "dispatch_walk d roles now first slots =
    (case find (\<lambda>s. first \<le> s \<and> enterable d roles now s) slots of None \<Rightarrow> Verdict XDP_PASS | Some s \<Rightarrow> TailCall s)"
  by (induction slots) (auto simp: enterable_def)

lemma find_upt:
  "find P [0..<n] = Some s \<Longrightarrow> P s \<and> s < n \<and> (\<forall>s' < s. \<not> P s')"
  by (auto simp: find_Some_iff)

lemma dispatch_from_cases:
  obtains (pass) "dispatch_from d now ifindex first = Verdict XDP_PASS" "\<forall>s. first \<le> s \<longrightarrow> \<not> runnable d now ifindex s"
  | (call) s where "dispatch_from d now ifindex first = TailCall s" "first \<le> s" "runnable d now ifindex s"
      "\<forall>s'. first \<le> s' \<and> s' < s \<longrightarrow> \<not> runnable d now ifindex s'"
proof (cases "map_of (iface_roles d) ifindex")
  case None
  then show thesis by (intro pass) (simp_all add: dispatch_from_def runnable_def)
next
  case (Some roles)
  have run: "runnable d now ifindex s \<longleftrightarrow> s < XDPD_MAX_SLOTS \<and> enterable d roles now s" for s
    using Some by (auto simp: runnable_def enterable_def)
  let ?P = "\<lambda>s. first \<le> s \<and> enterable d roles now s"
  have walk: "dispatch_from d now ifindex first = (case find ?P [0..<XDPD_MAX_SLOTS] of None \<Rightarrow> Verdict XDP_PASS | Some s \<Rightarrow> TailCall s)"
    using Some by (simp add: dispatch_from_def dispatch_walk_find)
  show thesis
  proof (cases "find ?P [0..<XDPD_MAX_SLOTS]")
    case None
    then have "\<forall>s. first \<le> s \<longrightarrow> \<not> runnable d now ifindex s" by (auto simp: find_None_iff run)
    with None show thesis by (intro pass) (simp_all add: walk)
  next
    case (Some s)
    note f = find_upt [OF Some]
    show thesis
    proof (rule call)
      show "dispatch_from d now ifindex first = TailCall s" using Some by (simp add: walk)
      show "first \<le> s" "runnable d now ifindex s" using f by (simp_all add: run)
      show "\<forall>s'. first \<le> s' \<and> s' < s \<longrightarrow> \<not> runnable d now ifindex s'" using f by (auto simp: run)
    qed
  qed
qed

lemma dispatch_next_call:
  "dispatch_next d now ifindex my_slot = TailCall s \<longleftrightarrow>
     my_slot < s \<and> runnable d now ifindex s \<and> (\<forall>s'. my_slot < s' \<and> s' < s \<longrightarrow> \<not> runnable d now ifindex s')"
proof (cases rule: dispatch_from_cases [of d now ifindex "my_slot + 1"])
  case pass
  then show ?thesis by (auto simp: dispatch_next_def Suc_le_eq)
next
  case (call t)
  have "t = s" if "my_slot < s" "runnable d now ifindex s" "\<forall>s'. my_slot < s' \<and> s' < s \<longrightarrow> \<not> runnable d now ifindex s'"
    using call that by (metis Suc_eq_plus1 Suc_le_eq nat_neq_iff)
  then show ?thesis using call by (auto simp: dispatch_next_def Suc_le_eq)
qed

lemma dispatch_next_pass:
  "dispatch_next d now ifindex my_slot = Verdict a \<longleftrightarrow> a = XDP_PASS \<and> (\<forall>s. my_slot < s \<longrightarrow> \<not> runnable d now ifindex s)"
  by (cases rule: dispatch_from_cases [of d now ifindex "my_slot + 1"]) (auto simp: dispatch_next_def Suc_le_eq)

text \<open>A dispatcher on a node whose interface 2 is public and carries the egress shard, and whose interface 3
  faces the compute tier.\<close>

definition dispatcher0 :: dispatcher where
  "dispatcher0 = \<lparr>iface_roles = [(2, XDPD_ROLE_PUBLIC_LB OR XDPD_ROLE_INTERNAL_RETURN OR XDPD_ROLE_EGRESS), (3, XDPD_ROLE_INTERNAL_RETURN)],
     slot_lease = [(0, 1000), (1, 1000), (2, 1000)], dispatch_progs = [0, 1, 2]\<rparr>"

text \<open>C38. The walk enters the first slot that may run: handing a packet on from a slot reaches exactly the
  lowest later slot that the interface's roles permit, whose lease is live and which holds a program; it
  gives a verdict if and only if there is no such slot, and then the packet passes to the kernel.\<close>

theorem dispatch_next_first:
  "(dispatch_next d now ifindex my_slot = TailCall s \<longleftrightarrow>
     my_slot < s \<and> runnable d now ifindex s \<and> (\<forall>s'. my_slot < s' \<and> s' < s \<longrightarrow> \<not> runnable d now ifindex s')) \<and>
   (dispatch_next d now ifindex my_slot = Verdict a \<longleftrightarrow> a = XDP_PASS \<and> (\<forall>s. my_slot < s \<longrightarrow> \<not> runnable d now ifindex s))"
  by (intro conjI dispatch_next_call dispatch_next_pass)

theorem dispatch_next_first_witness:
  "dispatch_next dispatcher0 10 2 0 = TailCall 2 \<and> \<not> runnable dispatcher0 10 3 2"
proof -
  have "dispatch_next dispatcher0 10 2 0 = TailCall 2" "dispatch_next dispatcher0 10 3 1 = Verdict XDP_PASS" by code_simp+
  then show ?thesis using dispatch_next_first [of dispatcher0 10 3 1 2 XDP_PASS] by simp
qed

text \<open>The slots a packet goes through: it enters one, and each hands it on to the next.\<close>

fun handed_on :: "dispatcher \<Rightarrow> u64 \<Rightarrow> u32 \<Rightarrow> nat \<Rightarrow> nat list \<Rightarrow> bool" where
  "handed_on d now ifindex first [] = True"
| "handed_on d now ifindex first (s # slots) = (dispatch_from d now ifindex first = TailCall s \<and> handed_on d now ifindex (s + 1) slots)"

lemma dispatch_from_call: "dispatch_from d now ifindex first = TailCall s \<Longrightarrow> first \<le> s \<and> runnable d now ifindex s"
  by (cases rule: dispatch_from_cases [of d now ifindex "first"]) auto

lemma handed_on_slots:
  "handed_on d now ifindex first slots \<Longrightarrow> sorted_wrt (<) slots \<and> (\<forall>s \<in> set slots. first \<le> s \<and> runnable d now ifindex s)"
proof (induction slots arbitrary: first)
  case (Cons s slots)
  then have "first \<le> s" "runnable d now ifindex s" using dispatch_from_call [of d now ifindex "first" s] by simp_all
  moreover have "sorted_wrt (<) slots \<and> (\<forall>t \<in> set slots. s + 1 \<le> t \<and> runnable d now ifindex t)"
    using Cons.prems by (intro Cons.IH) simp
  ultimately show ?case by (auto simp: Suc_le_eq)
qed simp

lemma public_return: "slot = XDPD_SLOT_GATEWAY_RETURN \<Longrightarrow> roles AND XDPD_ROLE_PUBLIC_LB \<noteq> 0 \<Longrightarrow> \<not> xdpd_slot_permitted roles slot"
  by (simp add: xdpd_slot_permitted_def)

lemma chain_slots:
  assumes "handed_on d now ifindex 0 slots"
  shows "distinct slots" "length slots \<le> XDPD_MAX_SLOTS"
    and "map_of (iface_roles d) ifindex = Some roles \<Longrightarrow> roles AND XDPD_ROLE_PUBLIC_LB \<noteq> 0 \<Longrightarrow> XDPD_SLOT_GATEWAY_RETURN \<notin> set slots"
proof -
  note h = handed_on_slots [OF assms]
  show d: "distinct slots" using h strict_sorted_iff by blast
  have "set slots \<subseteq> {..<XDPD_MAX_SLOTS}" using h by (auto simp: runnable_def)
  then show "length slots \<le> XDPD_MAX_SLOTS" using d by (metis card_lessThan card_mono distinct_card finite_lessThan)
  show "XDPD_SLOT_GATEWAY_RETURN \<notin> set slots" if "map_of (iface_roles d) ifindex = Some roles" "roles AND XDPD_ROLE_PUBLIC_LB \<noteq> 0"
    using h that public_return by (auto simp: runnable_def)
qed



end
