(* ===== verification/EdgeProg.thy ===== *)
theory EdgeProg
  imports EdgeMap XdpDispatch
begin

unbundle bit_operations_syntax

text \<open>
  \<open>internal/plumbing/ebpf/edgeprog\<close>: the gateway's XDP programs \<open>edge_lb\<close> and \<open>edge_return\<close> of
  \<open>edgedsr.c\<close>, and \<open>FlowHash\<close> of \<open>flowhash.go\<close>. A program maps a frame, the bytes from
  \<open>ctx->data\<close> to \<open>ctx->data_end\<close>, and the maps' state to a result, the frame it leaves and the new
  state. The host is little-endian (the \<open>bpfel\<close> build): a \<open>__be16\<close> read from memory is the
  byte-swapped value, and \<open>__builtin_bswap16\<close> is \<open>beU16\<close>. What the kernel's helpers return is a
  parameter (\<open>xdp_env\<close>). The results are in \<open>EdgeForward\<close>.
\<close>

section \<open>Constants and headers\<close>

definition EDGE_IP6HDR_LEN :: nat where "EDGE_IP6HDR_LEN = 40"
definition EDGE_IP4HDR_LEN :: nat where "EDGE_IP4HDR_LEN = 20"
definition EDGE_FRAG_QUOTE6 :: nat where "EDGE_FRAG_QUOTE6 = EDGE_IP6HDR_LEN + 8"
definition EDGE_FRAG_QUOTE4 :: nat where "EDGE_FRAG_QUOTE4 = EDGE_IP4HDR_LEN + 8"
definition EDGE_IPV6_MIN_MTU :: nat where "EDGE_IPV6_MIN_MTU = 1280"
definition EDGE_IPV4_MIN_MTU :: nat where "EDGE_IPV4_MIN_MTU = 68"
definition EDGE_MAX_BACKENDS :: nat where "EDGE_MAX_BACKENDS = 64"
definition EDGE_MAGLEV_TABLE_SIZE :: nat where "EDGE_MAGLEV_TABLE_SIZE = 1021"
definition EDGE_MAX_RANGES :: nat where "EDGE_MAX_RANGES = 16"
definition EDGE_ICMP_RATE :: u64 where "EDGE_ICMP_RATE = 1000"
definition EDGE_ICMP_BURST :: u64 where "EDGE_ICMP_BURST = 100"
definition EDGE_ICMP_COST_NS :: u64 where "EDGE_ICMP_COST_NS = 1000000000 div EDGE_ICMP_RATE"
definition EDGE_ETH_P_IP :: u16 where "EDGE_ETH_P_IP = 0x0800"
definition EDGE_ETH_P_IPV6 :: u16 where "EDGE_ETH_P_IPV6 = 0x86DD"
definition ETH_LEN :: nat where "ETH_LEN = 14"

text \<open>Reading and writing memory: a byte, a 16-bit field in host order, an array; \<open>bytes16 v\<close> is the
  memory of a 16-bit host value.\<close>

definition ld16 :: "bytes \<Rightarrow> nat \<Rightarrow> u16" where
  "ld16 f i = ucast (f ! i) OR push_bit 8 (ucast (f ! (i + 1)))"

definition ldn :: "bytes \<Rightarrow> nat \<Rightarrow> nat \<Rightarrow> bytes" where
  "ldn f i n = take n (drop i f)"

definition stn :: "bytes \<Rightarrow> nat \<Rightarrow> bytes \<Rightarrow> bytes" where
  "stn f i bs = take i f @ bs @ drop (i + length bs) f"

definition bytes16 :: "u16 \<Rightarrow> bytes" where
  "bytes16 v = [ucast v, ucast (drop_bit 8 v)]"

datatype edge_drop_reason = DROP_REASON_EMPTY_BACKEND_LIST | DROP_REASON_NO_ENCAP_CONFIG | DROP_REASON_FIB_NO_NEIGH
  | DROP_REASON_FIB_UNREACHABLE | DROP_REASON_FIB_FRAG_NEEDED | DROP_REASON_FIB_LOOKUP_FAILED
  | DROP_REASON_ADJUST_HEAD_FAILED | DROP_REASON_NO_EGRESS_IFINDEX | DROP_REASON_REDIRECT_FAILED
  | DROP_REASON_RETURN_HOP_LIMIT | DROP_REASON_ICMP_RATE_LIMITED | DROP_REASON_IPV4_FRAGMENT

record icmp_bucket =
  last_ns :: u64
  credit_ns :: u64

record xstate =
  x_maps :: maps
  encap_config :: "bytes option"
  drop_reasons :: "(edge_drop_reason \<times> u64) list"
  neigh_fallbacks :: u64
  icmp_rate_bucket :: "icmp_bucket option"

section \<open>The kernel's helpers\<close>

datatype fib_code = FIB_SUCCESS | FIB_BLACKHOLE | FIB_UNREACHABLE | FIB_PROHIBIT | FIB_NO_NEIGH | FIB_FRAG_NEEDED | FIB_OTHER

record fib_params =
  fp_v6 :: bool
  fp_src :: bytes
  fp_dst :: bytes
  fp_ifindex :: u32
  fp_tot_len :: u16

record fib_result =
  fr_rc :: fib_code
  fr_mtu :: u16
  fr_dmac :: bytes
  fr_smac :: bytes
  fr_ifindex :: u32

text \<open>\<open>headroom\<close> is what the 40 bytes in front of the frame hold before they are written; \<open>ktime\<close> is
  read once per call site.\<close>

record xdp_env =
  ingress_ifindex :: u32
  fib_lookup :: "fib_params \<Rightarrow> fib_result"
  redirect :: "u32 \<Rightarrow> xdp_action"
  headroom :: "bytes option"
  adjust_tail :: "int \<Rightarrow> bool"
  ktime :: "nat \<Rightarrow> u64"
  csum_diff :: "bytes \<Rightarrow> u32 \<Rightarrow> int"
  stats_room :: bool
  dispatch :: dispatcher

section \<open>Counters\<close>

definition pass_unclaimed_lb :: "xdp_env \<Rightarrow> xdp_result" where
  "pass_unclaimed_lb env = dispatch_next (dispatch env) (ktime env 0) (ingress_ifindex env) XDPD_SLOT_GATEWAY_LB"

definition pass_unclaimed_return :: "xdp_env \<Rightarrow> xdp_result" where
  "pass_unclaimed_return env = dispatch_next (dispatch env) (ktime env 0) (ingress_ifindex env) XDPD_SLOT_GATEWAY_RETURN"

definition count_drop :: "edge_drop_reason \<Rightarrow> xstate \<Rightarrow> xstate" where
  "count_drop reason st = st\<lparr>drop_reasons := AList.update reason (get 0 (drop_reasons st) reason + 1) (drop_reasons st)\<rparr>"

text \<open>A pointer to a statistics row: none, a row of \<open>vip_stats_table\<close>, or a row of
  \<open>vip_return_stats_table\<close>.\<close>

datatype stats_ref = NoStats | VipStats vip_key | ReturnStats bytes

definition update_stats :: "stats_ref \<Rightarrow> (vip_stats_value \<Rightarrow> vip_stats_value) \<Rightarrow> xstate \<Rightarrow> xstate" where
  "update_stats ref f st =
     (case ref of NoStats \<Rightarrow> st
      | VipStats k \<Rightarrow> st\<lparr>x_maps := (x_maps st)\<lparr>vip_stats_table :=
          AList.update k (f (get zeroStats (vip_stats_table (x_maps st)) k)) (vip_stats_table (x_maps st))\<rparr>\<rparr>
      | ReturnStats k \<Rightarrow> st\<lparr>x_maps := (x_maps st)\<lparr>vip_return_stats_table :=
          AList.update k (f (get zeroStats (vip_return_stats_table (x_maps st)) k)) (vip_return_stats_table (x_maps st))\<rparr>\<rparr>)"

definition count_claimed_drop :: "edge_drop_reason \<Rightarrow> stats_ref \<Rightarrow> xstate \<Rightarrow> xstate" where
  "count_claimed_drop reason ref st =
     update_stats ref (\<lambda>s. s\<lparr>s_dropped_packets := s_dropped_packets s + 1\<rparr>) (count_drop reason st)"

definition take_icmp_token :: "u64 \<Rightarrow> xstate \<Rightarrow> bool \<times> xstate" where
  "take_icmp_token t st =
     (case icmp_rate_bucket st of None \<Rightarrow> (False, st)
      | Some b \<Rightarrow>
         (let credit = credit_ns b + (if t > last_ns b then t - last_ns b else 0);
              credit = (if credit > EDGE_ICMP_BURST * EDGE_ICMP_COST_NS then EDGE_ICMP_BURST * EDGE_ICMP_COST_NS else credit);
              b = (if t > last_ns b then b\<lparr>last_ns := t\<rparr> else b)
          in if credit < EDGE_ICMP_COST_NS
             then (False, st\<lparr>icmp_rate_bucket := Some (b\<lparr>credit_ns := credit\<rparr>)\<rparr>)
             else (True, st\<lparr>icmp_rate_bucket := Some (b\<lparr>credit_ns := credit - EDGE_ICMP_COST_NS\<rparr>)\<rparr>)))"

definition csum_fold_add :: "u16 \<Rightarrow> int \<Rightarrow> u16" where
  "csum_fold_add check diff =
     (let s = uint (NOT check) + diff;
          s = s mod 65536 + s div 65536;
          s = s mod 65536 + s div 65536
      in NOT (word_of_int s))"

definition stats_row :: "xdp_env \<Rightarrow> stats_ref \<Rightarrow> xstate \<Rightarrow> stats_ref \<times> xstate" where
  "stats_row env ref st =
     (let present = (case ref of NoStats \<Rightarrow> False
            | VipStats k \<Rightarrow> map_of (vip_stats_table (x_maps st)) k \<noteq> None
            | ReturnStats k \<Rightarrow> map_of (vip_return_stats_table (x_maps st)) k \<noteq> None)
      in if present then (ref, st)
         else if stats_room env then (ref, update_stats ref (\<lambda>s. zeroStats) st)
         else (NoStats, st))"

definition count_match :: "xdp_env \<Rightarrow> stats_ref \<Rightarrow> nat \<Rightarrow> xstate \<Rightarrow> xstate" where
  "count_match env ref len st =
     update_stats ref (\<lambda>s. s\<lparr>s_packets := s_packets s + 1, s_bytes := s_bytes s + of_nat len, s_last_seen_ns := ktime env 1\<rparr>) st"

section \<open>Addresses and the flow hash\<close>

definition fnv_step :: "u8 \<Rightarrow> u32 \<Rightarrow> u32" where
  "fnv_step b h = (h XOR ucast b) * 16777619"

definition fmix32 :: "u32 \<Rightarrow> u32" where
  "fmix32 h =
     (let h = h XOR drop_bit 16 h; h = h * 0x85ebca6b; h = h XOR drop_bit 13 h; h = h * 0xc2b2ae35 in h XOR drop_bit 16 h)"

text \<open>\<open>flow_hash\<close> of \<open>edgedsr.c\<close>: \<open>port\<close> is the \<open>__be16\<close> as read, its bytes hashed in memory
  order.\<close>

definition flow_hash :: "bytes \<Rightarrow> u8 \<Rightarrow> u8 \<Rightarrow> u16 \<Rightarrow> u32" where
  "flow_hash a affinity proto port =
     (let h = fold fnv_step a 2166136261;
          h = (if affinity = AffinityClientIPAndProtocol then fnv_step proto h
               else if affinity \<noteq> AffinityClientIP then fold fnv_step (bytes16 port) h
               else h)
      in fmix32 h)"

text \<open>\<open>FlowHash\<close> of \<open>flowhash.go\<close>: \<open>port\<close> is the port number.\<close>

definition FlowHash :: "bytes \<Rightarrow> u8 \<Rightarrow> u8 \<Rightarrow> u16 \<Rightarrow> u32" where
  "FlowHash a affinity proto port =
     (let h = fold (\<lambda>b h. (h XOR ucast b) * 16777619) a 2166136261;
          h = (if affinity = AffinityClientIP then h
               else if affinity = AffinityClientIPAndProtocol then (h XOR ucast proto) * 16777619
               else (let h = (h XOR ucast (drop_bit 8 port)) * 16777619 in (h XOR ucast (port AND 0xff)) * 16777619));
          h = h XOR drop_bit 16 h; h = h * 0x85ebca6b; h = h XOR drop_bit 13 h; h = h * 0xc2b2ae35
      in h XOR drop_bit 16 h)"

definition map_v4 :: "bytes \<Rightarrow> bytes" where
  "map_v4 a = replicate 10 0 @ [0xff, 0xff] @ a"

definition is_v4_mapped :: "bytes \<Rightarrow> bool" where
  "is_v4_mapped a = (take 8 a = replicate 8 0 \<and> take 2 (drop 8 a) = [0, 0] \<and> a ! 10 = 0xff \<and> a ! 11 = 0xff)"

definition v4_answerable_source :: "bytes \<Rightarrow> bool" where
  "v4_answerable_source a = (if a ! 0 = 0 \<or> a ! 0 = 127 \<or> a ! 0 \<ge> 224 then False else True)"

section \<open>Sending\<close>

text \<open>\<open>resolve_fib_and_write_eth\<close> and its IPv4 form: the code, the Ethernet header (the given one unless
  the lookup succeeded), the egress interface, and the MTU a refused lookup reports.\<close>

definition resolve_fib_and_write_eth ::
  "xdp_env \<Rightarrow> bytes \<Rightarrow> bytes \<Rightarrow> u16 \<Rightarrow> bytes \<Rightarrow> fib_code \<times> bytes \<times> u32 \<times> u16" where
  "resolve_fib_and_write_eth env src dst tot_len eth =
     (let r = fib_lookup env \<lparr>fp_v6 = True, fp_src = src, fp_dst = dst, fp_ifindex = ingress_ifindex env, fp_tot_len = tot_len\<rparr>;
          mtu = (if fr_rc r = FIB_FRAG_NEEDED then fr_mtu r else 0)
      in if fr_rc r \<noteq> FIB_SUCCESS then (fr_rc r, eth, 0, mtu)
         else (FIB_SUCCESS, fr_dmac r @ fr_smac r @ bytes16 (beU16 EDGE_ETH_P_IPV6), fr_ifindex r, mtu))"

definition resolve_fib4_and_write_eth ::
  "xdp_env \<Rightarrow> bytes \<Rightarrow> bytes \<Rightarrow> u16 \<Rightarrow> bytes \<Rightarrow> fib_code \<times> bytes \<times> u32" where
  "resolve_fib4_and_write_eth env src dst tot_len eth =
     (let r = fib_lookup env \<lparr>fp_v6 = False, fp_src = src, fp_dst = dst, fp_ifindex = ingress_ifindex env, fp_tot_len = tot_len\<rparr>
      in if fr_rc r \<noteq> FIB_SUCCESS then (fr_rc r, eth, 0)
         else (FIB_SUCCESS, fr_dmac r @ fr_smac r @ bytes16 (beU16 EDGE_ETH_P_IP), fr_ifindex r))"

definition count_fib_drop :: "fib_code \<Rightarrow> stats_ref \<Rightarrow> xstate \<Rightarrow> xstate" where
  "count_fib_drop rc ref st =
     (if rc = FIB_NO_NEIGH then count_claimed_drop DROP_REASON_FIB_NO_NEIGH ref st
      else if rc = FIB_UNREACHABLE \<or> rc = FIB_BLACKHOLE \<or> rc = FIB_PROHIBIT then count_claimed_drop DROP_REASON_FIB_UNREACHABLE ref st
      else if rc = FIB_FRAG_NEEDED then count_claimed_drop DROP_REASON_FIB_FRAG_NEEDED ref st
      else count_claimed_drop DROP_REASON_FIB_LOOKUP_FAILED ref st)"

definition ip6_header :: "u16 \<Rightarrow> u8 \<Rightarrow> bytes \<Rightarrow> bytes \<Rightarrow> bytes" where
  "ip6_header payload_len nexthdr src dst = [0x60, 0, 0, 0] @ bytes16 payload_len @ [nexthdr, 64] @ src @ dst"

datatype push_result = PUSH_OK | EDGE_PUSH_TO_KERNEL | PUSH_FAILED

text \<open>\<open>push_outer_header\<close>: the result, the egress interface, the reported MTU, the frame and the state.\<close>

definition push_outer_header ::
  "xdp_env \<Rightarrow> bytes \<Rightarrow> bytes \<Rightarrow> u16 \<Rightarrow> u8 \<Rightarrow> stats_ref \<Rightarrow> bytes \<Rightarrow> xstate \<Rightarrow> push_result \<times> u32 \<times> u16 \<times> bytes \<times> xstate" where
  "push_outer_header env src dst outer_payload_len nexthdr ref f st =
     (if length f < ETH_LEN then (PUSH_FAILED, 0, 0, f, count_claimed_drop DROP_REASON_ADJUST_HEAD_FAILED ref st)
      else case headroom env of
        None \<Rightarrow> (PUSH_FAILED, 0, 0, f, count_claimed_drop DROP_REASON_ADJUST_HEAD_FAILED ref st)
      | Some room \<Rightarrow>
         (let orig_eth = take ETH_LEN f; f = room @ f
          in if length f < ETH_LEN + EDGE_IP6HDR_LEN
             then (PUSH_FAILED, 0, 0, f, count_claimed_drop DROP_REASON_ADJUST_HEAD_FAILED ref st)
             else
              (let f = stn f ETH_LEN (ip6_header outer_payload_len nexthdr src dst)
               in case resolve_fib_and_write_eth env src dst (40 + beU16 outer_payload_len) (take ETH_LEN f) of
                    (rc, eth, egress, mtu) \<Rightarrow>
                      let f = stn f 0 eth
                      in if rc = FIB_NO_NEIGH
                         then (EDGE_PUSH_TO_KERNEL, egress, mtu, stn f 0 (take 12 orig_eth @ bytes16 (beU16 EDGE_ETH_P_IPV6)),
                               st\<lparr>neigh_fallbacks := neigh_fallbacks st + 1\<rparr>)
                         else if rc \<noteq> FIB_SUCCESS then (PUSH_FAILED, egress, mtu, f, count_fib_drop rc ref st)
                         else (PUSH_OK, egress, mtu, f, st))))"

definition leave_via :: "xdp_env \<Rightarrow> u32 \<Rightarrow> stats_ref \<Rightarrow> xstate \<Rightarrow> xdp_action \<times> xstate" where
  "leave_via env egress ref st =
     (if egress = 0 then (XDP_DROP, count_claimed_drop DROP_REASON_NO_EGRESS_IFINDEX ref st)
      else if egress = ingress_ifindex env then (XDP_TX, st)
      else if redirect env egress \<noteq> XDP_REDIRECT then (XDP_DROP, count_claimed_drop DROP_REASON_REDIRECT_FAILED ref st)
      else (XDP_REDIRECT, st))"

text \<open>A frame after \<open>bpf_xdp_adjust_tail\<close>: cut to the length, or extended with zeros.\<close>

definition resize :: "bytes \<Rightarrow> nat \<Rightarrow> bytes" where
  "resize f n = take n f @ replicate (n - length f) 0"

definition be32 :: "nat \<Rightarrow> bytes" where
  "be32 n = be_bytes 4 (of_nat n :: u32)"

text \<open>The Packet Too Big message: type, code, checksum, MTU and the quoted packet.\<close>

definition too_big_msg :: "xdp_env \<Rightarrow> nat \<Rightarrow> bytes \<Rightarrow> bytes" where
  "too_big_msg env mtu inner =
     (let msg = [2, 0, 0, 0] @ be32 mtu @ take EDGE_FRAG_QUOTE6 inner;
          client = ldn inner 8 16; vip = ldn inner 24 16;
          pseudo = vip @ client @ be32 (length msg) @ be32 58;
          s = csum_diff env msg (word_of_int (csum_diff env pseudo 0))
      in stn msg 2 (bytes16 (csum_fold_add 0xFFFF s)))"

definition send_too_big6 :: "xdp_env \<Rightarrow> nat \<Rightarrow> bytes \<Rightarrow> xstate \<Rightarrow> xdp_action \<times> bytes \<times> xstate" where
  "send_too_big6 env mtu f st =
     (let inner = drop (ETH_LEN + EDGE_IP6HDR_LEN) f
      in if length f < ETH_LEN + EDGE_IP6HDR_LEN + EDGE_FRAG_QUOTE6 then (XDP_DROP, f, st)
         else case take_icmp_token (ktime env 2) st of
           (False, st) \<Rightarrow> (XDP_DROP, f, count_drop DROP_REASON_ICMP_RATE_LIMITED st)
         | (True, st) \<Rightarrow>
            (let msg = too_big_msg env mtu inner; client = ldn inner 8 16; vip = ldn inner 24 16;
                 want = ETH_LEN + EDGE_IP6HDR_LEN + length msg
             in if \<not> adjust_tail env (int want - int (length f)) then (XDP_DROP, f, count_drop DROP_REASON_ADJUST_HEAD_FAILED st)
                else
                 (let f = stn (resize f want) ETH_LEN (ip6_header (beU16 (of_nat (length msg))) 58 vip client @ msg)
                  in case resolve_fib_and_write_eth env vip client (of_nat (EDGE_IP6HDR_LEN + length msg)) (take ETH_LEN f) of
                       (rc, eth, egress, mtu') \<Rightarrow>
                         let f = stn f 0 eth
                         in if rc \<noteq> FIB_SUCCESS then (XDP_DROP, f, count_fib_drop rc NoStats st)
                            else (case leave_via env egress NoStats st of (a, st) \<Rightarrow> (a, f, st)))))"

definition frag_needed_msg :: "xdp_env \<Rightarrow> nat \<Rightarrow> bytes \<Rightarrow> bytes" where
  "frag_needed_msg env mtu inner =
     (let msg = [3, 4, 0, 0] @ be32 (mtu mod 65536) @ take EDGE_FRAG_QUOTE4 inner
      in stn msg 2 (bytes16 (csum_fold_add 0xFFFF (csum_diff env msg 0))))"

definition ip4_header :: "xdp_env \<Rightarrow> u16 \<Rightarrow> bytes \<Rightarrow> bytes \<Rightarrow> bytes" where
  "ip4_header env tot_len src dst =
     (let ip = [0x45, 0] @ bytes16 (beU16 tot_len) @ [0, 0, 0, 0] @ [64, 1] @ [0, 0] @ src @ dst
      in stn ip 10 (bytes16 (csum_fold_add 0xFFFF (csum_diff env ip 0))))"

definition send_frag_needed4 :: "xdp_env \<Rightarrow> nat \<Rightarrow> bytes \<Rightarrow> xstate \<Rightarrow> xdp_action \<times> bytes \<times> xstate" where
  "send_frag_needed4 env mtu f st =
     (let inner = drop (ETH_LEN + EDGE_IP6HDR_LEN) f
      in if length f < ETH_LEN + EDGE_IP6HDR_LEN + EDGE_FRAG_QUOTE4 then (XDP_DROP, f, st)
         else case take_icmp_token (ktime env 2) st of
           (False, st) \<Rightarrow> (XDP_DROP, f, count_drop DROP_REASON_ICMP_RATE_LIMITED st)
         | (True, st) \<Rightarrow>
            (let msg = frag_needed_msg env mtu inner; client = ldn inner 12 4; vip = ldn inner 16 4;
                 ip = ip4_header env (of_nat (EDGE_IP4HDR_LEN + length msg)) vip client;
                 want = ETH_LEN + EDGE_IP4HDR_LEN + length msg
             in if \<not> adjust_tail env (int want - int (length f)) then (XDP_DROP, f, count_drop DROP_REASON_ADJUST_HEAD_FAILED st)
                else
                 (let f = stn (resize f want) ETH_LEN (ip @ msg)
                  in case resolve_fib4_and_write_eth env vip client (of_nat (EDGE_IP4HDR_LEN + length msg)) (take ETH_LEN f) of
                       (rc, eth, egress) \<Rightarrow>
                         let f = stn f 0 eth
                         in if rc \<noteq> FIB_SUCCESS then (XDP_DROP, f, count_fib_drop rc NoStats st)
                            else (case leave_via env egress NoStats st of (a, st) \<Rightarrow> (a, f, st)))))"

section \<open>Load balancing\<close>

text \<open>\<open>lb_forward\<close>: the verdict, or \<open>None\<close> for \<open>-1\<close>; the reported MTU, the frame and the state.\<close>

definition lb_forward ::
  "xdp_env \<Rightarrow> vip_value \<Rightarrow> stats_ref \<Rightarrow> bytes \<Rightarrow> u8 \<Rightarrow> u16 \<Rightarrow> u16 \<Rightarrow> u8 \<Rightarrow> bytes \<Rightarrow> xstate \<Rightarrow>
   xdp_action option \<times> u16 \<times> bytes \<times> xstate" where
  "lb_forward env rule ref client proto sport outer_payload_len nexthdr f st =
     (if v_backend_count rule = 0 then (Some XDP_DROP, 0, f, count_claimed_drop DROP_REASON_EMPTY_BACKEND_LIST ref st)
      else
       (let slot = unat (flow_hash client (v_affinity rule) proto sport) mod EDGE_MAGLEV_TABLE_SIZE;
            slot = (if slot \<ge> EDGE_MAGLEV_TABLE_SIZE then EDGE_MAGLEV_TABLE_SIZE - 1 else slot);
            backend_idx = (v_maglev_table rule ! slot) AND of_nat (EDGE_MAX_BACKENDS - 1);
            b = v_backends rule ! unat backend_idx
        in case encap_config st of
             None \<Rightarrow> (Some XDP_DROP, 0, f, count_claimed_drop DROP_REASON_NO_ENCAP_CONFIG ref st)
           | Some encap_src \<Rightarrow>
              (case push_outer_header env encap_src (w_usid b) outer_payload_len nexthdr ref f st of
                 (pushed, egress, mtu, f, st) \<Rightarrow>
                   if pushed = EDGE_PUSH_TO_KERNEL then (Some XDP_PASS, mtu, f, st)
                   else if pushed \<noteq> PUSH_OK then (None, mtu, f, st)
                   else (case leave_via env egress ref st of (a, st) \<Rightarrow> (Some a, mtu, f, st)))))"

fun range_scan :: "maps \<Rightarrow> vip_key \<Rightarrow> vip_value option \<Rightarrow> u16 \<Rightarrow> nat \<Rightarrow> vip_range list \<Rightarrow> vip_value option \<times> vip_key" where
  "range_scan m key rule port n [] = (rule, key)"
| "range_scan m key rule port n (r # rs) =
     (if 0 < n \<and> port \<ge> r_start r \<and> port \<le> r_end r
      then (if rule \<noteq> None then (None, key)
            else (let key = key\<lparr>k_port := beU16 (r_start r)\<rparr>
                  in (case map_of (vip_range_backends m) key of
                        Some matched \<Rightarrow> (if v_generation matched = r_generation r then (Some matched, key) else (None, key))
                      | None \<Rightarrow> (None, key))))
      else range_scan m key rule port (n - 1) rs)"

text \<open>\<open>lookup_vip_rule\<close>: the rule, and the key as the function leaves it (a range's rule is keyed by the
  range's first port).\<close>

definition lookup_vip_rule :: "maps \<Rightarrow> vip_key \<Rightarrow> vip_value option \<times> vip_key" where
  "lookup_vip_rule m key =
     (let rule = map_of (vip_table m) key; port = beU16 (k_port key)
      in case map_of (vip_range_table m) (key\<lparr>k_port := 0\<rparr>) of
           None \<Rightarrow> (rule, key)
         | Some ranges \<Rightarrow> range_scan m key rule port (unat (rv_count ranges)) (take EDGE_MAX_RANGES (rv_ranges ranges)))"

datatype ownership = NotOwned | OwnedServing | OwnedBlocked

definition vip_owned :: "xdp_env \<Rightarrow> maps \<Rightarrow> bytes \<Rightarrow> ownership" where
  "vip_owned env m a =
     (case map_of (vip_owned_table m) a of None \<Rightarrow> NotOwned
      | Some v \<Rightarrow> if o_blocked v \<noteq> 0 \<or> o_expires_at_ns v \<le> ktime env 3 then OwnedBlocked else OwnedServing)"

definition edge_lb_v6 :: "xdp_env \<Rightarrow> bytes \<Rightarrow> xstate \<Rightarrow> xdp_result \<times> bytes \<times> xstate" where
  "edge_lb_v6 env f st =
     (if length f < ETH_LEN + EDGE_IP6HDR_LEN then (pass_unclaimed_lb env, f, st)
      else
       (let daddr = ldn f 38 16; nexthdr = f ! 20; owned = vip_owned env (x_maps st) daddr
        in if nexthdr \<noteq> 6 \<and> nexthdr \<noteq> 17
           then (if owned \<noteq> NotOwned \<and> nexthdr \<noteq> 58 then (Verdict XDP_DROP, f, st) else (pass_unclaimed_lb env, f, st))
           else if owned = OwnedBlocked then (Verdict XDP_DROP, f, st)
           else if is_v4_mapped daddr then (pass_unclaimed_lb env, f, st)
           else if length f < ETH_LEN + EDGE_IP6HDR_LEN + 4
           then (if owned \<noteq> NotOwned then (Verdict XDP_DROP, f, st) else (pass_unclaimed_lb env, f, st))
           else
            (case lookup_vip_rule (x_maps st) \<lparr>k_proto = nexthdr, k_port = ld16 f 56, k_vip = daddr\<rparr> of
               (None, _) \<Rightarrow> (if owned \<noteq> NotOwned then (Verdict XDP_DROP, f, st) else (pass_unclaimed_lb env, f, st))
             | (Some rule, vk) \<Rightarrow>
                (case stats_row env (VipStats vk) st of
                   (ref, st) \<Rightarrow>
                     let st = count_match env ref (length f) st
                     in case lb_forward env rule ref (ldn f 22 16) (k_proto vk) (ld16 f 54) (beU16 (40 + beU16 (ld16 f 18))) 41 f st of
                          (Some a, _, f, st) \<Rightarrow> (Verdict a, f, st)
                        | (None, frag_mtu, f, st) \<Rightarrow>
                            if unat frag_mtu \<ge> EDGE_IPV6_MIN_MTU + EDGE_IP6HDR_LEN
                            then (case send_too_big6 env (unat frag_mtu - EDGE_IP6HDR_LEN) f st of (a, f, st) \<Rightarrow> (Verdict a, f, st))
                            else (Verdict XDP_DROP, f, st)))))"

definition edge_lb_v4 :: "xdp_env \<Rightarrow> bytes \<Rightarrow> xstate \<Rightarrow> xdp_result \<times> bytes \<times> xstate" where
  "edge_lb_v4 env f st =
     (if length f < ETH_LEN + EDGE_IP4HDR_LEN then (pass_unclaimed_lb env, f, st)
      else if drop_bit 4 (f ! 14) \<noteq> 4 then (pass_unclaimed_lb env, f, st)
      else
       (let hlen = 4 * unat (f ! 14 AND 0x0f); tot_len = unat (beU16 (ld16 f 16)); frame_l3 = length f - ETH_LEN;
            proto = f ! 23; vip = map_v4 (ldn f 30 4); frag_off = beU16 (ld16 f 20)
        in if hlen < EDGE_IP4HDR_LEN then (pass_unclaimed_lb env, f, st)
           else if tot_len < hlen \<or> tot_len > frame_l3 then (pass_unclaimed_lb env, f, st)
           else if proto \<noteq> 6 \<and> proto \<noteq> 17 then (pass_unclaimed_lb env, f, st)
           else if frag_off AND 0x3fff \<noteq> 0
           then (if map_of (vip_addr_table (x_maps st)) vip = None then (pass_unclaimed_lb env, f, st)
                 else (Verdict XDP_DROP, f, count_drop DROP_REASON_IPV4_FRAGMENT st))
           else if hlen + (if proto = 6 then 20 else 8) > tot_len then (pass_unclaimed_lb env, f, st)
           else if length f < ETH_LEN + hlen + 4 then (pass_unclaimed_lb env, f, st)
           else
            (case lookup_vip_rule (x_maps st) \<lparr>k_proto = proto, k_port = ld16 f (ETH_LEN + hlen + 2), k_vip = vip\<rparr> of
               (None, _) \<Rightarrow> (pass_unclaimed_lb env, f, st)
             | (Some rule, vk) \<Rightarrow>
                (case stats_row env (VipStats vk) st of
                   (ref, st) \<Rightarrow>
                     let st = count_match env ref (length f) st;
                         client = map_v4 (ldn f 26 4); sport = ld16 f (ETH_LEN + hlen);
                         answerable = (frag_off AND 0x4000 \<noteq> 0 \<and> hlen = EDGE_IP4HDR_LEN \<and> v4_answerable_source (ldn f 26 4))
                     in if frame_l3 > tot_len \<and> \<not> adjust_tail env (- int (frame_l3 - tot_len))
                        then (Verdict XDP_DROP, f, count_claimed_drop DROP_REASON_ADJUST_HEAD_FAILED ref st)
                        else
                         (case lb_forward env rule ref client (k_proto vk) sport (beU16 (of_nat tot_len)) 4 (take (ETH_LEN + tot_len) f) st of
                            (Some a, _, f, st) \<Rightarrow> (Verdict a, f, st)
                          | (None, frag_mtu, f, st) \<Rightarrow>
                              if answerable \<and> unat frag_mtu \<ge> EDGE_IPV4_MIN_MTU + EDGE_IP6HDR_LEN
                              then (case send_frag_needed4 env (unat frag_mtu - EDGE_IP6HDR_LEN) f st of (a, f, st) \<Rightarrow> (Verdict a, f, st))
                              else (Verdict XDP_DROP, f, st))))))"

definition edge_lb :: "xdp_env \<Rightarrow> bytes \<Rightarrow> xstate \<Rightarrow> xdp_result \<times> bytes \<times> xstate" where
  "edge_lb env f st =
     (if length f < ETH_LEN then (pass_unclaimed_lb env, f, st)
      else if ld16 f 12 = beU16 EDGE_ETH_P_IPV6 then edge_lb_v6 env f st
      else if ld16 f 12 = beU16 EDGE_ETH_P_IP then edge_lb_v4 env f st
      else (pass_unclaimed_lb env, f, st))"

section \<open>The return path\<close>

definition edge_return_v6 :: "xdp_env \<Rightarrow> bytes \<Rightarrow> xstate \<Rightarrow> xdp_result \<times> bytes \<times> xstate" where
  "edge_return_v6 env f st =
     (if length f < ETH_LEN + EDGE_IP6HDR_LEN then (pass_unclaimed_return env, f, st)
      else if is_v4_mapped (ldn f 22 16) then (pass_unclaimed_return env, f, st)
      else if map_of (vip_addr_table (x_maps st)) (ldn f 22 16) = None then (pass_unclaimed_return env, f, st)
      else
       (case stats_row env (ReturnStats (ldn f 22 16)) st of
          (ref, st) \<Rightarrow>
            let st = count_match env ref (length f) st
            in if f ! 21 \<le> 1 then (Verdict XDP_DROP, f, count_claimed_drop DROP_REASON_RETURN_HOP_LIMIT ref st)
               else case resolve_fib_and_write_eth env (ldn f 22 16) (ldn f 38 16) (40 + beU16 (ld16 f 18)) (take ETH_LEN f) of
                 (rc, eth, egress, mtu) \<Rightarrow>
                   let f = stn f 0 eth
                   in if rc \<noteq> FIB_SUCCESS then (Verdict XDP_DROP, f, count_fib_drop rc ref st)
                      else (case leave_via env egress ref st of (a, st) \<Rightarrow> (Verdict a, f[21 := f ! 21 - 1], st))))"

text \<open>The TTL goes down by one and the checksum, in memory order, up by \<open>0x0100\<close> with its carry.\<close>

definition decrement_ttl :: "bytes \<Rightarrow> bytes" where
  "decrement_ttl f =
     (let check = (ucast (ld16 f 24) :: u32) + ucast (beU16 0x0100);
          check' = ucast (check + (if check \<ge> 0xFFFF then 1 else 0)) :: u16;
          f = stn f 24 (bytes16 check')
      in f[22 := f ! 22 - 1])"

definition edge_return_v4 :: "xdp_env \<Rightarrow> bytes \<Rightarrow> xstate \<Rightarrow> xdp_result \<times> bytes \<times> xstate" where
  "edge_return_v4 env f st =
     (if length f < ETH_LEN + EDGE_IP4HDR_LEN then (pass_unclaimed_return env, f, st)
      else if drop_bit 4 (f ! 14) \<noteq> 4 then (pass_unclaimed_return env, f, st)
      else
       (let hlen = 4 * unat (f ! 14 AND 0x0f); tot_len = unat (beU16 (ld16 f 16)); src = ldn f 26 4
        in if hlen < EDGE_IP4HDR_LEN \<or> tot_len < hlen \<or> tot_len > length f - ETH_LEN then (pass_unclaimed_return env, f, st)
           else if map_of (vip_addr_table (x_maps st)) (map_v4 src) = None then (pass_unclaimed_return env, f, st)
           else
            (case stats_row env (ReturnStats (map_v4 src)) st of
               (ref, st) \<Rightarrow>
                 let st = count_match env ref (length f) st
                 in if f ! 22 \<le> 1 then (Verdict XDP_DROP, f, count_claimed_drop DROP_REASON_RETURN_HOP_LIMIT ref st)
                    else case resolve_fib4_and_write_eth env src (ldn f 30 4) (of_nat tot_len) (take ETH_LEN f) of
                      (rc, eth, egress) \<Rightarrow>
                        let f = stn f 0 eth
                        in if rc \<noteq> FIB_SUCCESS then (Verdict XDP_DROP, f, count_fib_drop rc ref st)
                           else (case leave_via env egress ref st of (a, st) \<Rightarrow> (Verdict a, decrement_ttl f, st)))))"

definition edge_return :: "xdp_env \<Rightarrow> bytes \<Rightarrow> xstate \<Rightarrow> xdp_result \<times> bytes \<times> xstate" where
  "edge_return env f st =
     (if length f < ETH_LEN then (pass_unclaimed_return env, f, st)
      else if ld16 f 12 = beU16 EDGE_ETH_P_IPV6 then edge_return_v6 env f st
      else if ld16 f 12 = beU16 EDGE_ETH_P_IP then edge_return_v4 env f st
      else (pass_unclaimed_return env, f, st))"

end
