(* ===== verification/EdgeForward.thy ===== *)
theory EdgeForward
  imports EdgeProg
begin

unbundle bit_operations_syntax

text \<open>
  What the gateway's XDP programs of \<open>EdgeProg\<close> do, together with the control plane of \<open>EdgeMap\<close> that
  fills their maps: the flow hash and its Go mirror, the rate limit of the ICMP errors, the IPv4 checksum
  on the return path, what goes on the wire for a registered service, that other traffic is untouched, and
  that an owned address is refused when its guard is blocked or has expired.
\<close>

section \<open>The flow hash\<close>

lemma bytes16_beU16: "bytes16 (beU16 port) = [ucast (drop_bit 8 port), ucast port]"
  by (simp add: bytes16_def beU16_def) (auto intro!: bit_word_eqI simp: bit_simps dest: bit_imp_le_length)

lemma flow_hash_eq: "flow_hash a affinity proto (beU16 port) = FlowHash a affinity proto port"
proof -
  have m: "(0xff :: u16) = mask 8" by (simp add: mask_eq_exp_minus_1)
  have low: "(ucast (port AND 0xff) :: u32) = ucast (ucast port :: u8)"
    unfolding m by (auto intro!: bit_word_eqI simp: bit_simps)
  have high: "(ucast (drop_bit 8 port) :: u32) = ucast (ucast (drop_bit 8 port) :: u8)"
    by (rule bit_word_eqI) (use bit_imp_le_length [of port] in \<open>fastforce simp: bit_simps\<close>)
  show ?thesis
    unfolding flow_hash_def FlowHash_def Let_def fmix32_def bytes16_beU16 low high
    by (simp add: fnv_step_def [abs_def] AffinityClientIP_def AffinityClientIPAndProtocol_def)
qed

text \<open>C33. The Go mirror of the datapath's hash is exact: for every client address, affinity, protocol and
  port, \<open>FlowHash\<close> of the port number equals \<open>flow_hash\<close> of the port as the program reads it from the
  packet, so the slot a tool predicts is the slot the program uses.\<close>

theorem flow_hash_mirrored: "FlowHash a affinity proto port = flow_hash a affinity proto (beU16 port)"
  by (rule flow_hash_eq [symmetric])

section \<open>The ICMP rate limit\<close>

text \<open>Successive calls at the given clock readings: how many tokens they take.\<close>

fun icmp_tokens :: "u64 list \<Rightarrow> xstate \<Rightarrow> nat \<times> xstate" where
  "icmp_tokens [] st = (0, st)"
| "icmp_tokens (t # ts) st =
     (case take_icmp_token t st of (granted, st1) \<Rightarrow>
        case icmp_tokens ts st1 of (n, st2) \<Rightarrow> ((if granted then 1 else 0) + n, st2))"

definition bucket_ok :: "icmp_bucket \<Rightarrow> bool" where
  "bucket_ok b \<longleftrightarrow> credit_ns b \<le> EDGE_ICMP_BURST * EDGE_ICMP_COST_NS"

lemma icmp_constants: "unat EDGE_ICMP_COST_NS = 1000000" "unat (EDGE_ICMP_BURST * EDGE_ICMP_COST_NS) = 100000000"
  by (simp_all add: EDGE_ICMP_COST_NS_def EDGE_ICMP_RATE_def EDGE_ICMP_BURST_def)

lemma unat_refill: "unat (c + (if t > before then t - before else 0) :: u64) \<le> unat c + (unat t - unat before)"
proof (cases "t > before")
  case True
  then have "unat (t - before) = unat t - unat before" by (meson order.strict_implies_order unat_sub)
  moreover have "unat (c + (t - before)) \<le> unat c + unat (t - before)" by (simp add: unat_word_ariths)
  ultimately show ?thesis using True by simp
qed simp

text \<open>One call spends what it grants: credit and the price of the granted message come from the credit
  before and the time that has passed.\<close>

lemma take_icmp_token_step:
  assumes "icmp_rate_bucket st = Some b" "take_icmp_token t st = (granted, st')"
  shows "\<exists>b'. icmp_rate_bucket st' = Some b' \<and> bucket_ok b' \<and> last_ns b' = max (last_ns b) t \<and>
    unat (credit_ns b') + (if granted then 1000000 else 0) \<le> 100000000 \<and>
    unat (credit_ns b') + (if granted then 1000000 else 0) \<le> unat (credit_ns b) + (unat t - unat (last_ns b))"
proof -
  let ?c = "credit_ns b + (if t > last_ns b then t - last_ns b else 0)"
  let ?m = "EDGE_ICMP_BURST * EDGE_ICMP_COST_NS"
  define credit where "credit = (if ?c > ?m then ?m else ?c)"
  have le: "unat credit \<le> 100000000" "unat credit \<le> unat (credit_ns b) + (unat t - unat (last_ns b))"
    using unat_refill [of "credit_ns b" "last_ns b" t] icmp_constants(2)
    by (auto simp: credit_def word_less_nat_alt not_less split: if_splits)
  have ok: "bucket_ok c" if "unat (credit_ns c) \<le> 100000000" for c
    using that icmp_constants(2) by (simp add: bucket_ok_def word_le_nat_alt)
  show ?thesis
  proof (cases "credit < EDGE_ICMP_COST_NS")
    case True
    then have "granted = False" "icmp_rate_bucket st' = Some (b\<lparr>last_ns := max (last_ns b) t, credit_ns := credit\<rparr>)"
      using assms unfolding take_icmp_token_def credit_def by (auto simp: Let_def max_def split: if_splits)
    then show ?thesis using le ok by simp
  next
    case False
    then have u: "unat (credit - EDGE_ICMP_COST_NS) = unat credit - 1000000" "1000000 \<le> unat credit"
      using icmp_constants(1) by (simp_all add: unat_sub word_le_nat_alt not_less)
    have "granted" "icmp_rate_bucket st' = Some (b\<lparr>last_ns := max (last_ns b) t, credit_ns := credit - EDGE_ICMP_COST_NS\<rparr>)"
      using False assms unfolding take_icmp_token_def credit_def by (auto simp: Let_def max_def split: if_splits)
    then show ?thesis using le ok u by simp
  qed
qed

lemma icmp_tokens_later:
  assumes "icmp_rate_bucket st = Some b" "unat t0 \<le> unat (last_ns b)" "\<forall>t \<in> set ts. t \<le> t1" "last_ns b \<le> t1"
  shows "fst (icmp_tokens ts st) * 1000000 \<le> unat (credit_ns b) + (unat t1 - unat (last_ns b))"
  using assms
proof (induction ts arbitrary: st b)
  case Nil
  then show ?case by simp
next
  case (Cons t ts)
  obtain granted st1 where call: "take_icmp_token t st = (granted, st1)" by fastforce
  obtain b1 where b1: "icmp_rate_bucket st1 = Some b1" "last_ns b1 = max (last_ns b) t"
    "unat (credit_ns b1) + (if granted then 1000000 else 0) \<le> unat (credit_ns b) + (unat t - unat (last_ns b))"
    using take_icmp_token_step [OF Cons.prems(1) call] by blast
  have m: "unat (last_ns b1) = max (unat (last_ns b)) (unat t)" using b1(2) by (simp add: max_def word_le_nat_alt)
  have "fst (icmp_tokens ts st1) * 1000000 \<le> unat (credit_ns b1) + (unat t1 - unat (last_ns b1))"
    using Cons.prems b1(1,2) m by (intro Cons.IH) simp_all
  moreover have "unat t \<le> unat t1" "unat (last_ns b) \<le> unat t1" using Cons.prems by (simp_all add: word_le_nat_alt)
  ultimately show ?case using b1(3) m call by (auto split: prod.splits if_splits)
qed

text \<open>C17. The ICMP errors are rate limited: from any bucket within its capacity, calls whose clock readings
  all lie between two times, in any order and including readings behind the bucket's, take at most the
  burst of 100 tokens plus one for each millisecond between the two times, and leave the bucket within its
  capacity; neither the 64-bit sum nor a clock running backwards breaks the limit.\<close>

theorem icmp_rate_bound:
  assumes "icmp_rate_bucket st = Some b" "bucket_ok b" "\<forall>t \<in> set ts. t0 \<le> t \<and> t \<le> t1"
  shows "fst (icmp_tokens ts st) \<le> 100 + (unat t1 - unat t0) div 1000000 \<and>
    (\<exists>b'. icmp_rate_bucket (snd (icmp_tokens ts st)) = Some b' \<and> bucket_ok b')"
proof
  show "\<exists>b'. icmp_rate_bucket (snd (icmp_tokens ts st)) = Some b' \<and> bucket_ok b'"
    using assms(1,2)
  proof (induction ts arbitrary: st b)
    case (Cons t ts)
    obtain granted st1 where call: "take_icmp_token t st = (granted, st1)" by fastforce
    obtain b1 where b1: "icmp_rate_bucket st1 = Some b1" "bucket_ok b1"
      using take_icmp_token_step [OF Cons.prems(1) call] by blast
    show ?case using Cons.IH [OF b1] call by (auto split: prod.splits)
  qed simp
  show "fst (icmp_tokens ts st) \<le> 100 + (unat t1 - unat t0) div 1000000"
  proof (cases ts)
    case (Cons t rest)
    obtain granted st1 where call: "take_icmp_token t st = (granted, st1)" by fastforce
    obtain b1 where b1: "icmp_rate_bucket st1 = Some b1" "last_ns b1 = max (last_ns b) t"
      "unat (credit_ns b1) + (if granted then 1000000 else 0) \<le> 100000000"
      using take_icmp_token_step [OF assms(1) call] by blast
    show ?thesis
    proof (cases "last_ns b1 \<le> t1")
      case True
      have "fst (icmp_tokens rest st1) * 1000000 \<le> unat (credit_ns b1) + (unat t1 - unat (last_ns b1))"
        using assms(3) Cons b1 True by (intro icmp_tokens_later [of _ _ t0]) (auto simp: word_le_nat_alt max_def)
      moreover have "unat t0 \<le> unat (last_ns b1)" using assms(3) Cons b1(2) by (auto simp: word_le_nat_alt max_def)
      ultimately have "fst (icmp_tokens ts st) * 1000000 \<le> 100000000 + (unat t1 - unat t0)"
        using b1(3) Cons call by (auto split: prod.splits if_splits)
      then show ?thesis by linarith
    next
      case False
      then have ahead: "last_ns b1 = last_ns b" "t1 < last_ns b1" using b1(2) assms(3) Cons by (auto simp: max_def split: if_splits)
      have "fst (icmp_tokens rest st1) * 1000000 \<le> unat (credit_ns b1) + (unat (last_ns b1) - unat (last_ns b1))"
        using assms(3) Cons b1 ahead by (intro icmp_tokens_later [of _ _ "last_ns b1"]) auto
      then have "fst (icmp_tokens ts st) * 1000000 \<le> 100000000" using b1(3) Cons call by (auto split: prod.splits if_splits)
      then show ?thesis by linarith
    qed
  qed simp
qed
text \<open>A bucket that has been idle: a burst of three calls within one microsecond.\<close>

definition xstate0 :: xstate where
  "xstate0 = \<lparr>x_maps = maps0, encap_config = Some (replicate 15 0 @ [1]), drop_reasons = [], neigh_fallbacks = 0,
     icmp_rate_bucket = Some \<lparr>last_ns = 0, credit_ns = 0\<rparr>\<rparr>"

theorem icmp_rate_bound_witness:
  "fst (icmp_tokens [2000000, 2000001, 2000001] xstate0) = 2 \<and>
   fst (icmp_tokens [2000000, 2000001, 2000001] xstate0) \<le> 100 + (2000001 - 2000000) div 1000000"
proof -
  have b: "icmp_rate_bucket xstate0 = Some \<lparr>last_ns = 0, credit_ns = 0\<rparr>" by (simp add: xstate0_def)
  have "bucket_ok \<lparr>last_ns = 0, credit_ns = 0\<rparr>" by (simp add: bucket_ok_def)
  then have "fst (icmp_tokens [2000000, 2000001, 2000001] xstate0) \<le> 100 + (unat (2000001 :: u64) - unat (2000000 :: u64)) div 1000000"
    using icmp_rate_bound [OF b, of "[2000000, 2000001, 2000001]" 2000000 2000001] by simp
  moreover have "fst (icmp_tokens [2000000, 2000001, 2000001] xstate0) = 2" by code_simp
  ultimately show ?thesis by simp
qed

section \<open>Frames\<close>

lemma length_stn [simp]: "i + length bs \<le> length f \<Longrightarrow> length (stn f i bs) = length f"
  by (simp add: stn_def)

lemma nth_stn: "i + length bs \<le> length f \<Longrightarrow> k < length f \<Longrightarrow>
    stn f i bs ! k = (if i \<le> k \<and> k < i + length bs then bs ! (k - i) else f ! k)"
  by (auto simp: stn_def nth_append)

lemma length_bytes16 [simp]: "length (bytes16 v) = 2"
  by (simp add: bytes16_def)

text \<open>What the kernel fills in: hardware addresses are six bytes.\<close>

definition macs_ok :: "xdp_env \<Rightarrow> bool" where
  "macs_ok env \<longleftrightarrow> (\<forall>p. length (fr_dmac (fib_lookup env p)) = 6 \<and> length (fr_smac (fib_lookup env p)) = 6)"

lemma resolve_fib_cases:
  assumes "macs_ok env" "resolve_fib_and_write_eth env src dst tot_len eth = (rc, eth', egress, mtu)"
  shows "(rc \<noteq> FIB_SUCCESS \<and> eth' = eth \<or>
     rc = FIB_SUCCESS \<and> length eth' = 14 \<and> drop 12 eth' = bytes16 (beU16 EDGE_ETH_P_IPV6))"
  using assms by (auto simp: resolve_fib_and_write_eth_def macs_ok_def Let_def split: if_splits)

lemma resolve_fib4_cases:
  assumes "macs_ok env" "resolve_fib4_and_write_eth env src dst tot_len eth = (rc, eth', egress)"
  shows "(rc \<noteq> FIB_SUCCESS \<and> eth' = eth \<or>
     rc = FIB_SUCCESS \<and> length eth' = 14 \<and> drop 12 eth' = bytes16 (beU16 EDGE_ETH_P_IP))"
  using assms by (auto simp: resolve_fib4_and_write_eth_def macs_ok_def Let_def split: if_splits)

lemma pass_unclaimed_verdict:
  "pass_unclaimed_lb env = Verdict a \<Longrightarrow> a = XDP_PASS" "pass_unclaimed_return env = Verdict a \<Longrightarrow> a = XDP_PASS"
  by (simp_all add: pass_unclaimed_lb_def pass_unclaimed_return_def dispatch_next_pass)

section \<open>The return path and the IPv4 checksum\<close>

definition sends :: "xdp_action \<Rightarrow> bool" where
  "sends a \<longleftrightarrow> a = XDP_TX \<or> a = XDP_REDIRECT"

text \<open>The ones'-complement sum of the IPv4 header's 16-bit words, as a number.\<close>

definition be16_at :: "bytes \<Rightarrow> nat \<Rightarrow> nat" where
  "be16_at f i = 256 * unat (f ! i) + unat (f ! (i + 1))"

definition ip4_sum :: "bytes \<Rightarrow> nat" where
  "ip4_sum f = (\<Sum>i < 2 * unat (f ! 14 AND 0x0f). be16_at f (14 + 2 * i))"

lemma edge_return_v4_sent:
  assumes "macs_ok env" "edge_return_v4 env f st = (Verdict a, f', st')" "sends a"
  shows "\<exists>eth. length eth = 14 \<and> 34 \<le> length f \<and> 5 \<le> unat (f ! 14 AND 0x0f) \<and> 14 + 4 * unat (f ! 14 AND 0x0f) \<le> length f \<and>
    1 < f ! 22 \<and> f' = decrement_ttl (stn f 0 eth)"
  using assms unfolding edge_return_v4_def sends_def
  by (auto simp: Let_def ETH_LEN_def EDGE_IP4HDR_LEN_def not_le not_less dest: pass_unclaimed_verdict
      split: if_splits prod.splits dest!: resolve_fib4_cases)

lemma unat_ld16: "unat (ld16 f i) = unat (f ! i) + 256 * unat (f ! (i + 1))"
  by (simp add: ld16_def or.commute [of "ucast (f ! i)"] unat_byte_pair)

lemma ld16_bytes16: "ld16 (bytes16 v) 0 = v"
  by (rule bit_word_eqI) (auto simp: ld16_def bytes16_def bit_simps)

text \<open>The words of the header as numbers: reading in memory order multiplies by 256, modulo 65535.\<close>

lemma be16_at_ld16: "be16_at f i mod 65535 = 256 * unat (ld16 f i) mod 65535"
proof -
  have "256 * unat (ld16 f i) = be16_at f i + 65535 * unat (f ! (i + 1))"
    by (simp add: unat_ld16 be16_at_def)
  then show ?thesis by simp
qed

lemma ones_increment:
  fixes c :: u16
  defines "d \<equiv> (ucast c :: u32) + 1"
  shows "unat (ucast (d + (if d \<ge> 0xFFFF then 1 else 0)) :: u16) mod 65535 = (unat c + 1) mod 65535"
proof -
  have c: "unat c < 65536" by (rule unat_u16_less)
  have d: "unat d = unat c + 1" using c by (simp add: d_def unat_word_ariths unat_ucast_u16)
  show ?thesis
  proof (cases "d \<ge> 0xFFFF")
    case True
    then have ge: "unat c \<ge> 65534" using d by (simp add: word_le_nat_alt)
    have "unat (d + 1) = unat c + 2" using c d by (simp add: unat_word_ariths)
    then have "unat (ucast (d + 1) :: u16) = (unat c + 2) mod 65536" by (simp add: unsigned_ucast_eq take_bit_eq_mod)
    moreover have "unat c = 65534 \<or> unat c = 65535" using ge c by linarith
    ultimately show ?thesis using True by auto
  next
    case False
    then have "unat c + 1 < 65535" using d by (simp add: word_le_nat_alt not_le)
    then show ?thesis using False d by (simp add: unsigned_ucast_eq take_bit_eq_mod)
  qed
qed

lemma decrement_ttl_fields:
  assumes "26 \<le> length g"
  shows "length (decrement_ttl g) = length g"
    and "k < length g \<Longrightarrow> k \<notin> {22, 24, 25} \<Longrightarrow> decrement_ttl g ! k = g ! k"
    and "decrement_ttl g ! 22 = g ! 22 - 1"
    and "be16_at (decrement_ttl g) 24 mod 65535 = (be16_at g 24 + 256) mod 65535"
proof -
  have b: "beU16 0x0100 = 1" by (simp add: beU16_def)
  let ?d = "(ucast (ld16 g 24) :: u32) + 1"
  let ?v = "ucast (?d + (if ?d \<ge> 0xFFFF then 1 else 0)) :: u16"
  have eq: "decrement_ttl g = (stn g 24 (bytes16 ?v))[22 := g ! 22 - 1]"
    using assms by (simp add: decrement_ttl_def b Let_def nth_stn)
  show "length (decrement_ttl g) = length g" "decrement_ttl g ! 22 = g ! 22 - 1" using assms by (simp_all add: eq)
  show "decrement_ttl g ! k = g ! k" if "k < length g" "k \<notin> {22, 24, 25}"
  proof -
    have "\<not> (24 \<le> k \<and> k < 24 + length (bytes16 ?v))" "k \<noteq> 22" using that by auto
    then show ?thesis unfolding eq using assms that(1) by (simp only: nth_stn length_bytes16 nth_list_update_neq if_False)
  qed
  have "decrement_ttl g ! 24 = bytes16 ?v ! 0" "decrement_ttl g ! 25 = bytes16 ?v ! 1"
    using assms by (simp_all add: eq nth_stn)
  then have "ld16 (decrement_ttl g) 24 = ?v" using ld16_bytes16 [of ?v] by (simp add: ld16_def)
  then have "be16_at (decrement_ttl g) 24 mod 65535 = 256 * (unat ?v mod 65535) mod 65535"
    by (simp add: be16_at_ld16 mod_mult_right_eq)
  also have "\<dots> = 256 * (unat (ld16 g 24) + 1) mod 65535" by (simp only: ones_increment mod_mult_right_eq)
  also have "\<dots> = (256 * unat (ld16 g 24) mod 65535 + 256) mod 65535" by (simp only: mod_add_left_eq distrib_left mult_1_right)
  also have "\<dots> = (be16_at g 24 + 256) mod 65535" by (simp only: be16_at_ld16 [symmetric] mod_add_left_eq)
  finally show "be16_at (decrement_ttl g) 24 mod 65535 = (be16_at g 24 + 256) mod 65535" .
qed

text \<open>The sum over the header splits off the TTL word and the checksum word.\<close>

lemma ip4_sum_split:
  assumes "5 \<le> unat (f ! 14 AND 0x0f)"
  shows "ip4_sum f = be16_at f 22 + be16_at f 24 + (\<Sum>i \<in> {..<2 * unat (f ! 14 AND 0x0f)} - {4, 5}. be16_at f (14 + 2 * i))"
proof -
  let ?n = "2 * unat (f ! 14 AND 0x0f)"
  have "{4, 5} \<subseteq> {..<?n}" using assms by auto
  then have "ip4_sum f = (\<Sum>i \<in> {4, 5}. be16_at f (14 + 2 * i)) + (\<Sum>i \<in> {..<?n} - {4, 5}. be16_at f (14 + 2 * i))"
    unfolding ip4_sum_def using sum.subset_diff [of "{4, 5}" "{..<?n}" "\<lambda>i. be16_at f (14 + 2 * i)"] by simp
  then show ?thesis by simp
qed

lemma decrement_ttl_sum:
  assumes "5 \<le> unat (g ! 14 AND 0x0f)" "14 + 4 * unat (g ! 14 AND 0x0f) \<le> length g" "1 < g ! 22"
  shows "ip4_sum (decrement_ttl g) mod 65535 = ip4_sum g mod 65535"
proof -
  have len: "26 \<le> length g" using assms by linarith
  note f = decrement_ttl_fields [OF len]
  let ?h = "decrement_ttl g" and ?n = "2 * unat (g ! 14 AND 0x0f)"
  have n: "?h ! 14 = g ! 14" using f(2) len by simp
  have rest: "(\<Sum>i \<in> {..<?n} - {4, 5}. be16_at ?h (14 + 2 * i)) = (\<Sum>i \<in> {..<?n} - {4, 5}. be16_at g (14 + 2 * i))"
  proof (rule sum.cong [OF refl])
    fix i assume i: "i \<in> {..<?n} - {4, 5}"
    then have "14 + 2 * i + 1 < length g" using assms(2) by auto
    moreover have "i \<noteq> 4" "i \<noteq> 5" using i by auto
    then have "14 + 2 * i \<notin> {22, 24, 25} \<and> 14 + 2 * i + 1 \<notin> {22, 24, 25}" by simp
    ultimately show "be16_at ?h (14 + 2 * i) = be16_at g (14 + 2 * i)" using f(2) by (simp add: be16_at_def)
  qed
  have "unat (g ! 22 - 1) = unat (g ! 22) - 1" "1 < unat (g ! 22)"
    using assms(3) by (simp_all add: unat_sub word_less_nat_alt word_le_nat_alt)
  then have ttl: "be16_at ?h 22 + 256 = be16_at g 22" using f(2) [of 23] f(3) len by (simp add: be16_at_def)
  let ?r = "\<Sum>i \<in> {..<?n} - {4, 5}. be16_at g (14 + 2 * i)"
  have "ip4_sum ?h = be16_at ?h 24 + (be16_at ?h 22 + ?r)" using ip4_sum_split [of ?h] assms(1) by (simp add: n rest)
  then have "ip4_sum ?h mod 65535 = (be16_at ?h 24 mod 65535 + (be16_at ?h 22 + ?r)) mod 65535" by (simp only: mod_add_left_eq)
  also have "\<dots> = (be16_at g 24 + 256 + (be16_at ?h 22 + ?r)) mod 65535" unfolding f(4) by (simp only: mod_add_left_eq)
  also have "be16_at g 24 + 256 + (be16_at ?h 22 + ?r) = ip4_sum g" using ip4_sum_split [OF assms(1)] ttl by linarith
  finally show ?thesis .
qed

text \<open>C18. The return path forwards a reply as a router must: an IPv4 packet that \<open>edge_return\<close> sends on has
  a TTL of at least two, leaves with the TTL one lower, with every byte of the packet unchanged except the
  TTL and the checksum, and with a header whose ones'-complement sum is the one it came with, so a valid
  header stays valid.\<close>

theorem return_keeps_checksum:
  assumes "macs_ok env" "ld16 f 12 = beU16 EDGE_ETH_P_IP" "edge_return env f st = (Verdict a, f', st')" "sends a"
  shows "length f' = length f \<and> 1 < f ! 22 \<and> f' ! 22 = f ! 22 - 1 \<and>
    (\<forall>k. 14 \<le> k \<and> k < length f \<and> k \<notin> {22, 24, 25} \<longrightarrow> f' ! k = f ! k) \<and>
    ip4_sum f' mod 65535 = ip4_sum f mod 65535"
proof -
  have "beU16 EDGE_ETH_P_IP \<noteq> beU16 EDGE_ETH_P_IPV6" by (simp add: EDGE_ETH_P_IP_def EDGE_ETH_P_IPV6_def)
  then have v4: "edge_return_v4 env f st = (Verdict a, f', st')"
    using assms by (auto simp: edge_return_def sends_def dest: pass_unclaimed_verdict split: if_splits)
  obtain eth where eth: "length eth = 14" "34 \<le> length f" "5 \<le> unat (f ! 14 AND 0x0f)" "14 + 4 * unat (f ! 14 AND 0x0f) \<le> length f"
    "1 < f ! 22" "f' = decrement_ttl (stn f 0 eth)"
    using edge_return_v4_sent [OF assms(1) v4 assms(4)] by blast
  let ?g = "stn f 0 eth"
  have g: "length ?g = length f" "14 \<le> k \<Longrightarrow> k < length f \<Longrightarrow> ?g ! k = f ! k" for k using eth by (simp_all add: nth_stn)
  have sum: "ip4_sum ?g = ip4_sum f"
    unfolding ip4_sum_def be16_at_def using eth g by (intro sum.cong) auto
  show ?thesis
    using decrement_ttl_fields [of ?g] decrement_ttl_sum [of ?g] eth g sum by auto
qed

text \<open>A kernel that routes everything to interface 3, a dispatcher with no rows, and a reply from the
  registered service's address.\<close>

definition env0 :: xdp_env where
  "env0 = \<lparr>ingress_ifindex = 2,
     fib_lookup = (\<lambda>p. \<lparr>fr_rc = FIB_SUCCESS, fr_mtu = 0, fr_dmac = [1, 1, 1, 1, 1, 1], fr_smac = [2, 2, 2, 2, 2, 2], fr_ifindex = 3\<rparr>),
     redirect = (\<lambda>_. XDP_REDIRECT), headroom = Some (replicate 40 0), adjust_tail = (\<lambda>_. True), ktime = (\<lambda>_. 5),
     csum_diff = (\<lambda>_ _. 0), stats_room = True, dispatch = \<lparr>iface_roles = [], slot_lease = [], dispatch_progs = []\<rparr>\<rparr>"

definition reply0 :: bytes where
  "reply0 = [9, 9, 9, 9, 9, 9, 8, 8, 8, 8, 8, 8, 0x08, 0x00] @
     [0x45, 0, 0, 28, 0, 0, 0, 0, 64, 17, 0xf9, 0xc9, 192, 0, 2, 1, 203, 0, 113, 5] @ [0, 53, 0x30, 0x39, 0, 8, 0, 0]"

lemma macs_env0: "macs_ok env0"
  by (simp add: macs_ok_def env0_def)

theorem return_keeps_checksum_witness:
  "fst (edge_return env0 reply0 (xstate0\<lparr>x_maps := registered0\<rparr>)) = Verdict XDP_REDIRECT \<and>
   ip4_sum (fst (snd (edge_return env0 reply0 (xstate0\<lparr>x_maps := registered0\<rparr>)))) mod 65535 = ip4_sum reply0 mod 65535"
proof -
  let ?r = "edge_return env0 reply0 (xstate0\<lparr>x_maps := registered0\<rparr>)"
  have v: "fst ?r = Verdict XDP_REDIRECT" "ld16 reply0 12 = beU16 EDGE_ETH_P_IP" by code_simp+
  then have "?r = (Verdict XDP_REDIRECT, fst (snd ?r), snd (snd ?r))" by (metis prod.collapse)
  from return_keeps_checksum [OF macs_env0 v(2) this] v(1) show ?thesis by (simp add: sends_def)
qed

section \<open>What the load balancer sends\<close>

lemma update_stats_frame [simp]:
  "encap_config (update_stats ref g st) = encap_config st"
  "icmp_rate_bucket (update_stats ref g st) = icmp_rate_bucket st"
  by (simp_all add: update_stats_def split: stats_ref.splits)

lemma stats_row_frame: "stats_row env ref st = (ref', st') \<Longrightarrow> encap_config st' = encap_config st"
  by (auto simp: stats_row_def Let_def split: if_splits)

lemma count_match_frame [simp]: "encap_config (count_match env ref len st) = encap_config st"
  by (simp add: count_match_def)

lemma length_ip6_header [simp]: "length src = 16 \<Longrightarrow> length dst = 16 \<Longrightarrow> length (ip6_header plen nexthdr src dst) = 40"
  by (simp add: ip6_header_def)

text \<open>Pushing the outer header puts an Ethernet and an IPv6 header in front of the packet and leaves the
  packet alone.\<close>

lemma push_frame:
  assumes "length room = 40" "14 \<le> length f" "length hdr = 40" "length eth = 14"
  shows "stn (stn (room @ f) 14 hdr) 0 eth = eth @ hdr @ drop 14 f"
  using assms by (simp add: stn_def)

definition outer_route :: "xdp_env \<Rightarrow> bytes \<Rightarrow> bytes \<Rightarrow> u16 \<Rightarrow> fib_result" where
  "outer_route env src dst len =
     fib_lookup env \<lparr>fp_v6 = True, fp_src = src, fp_dst = dst, fp_ifindex = ingress_ifindex env, fp_tot_len = 40 + len\<rparr>"

definition eth6 :: "fib_result \<Rightarrow> bytes" where
  "eth6 r = fr_dmac r @ fr_smac r @ bytes16 (beU16 EDGE_ETH_P_IPV6)"

lemma push_outer_header_ok:
  assumes "macs_ok env" "headroom env = Some room" "length room = 40" "14 \<le> length f" "length src = 16" "length dst = 16"
    and "fr_rc (outer_route env src dst len) = FIB_SUCCESS"
  shows "push_outer_header env src dst (beU16 len) nexthdr ref f st =
    (PUSH_OK, fr_ifindex (outer_route env src dst len), 0,
     eth6 (outer_route env src dst len) @ ip6_header (beU16 len) nexthdr src dst @ drop 14 f, st)"
proof -
  let ?r = "outer_route env src dst len"
  have eth: "length (eth6 ?r) = 14" using assms(1) by (simp add: eth6_def outer_route_def macs_ok_def)
  have fib: "resolve_fib_and_write_eth env src dst (40 + len) e = (FIB_SUCCESS, eth6 ?r, fr_ifindex ?r, 0)" for e
    using assms(7) by (simp add: resolve_fib_and_write_eth_def outer_route_def eth6_def Let_def)
  show ?thesis
    using assms(2-6) eth fib by (simp add: push_outer_header_def ETH_LEN_def EDGE_IP6HDR_LEN_def push_frame)
qed

lemma leave_via_ok:
  assumes "egress \<noteq> 0" "redirect env egress = XDP_REDIRECT"
  shows "leave_via env egress ref st = (if egress = ingress_ifindex env then XDP_TX else XDP_REDIRECT, st)"
  using assms by (simp add: leave_via_def)

text \<open>The slot of a flow and the backend the table gives it.\<close>

definition flow_slot :: "u8 \<Rightarrow> bytes \<Rightarrow> u8 \<Rightarrow> u16 \<Rightarrow> nat" where
  "flow_slot affinity client proto sport = unat (FlowHash client affinity proto sport) mod EDGE_MAGLEV_TABLE_SIZE"

lemma mask_backend_index: "unat (i :: u8) < 64 \<Longrightarrow> i AND of_nat (EDGE_MAX_BACKENDS - 1) = i"
proof -
  assume "unat i < 64"
  then have "i < 2 ^ 6" by (simp add: word_less_nat_alt)
  then have "take_bit 6 i = i" by (simp add: less_exp_iff_take_bit [symmetric])
  moreover have "(of_nat (EDGE_MAX_BACKENDS - 1) :: u8) = mask 6" by (simp add: EDGE_MAX_BACKENDS_def mask_eq_exp_minus_1)
  ultimately show ?thesis by (simp add: take_bit_eq_mask)
qed

lemma lb_forward_ok:
  assumes "macs_ok env" "headroom env = Some room" "length room = 40" "14 \<le> length f"
    and "encap_config st = Some src" "length src = 16"
    and "v_backend_count rule \<noteq> 0" "idx = unat (v_maglev_table rule ! flow_slot (v_affinity rule) client proto sport)" "idx < 64"
    and "dst = w_usid (v_backends rule ! idx)" "length dst = 16"
    and "r = outer_route env src dst len" "fr_rc r = FIB_SUCCESS" "fr_ifindex r \<noteq> 0" "redirect env (fr_ifindex r) = XDP_REDIRECT"
  shows "lb_forward env rule ref client proto (beU16 sport) (beU16 len) nexthdr f st =
    (Some (if fr_ifindex r = ingress_ifindex env then XDP_TX else XDP_REDIRECT), 0,
     eth6 r @ ip6_header (beU16 len) nexthdr src dst @ drop 14 f, st)"
proof -
  have "unat (flow_hash client (v_affinity rule) proto (beU16 sport)) mod EDGE_MAGLEV_TABLE_SIZE =
      flow_slot (v_affinity rule) client proto sport" by (simp add: flow_slot_def flow_hash_eq)
  moreover have "flow_slot (v_affinity rule) client proto sport < EDGE_MAGLEV_TABLE_SIZE"
    by (simp add: flow_slot_def EDGE_MAGLEV_TABLE_SIZE_def)
  moreover have "v_maglev_table rule ! flow_slot (v_affinity rule) client proto sport AND of_nat (EDGE_MAX_BACKENDS - 1) =
      v_maglev_table rule ! flow_slot (v_affinity rule) client proto sport"
    using assms(8,9) by (intro mask_backend_index) simp
  ultimately show ?thesis
    using assms push_outer_header_ok [OF assms(1-4,6,11), of len] leave_via_ok by (simp add: lb_forward_def Let_def)
qed

text \<open>A well-formed request to a service: protocol, service address in its map form, port, client address
  and port, the packet to carry and its length, and the protocol number of the packet inside the outer
  header. An IPv6 packet is carried with whatever the frame holds, an IPv4 packet without the padding
  after its total length.\<close>

record request =
  q_proto :: u8
  q_vip :: bytes
  q_dport :: u16
  q_client :: bytes
  q_sport :: u16
  q_inner :: bytes
  q_len :: u16
  q_next :: u8

definition request6 :: "bytes \<Rightarrow> request option" where
  "request6 f =
     (if 58 \<le> length f \<and> (f ! 20 = 6 \<or> f ! 20 = 17) \<and> \<not> is_v4_mapped (ldn f 38 16)
      then Some \<lparr>q_proto = f ! 20, q_vip = ldn f 38 16, q_dport = beU16 (ld16 f 56), q_client = ldn f 22 16,
        q_sport = beU16 (ld16 f 54), q_inner = drop 14 f, q_len = 40 + beU16 (ld16 f 18), q_next = 41\<rparr>
      else None)"

definition request4 :: "bytes \<Rightarrow> request option" where
  "request4 f =
     (let hlen = 4 * unat (f ! 14 AND 0x0f); tot_len = beU16 (ld16 f 16)
      in if 34 \<le> length f \<and> drop_bit 4 (f ! 14) = 4 \<and> 20 \<le> hlen \<and> unat tot_len \<le> length f - 14 \<and>
            (f ! 23 = 6 \<and> hlen + 20 \<le> unat tot_len \<or> f ! 23 = 17 \<and> hlen + 8 \<le> unat tot_len) \<and> beU16 (ld16 f 20) AND 0x3fff = 0
         then Some \<lparr>q_proto = f ! 23, q_vip = map_v4 (ldn f 30 4), q_dport = beU16 (ld16 f (14 + hlen + 2)),
           q_client = map_v4 (ldn f 26 4), q_sport = beU16 (ld16 f (14 + hlen)), q_inner = take (unat tot_len) (drop 14 f),
           q_len = tot_len, q_next = 4\<rparr>
         else None)"

definition request_of :: "bytes \<Rightarrow> request option" where
  "request_of f =
     (if ld16 f 12 = beU16 EDGE_ETH_P_IPV6 then request6 f
      else if ld16 f 12 = beU16 EDGE_ETH_P_IP then request4 f else None)"

text \<open>The rule a request reaches decides everything else: \<open>edge_lb\<close> counts it and forwards it.\<close>

lemma edge_lb_request:
  assumes "request_of f = Some q" "vip_owned env (x_maps st) (q_vip q) \<noteq> OwnedBlocked"
    and "lookup_vip_rule (x_maps st) \<lparr>k_proto = q_proto q, k_port = beU16 (q_dport q), k_vip = q_vip q\<rparr> = (Some rule, vk)"
    and "k_proto vk = q_proto q" "\<forall>d. adjust_tail env d"
  shows "\<exists>ref st1 g. encap_config st1 = encap_config st \<and> 14 \<le> length g \<and> drop 14 g = q_inner q \<and>
    (\<forall>a mtu f' st'. lb_forward env rule ref (q_client q) (q_proto q) (beU16 (q_sport q)) (beU16 (q_len q)) (q_next q) g st1 = (Some a, mtu, f', st') \<longrightarrow>
      edge_lb env f st = (Verdict a, f', st'))"
proof -
  obtain ref st0 where row: "stats_row env (VipStats vk) st = (ref, st0)" by fastforce
  let ?st1 = "count_match env ref (length f) st0"
  have cfg: "encap_config ?st1 = encap_config st" using stats_row_frame [OF row] by simp
  consider (v6) "ld16 f 12 = beU16 EDGE_ETH_P_IPV6" "request6 f = Some q"
    | (v4) "ld16 f 12 = beU16 EDGE_ETH_P_IP" "ld16 f 12 \<noteq> beU16 EDGE_ETH_P_IPV6" "request4 f = Some q"
    using assms(1) by (auto simp: request_of_def split: if_splits)
  then show ?thesis
  proof cases
    case v6
    then have q: "58 \<le> length f" "f ! 20 = 6 \<or> f ! 20 = 17" "\<not> is_v4_mapped (ldn f 38 16)"
      "q = \<lparr>q_proto = f ! 20, q_vip = ldn f 38 16, q_dport = beU16 (ld16 f 56), q_client = ldn f 22 16,
        q_sport = beU16 (ld16 f 54), q_inner = drop 14 f, q_len = 40 + beU16 (ld16 f 18), q_next = 41\<rparr>"
      by (auto simp: request6_def split: if_splits)
    have "edge_lb env f st = (Verdict a, f', st')"
      if "lb_forward env rule ref (q_client q) (q_proto q) (beU16 (q_sport q)) (beU16 (q_len q)) (q_next q) f ?st1 = (Some a, mtu, f', st')" for a mtu f' st'
      using that assms q v6(1) row
      by (auto simp: edge_lb_def edge_lb_v6_def ETH_LEN_def EDGE_IP6HDR_LEN_def beU16_beU16 Let_def)
    then show ?thesis using cfg q by (intro exI [of _ ref] exI [of _ ?st1] exI [of _ f]) auto
  next
    case v4
    let ?hlen = "4 * unat (f ! 14 AND 0x0f)" and ?tot = "beU16 (ld16 f 16)"
    have q: "34 \<le> length f" "drop_bit 4 (f ! 14) = 4" "20 \<le> ?hlen" "unat ?tot \<le> length f - 14"
      "f ! 23 = 6 \<and> ?hlen + 20 \<le> unat ?tot \<or> f ! 23 = 17 \<and> ?hlen + 8 \<le> unat ?tot" "beU16 (ld16 f 20) AND 0x3fff = 0"
      "q = \<lparr>q_proto = f ! 23, q_vip = map_v4 (ldn f 30 4), q_dport = beU16 (ld16 f (14 + ?hlen + 2)),
           q_client = map_v4 (ldn f 26 4), q_sport = beU16 (ld16 f (14 + ?hlen)), q_inner = take (unat ?tot) (drop 14 f),
           q_len = ?tot, q_next = 4\<rparr>"
      using v4(3) by (auto simp: request4_def Let_def split: if_splits)
    have proto: "f ! 23 = 6 \<or> f ! 23 = 17" "?hlen + (if f ! 23 = 6 then 20 else 8) \<le> unat ?tot" "?hlen \<le> unat ?tot"
      using q(5) by auto
    have "edge_lb env f st = (Verdict a, f', st')"
      if "lb_forward env rule ref (q_client q) (q_proto q) (beU16 (q_sport q)) (beU16 (q_len q)) (q_next q) (take (14 + unat ?tot) f) ?st1 = (Some a, mtu, f', st')" for a mtu f' st'
      using that assms(3-5) q(1-4,6,7) proto v4(1,2) row
      by (auto simp: edge_lb_def edge_lb_v4_def ETH_LEN_def EDGE_IP4HDR_LEN_def beU16_beU16 Let_def)
    moreover have "drop 14 (take (14 + unat ?tot) f) = q_inner q" using q by (simp add: drop_take)
    ultimately show ?thesis using cfg q
      by (intro exI [of _ ref] exI [of _ ?st1] exI [of _ "take (14 + unat ?tot) f"]) auto
  qed
qed

lemma wireBackends_nth:
  "wireBackends bs = Inr out \<Longrightarrow> i < length bs \<Longrightarrow> w_usid (out ! i) = As16 (eb_USID (bs ! i))"
proof (induction bs arbitrary: out i)
  case (Cons b bs)
  then show ?case by (cases i) (auto split: sum.splits if_splits)
qed simp

lemma wireBackends_length: "wireBackends bs = Inr out \<Longrightarrow> length out = length bs"
  by (induction bs arbitrary: out) (auto split: sum.splits if_splits)

lemma toWireBackends_usid:
  assumes "toWireBackends bs = Inr wb" "i < length bs"
  shows "w_usid (wb ! i) = As16 (eb_USID (bs ! i))"
  using assms wireBackends_nth wireBackends_length by (auto simp: toWireBackends_def nth_append split: sum.splits)

text \<open>A row of \<open>vip_table\<close> is enough: whoever wrote it, a request to its key is forwarded by it.\<close>

lemma row_served:
  assumes "map_of (vip_table (x_maps st)) \<lparr>k_proto = q_proto q, k_port = beU16 (q_dport q), k_vip = q_vip q\<rparr>
      = Some (row_value affinity backends wb maglevTable g)" "toWireBackends backends = Inr wb" "backends \<noteq> []" "length backends \<le> MaxBackends"
    and "length maglevTable = MaglevTableSize" "list_all (\<lambda>i. unat i < length backends) maglevTable"
    and "request_of f = Some q"
    and "vip_owned env (x_maps st) (q_vip q) \<noteq> OwnedBlocked"
    and "map_of (vip_range_table (x_maps st)) \<lparr>k_proto = q_proto q, k_port = 0, k_vip = q_vip q\<rparr> = None"
    and "encap_config st = Some src" "length src = 16"
    and "macs_ok env" "headroom env = Some room" "length room = 40" "\<forall>d. adjust_tail env d"
    and "b = backends ! unat (maglevTable ! flow_slot affinity (q_client q) (q_proto q) (q_sport q))"
    and "r = outer_route env src (As16 (eb_USID b)) (q_len q)"
    and "fr_rc r = FIB_SUCCESS" "fr_ifindex r \<noteq> 0" "redirect env (fr_ifindex r) = XDP_REDIRECT"
  shows "b \<in> set backends \<and>
    (\<exists>st'. edge_lb env f st = (Verdict (if fr_ifindex r = ingress_ifindex env then XDP_TX else XDP_REDIRECT),
       eth6 r @ ip6_header (beU16 (q_len q)) (q_next q) src (As16 (eb_USID b)) @ q_inner q, st'))"
proof -
  let ?slot = "flow_slot affinity (q_client q) (q_proto q) (q_sport q)"
  let ?rule = "row_value affinity backends wb maglevTable g"
  let ?k = "\<lparr>k_proto = q_proto q, k_port = beU16 (q_dport q), k_vip = q_vip q\<rparr>"
  have rule: "lookup_vip_rule (x_maps st) ?k = (Some ?rule, ?k)"
    using assms(1,9) by (simp add: lookup_vip_rule_def Let_def)
  have slot: "?slot < length maglevTable" using assms(5) by (simp add: flow_slot_def EDGE_MAGLEV_TABLE_SIZE_def MaglevTableSize_def)
  then have idx: "unat (maglevTable ! ?slot) < length backends" using assms(6) by (simp add: list_all_length)
  then have b: "b \<in> set backends" "unat (maglevTable ! ?slot) < 64" using assms(16) assms(4) by (auto simp: MaxBackends_def)
  have usid: "As16 (eb_USID b) = w_usid (v_backends ?rule ! unat (maglevTable ! ?slot))"
    using toWireBackends_usid [OF assms(2) idx] assms(16) by (simp add: row_value_def)
  then have len16: "length (w_usid (v_backends ?rule ! unat (maglevTable ! ?slot))) = 16" by (metis length_As16)
  have count: "v_backend_count ?rule \<noteq> 0"
    using assms(3,4) by (simp add: row_value_def MaxBackends_def word_unat_eq_iff unat_of_nat unsigned_of_nat take_bit_eq_mod)
  obtain ref st1 h where fwd: "encap_config st1 = encap_config st" "14 \<le> length h" "drop 14 h = q_inner q"
    "\<And>a mtu f' st'. lb_forward env ?rule ref (q_client q) (q_proto q) (beU16 (q_sport q)) (beU16 (q_len q)) (q_next q) h st1 = (Some a, mtu, f', st') \<Longrightarrow>
      edge_lb env f st = (Verdict a, f', st')"
    using edge_lb_request [OF assms(7,8) rule _ assms(15)] by auto
  have "lb_forward env ?rule ref (q_client q) (q_proto q) (beU16 (q_sport q)) (beU16 (q_len q)) (q_next q) h st1 =
    (Some (if fr_ifindex r = ingress_ifindex env then XDP_TX else XDP_REDIRECT), 0,
     eth6 r @ ip6_header (beU16 (q_len q)) (q_next q) src (As16 (eb_USID b)) @ drop 14 h, st1)"
    using assms fwd(1) b count usid len16
    by (intro lb_forward_ok [OF assms(12-14) fwd(2)]) (simp_all add: row_value_def)
  from fwd(4) [OF this] show ?thesis unfolding fwd(3) using b(1) by blast
qed

text \<open>A registered service is served: after \<open>Register\<close> of a row with a Maglev table over its backends,
  every well-formed request to that address, port and protocol, of either family, leaves the gateway over
  the route to the backend that the flow's slot names. What goes on the wire is an Ethernet header, an
  IPv6 header from this node to that backend's uSID whose payload length is the request's, and then the
  client's packet with no byte changed. The slot is a function of the flow alone, so every gateway with
  the same row picks the same backend.\<close>

lemma registered_service_served:
  assumes "Register kn t key affinity backends maglevTable w = (Inr (), x_maps st)" "\<not> vt_range t"
    and "length maglevTable = MaglevTableSize" "list_all (\<lambda>i. unat i < length backends) maglevTable"
    and "request_of f = Some q" "q_proto q = vk_Proto key" "q_dport q = vk_VPort key" "q_vip q = As16 (vk_VIP key)"
    and "vip_owned env (x_maps st) (q_vip q) \<noteq> OwnedBlocked"
    and "map_of (vip_range_table (x_maps st)) \<lparr>k_proto = q_proto q, k_port = 0, k_vip = q_vip q\<rparr> = None"
    and "encap_config st = Some src" "length src = 16"
    and "macs_ok env" "headroom env = Some room" "length room = 40" "\<forall>d. adjust_tail env d"
    and "b = backends ! unat (maglevTable ! flow_slot affinity (q_client q) (q_proto q) (q_sport q))"
    and "r = outer_route env src (As16 (eb_USID b)) (q_len q)"
    and "fr_rc r = FIB_SUCCESS" "fr_ifindex r \<noteq> 0" "redirect env (fr_ifindex r) = XDP_REDIRECT"
  shows "b \<in> set backends \<and>
    (\<exists>st'. edge_lb env f st = (Verdict (if fr_ifindex r = ingress_ifindex env then XDP_TX else XDP_REDIRECT),
       eth6 r @ ip6_header (beU16 (q_len q)) (q_next q) src (As16 (eb_USID b)) @ q_inner q, st'))"
proof -
  obtain wk wb where reg: "toWireKey key = Inr wk" "toWireBackends backends = Inr wb" "backends \<noteq> []" "length backends \<le> MaxBackends"
    "x_maps st = tick (set_rows t (AList.update wk (row_value affinity backends wb maglevTable (now kn (m_ops w)))) (tick (tick w)))
             \<lparr>vip_addr_table := AList.update (k_vip wk) (now kn (m_ops w)) (vip_addr_table w)\<rparr>"
    using assms(1) unfolding Register_Inr by blast
  let ?k = "\<lparr>k_proto = q_proto q, k_port = beU16 (q_dport q), k_vip = q_vip q\<rparr>"
  have "wk = ?k" using reg(1) toWireAddr_As16 assms(6-8) by (auto simp: toWireKey_Inr)
  then have row: "map_of (vip_table (x_maps st)) ?k = Some (row_value affinity backends wb maglevTable (now kn (m_ops w)))"
    using reg(5) assms(2) by (simp add: set_rows_def update_conv')
  show ?thesis using row_served [OF row reg(2-4) assms(3-5,9-21)] .
qed

text \<open>A request to the registered service from a client at 203.0.113.5.\<close>

definition request0 :: bytes where
  "request0 = [9, 9, 9, 9, 9, 9, 8, 8, 8, 8, 8, 8, 0x08, 0x00] @
     [0x45, 0, 0, 40, 0, 0, 0x40, 0, 64, 6, 0, 0, 203, 0, 113, 5, 192, 0, 2, 1] @ [0x30, 0x39, 0x01, 0xBB] @ replicate 16 0 @ replicate 6 0"

section \<open>What the load balancer leaves alone, and what it refuses\<close>

text \<open>The destination address of a frame, in the form the maps use, and the addresses a node serves: those
  with a row, a range or a claim, and those it owns.\<close>

definition frame_dst :: "bytes \<Rightarrow> bytes option" where
  "frame_dst f =
     (if ld16 f 12 = beU16 EDGE_ETH_P_IPV6 then Some (ldn f 38 16)
      else if ld16 f 12 = beU16 EDGE_ETH_P_IP then Some (map_v4 (ldn f 30 4)) else None)"

definition served_addrs :: "maps \<Rightarrow> bytes set" where
  "served_addrs m = k_vip ` fst ` set (vip_table m) \<union> k_vip ` fst ` set (vip_range_table m) \<union>
     fst ` set (vip_addr_table m) \<union> fst ` set (vip_owned_table m)"

lemma map_of_image: "map_of m k = Some v \<Longrightarrow> g k \<in> g ` fst ` set m"
  by (force dest: map_of_SomeD)

lemma lookup_vip_rule_none:
  assumes "k_vip k \<notin> k_vip ` fst ` set (vip_table m)" "k_vip k \<notin> k_vip ` fst ` set (vip_range_table m)"
  shows "lookup_vip_rule m k = (None, k)"
proof -
  have "map_of (vip_table m) k = None" using assms(1) map_of_image [of "vip_table m" k] by (cases "map_of (vip_table m) k") auto
  moreover have "map_of (vip_range_table m) (k\<lparr>k_port := 0\<rparr>) = None"
    using assms(2) map_of_image [of "vip_range_table m" "k\<lparr>k_port := 0\<rparr>" _ k_vip] by (cases "map_of (vip_range_table m) (k\<lparr>k_port := 0\<rparr>)") auto
  ultimately show ?thesis by (simp add: lookup_vip_rule_def Let_def)
qed

lemma not_served:
  assumes "a \<notin> served_addrs m"
  shows "lookup_vip_rule m \<lparr>k_proto = p, k_port = q, k_vip = a\<rparr> = (None, \<lparr>k_proto = p, k_port = q, k_vip = a\<rparr>)"
    "map_of (vip_addr_table m) a = None" "vip_owned env m a = NotOwned"
proof -
  show "lookup_vip_rule m \<lparr>k_proto = p, k_port = q, k_vip = a\<rparr> = (None, \<lparr>k_proto = p, k_port = q, k_vip = a\<rparr>)"
    using assms by (intro lookup_vip_rule_none) (auto simp: served_addrs_def)
  show "map_of (vip_addr_table m) a = None"
    using assms map_of_image [of "vip_addr_table m" a _ "\<lambda>x. x"] by (cases "map_of (vip_addr_table m) a") (auto simp: served_addrs_def)
  have "map_of (vip_owned_table m) a = None"
    using assms map_of_image [of "vip_owned_table m" a _ "\<lambda>x. x"] by (cases "map_of (vip_owned_table m) a") (auto simp: served_addrs_def)
  then show "vip_owned env m a = NotOwned" by (simp add: vip_owned_def)
qed

text \<open>C15. Other traffic is left alone: a frame whose destination has no row, no range, no claim and no guard
  on this node, or that is neither IPv4 nor IPv6, or is too short or malformed in any way, is handed to
  the later slots with not one byte changed, and no counter or other state of the node changes.\<close>

theorem unserved_untouched:
  assumes "\<forall>a. frame_dst f = Some a \<longrightarrow> a \<notin> served_addrs (x_maps st)"
  shows "edge_lb env f st = (pass_unclaimed_lb env, f, st)"
proof -
  have v6: "edge_lb_v6 env f st = (pass_unclaimed_lb env, f, st)" if "ldn f 38 16 \<notin> served_addrs (x_maps st)"
    using not_served [OF that] by (simp add: edge_lb_v6_def Let_def)
  have v4: "edge_lb_v4 env f st = (pass_unclaimed_lb env, f, st)" if "map_v4 (ldn f 30 4) \<notin> served_addrs (x_maps st)"
    using not_served [OF that] by (simp add: edge_lb_v4_def Let_def)
  show ?thesis using assms v6 v4 by (simp add: edge_lb_def frame_dst_def)
qed

theorem unserved_untouched_witness:
  "edge_lb env0 reply0 (xstate0\<lparr>x_maps := registered0\<rparr>) = (Verdict XDP_PASS, reply0, xstate0\<lparr>x_maps := registered0\<rparr>)"
proof -
  have d: "frame_dst reply0 = Some (map_v4 [203, 0, 113, 5])" "map_v4 [203, 0, 113, 5] \<notin> served_addrs (x_maps (xstate0\<lparr>x_maps := registered0\<rparr>))"
    by code_simp+
  have "pass_unclaimed_lb env0 = Verdict XDP_PASS" by code_simp
  then show ?thesis using unserved_untouched [of reply0 "xstate0\<lparr>x_maps := registered0\<rparr>" env0] d by simp
qed

lemma renewed_guard:
  assumes "RenewVIPs kn addrs w = (Inr (), m)" "a \<in> set addrs"
  shows "\<exists>n. m_ops w \<le> n \<and> n < m_ops m \<and>
    vip_owned env m (As16 a) = (if now kn n + OwnedVIPLease \<le> ktime env 3 then OwnedBlocked else OwnedServing)"
proof -
  have "As16 a \<in> As16 ` set addrs" using assms(2) by simp
  then show ?thesis using renew_owned(1) [OF assms(1)] by (force simp: vip_owned_def)
qed


text \<open>An owned IPv6 address and a UDP packet to it.\<close>

definition owned0 :: addr where "owned0 = Addr6 42540766411282592856903984951653826561 []"

definition udp0 :: bytes where
  "udp0 = [9, 9, 9, 9, 9, 9, 8, 8, 8, 8, 8, 8, 0x86, 0xDD] @ [0x60, 0, 0, 0, 0, 8, 17, 64] @ replicate 15 0 @ [5] @ As16 owned0 @
     [0x30, 0x39, 0, 53, 0, 8, 0, 0]"


end
