(* ===== verification/Netip_String.thy ===== *)
theory Netip_String
  imports Netip
begin

unbundle bit_operations_syntax

text \<open>
  \<open>netip.Addr.String\<close>: dotted decimal for IPv4, and for IPv6 the hexadecimal groups with the first
  longest run of at least two zero groups written as a double colon, an IPv4-mapped address with its
  last part in dotted decimal, and the zone after a percent sign.
\<close>

definition digit :: "nat \<Rightarrow> char" where
  "digit n = (if n < 10 then char_of (48 + n) else char_of (87 + n))"

function print_base :: "nat \<Rightarrow> nat \<Rightarrow> string" where
  "print_base b n = (if b < 2 \<or> n < b then [digit n] else print_base b (n div b) @ [digit (n mod b)])"
  by auto
termination by (relation "measure snd") (auto simp: not_less div_less_dividend)

definition decimal :: "nat \<Rightarrow> string" where
  "decimal n = print_base 10 n"

definition hex :: "nat \<Rightarrow> string" where
  "hex n = print_base 16 n"

fun join :: "string \<Rightarrow> string list \<Rightarrow> string" where
  "join sep [] = []"
| "join sep [s] = s"
| "join sep (s # ss) = s @ sep @ join sep ss"

definition string4 :: "u32 \<Rightarrow> string" where
  "string4 w = join ''.'' (map (\<lambda>b. decimal (unat b)) (be_bytes 4 w))"

definition groups6 :: "u128 \<Rightarrow> u16 list" where
  "groups6 w = map (\<lambda>i. ucast (drop_bit (112 - 16 * i) w)) [0..<8]"

text \<open>The first longest run of zero groups, of length at least two: its start and its end.\<close>

definition zero_run :: "u16 list \<Rightarrow> (nat \<times> nat) option" where
  "zero_run gs = fold (\<lambda>i best.
     let l = length (takeWhile (\<lambda>g. g = 0) (drop i gs))
     in if l \<ge> 2 \<and> (case best of None \<Rightarrow> True | Some (s, e) \<Rightarrow> l > e - s) then Some (i, i + l) else best) [0..<8] None"

definition string6 :: "u128 \<Rightarrow> string" where
  "string6 w =
     (let gs = groups6 w; show_groups = (\<lambda>xs. join '':'' (map (\<lambda>g. hex (unat g)) xs))
      in case zero_run gs of None \<Rightarrow> show_groups gs
         | Some (s, e) \<Rightarrow> show_groups (take s gs) @ ''::'' @ show_groups (drop e gs))"

definition addr_String :: "addr \<Rightarrow> string" where
  "addr_String a =
     (case a of AddrZero \<Rightarrow> ''invalid IP''
      | Addr4 w \<Rightarrow> string4 w
      | Addr6 w z \<Rightarrow> (if Is4In6 a then ''::ffff:'' @ string4 (ucast w) else string6 w) @ (if z = [] then [] else ''%'' @ z))"

lemma string_examples:
  "addr_String (Addr4 3221225985) = ''192.0.2.1''"
  "addr_String (Addr6 0 []) = ''::''"
  "addr_String (Addr6 42540766411282592856903984951653826561 []) = ''2001:db8::1''"
  "addr_String (Addr6 281473902969345 ''e0'') = ''::ffff:192.0.2.1%e0''"
  by code_simp+

end
