(* ===== verification/KernelDatapath.thy ===== *)
theory KernelDatapath
  imports EdgeForward GatewayQuota Maglev Netip_String
begin

unbundle bit_operations_syntax

text \<open>
  \<open>internal/gateway/kerneldatapath.go\<close> (and \<open>returnpath.go\<close>): the datapath of the gateway engine over
  the BPF map tables of \<open>EdgeMap\<close>. The state is what a \<open>KernelDatapath\<close> keeps in memory together with the
  maps; it is the one \<open>NewKernelDatapath\<close> builds, so the range and ownership tables are present. An
  operation keeps what it has done when it fails, as the code does. The mutexes are left out: the rule
  and guard methods each hold \<open>mu\<close> throughout, \<open>ReconcileOrphans\<close> and \<open>Generation\<close> take no lock, and the
  development considers calls one after another.
\<close>

section \<open>Rules as table rows\<close>

definition protocolTCP :: string where "protocolTCP = ''tcp''"
definition affinityNone :: string where "affinityNone = ''None''"
definition affinityClientIP :: string where "affinityClientIP = ''ClientIP''"
definition affinityClientIPAndProtocol :: string where "affinityClientIPAndProtocol = ''ClientIPAndProtocol''"

datatype dp_error = ErrProtocol string | ErrAffinityName string | ErrMaxBackends nat | ErrMaglev maglev_error
  | MaglevLoops | NilBackend | ErrUDPRange | ErrRangeRow | ErrActivate "edge_error list" | ErrEncapSource addr
  | ErrEdge edge_error | ErrReconcile "edge_error list"

definition protoNumber :: "string \<Rightarrow> dp_error + u8" where
  "protoNumber protocol =
     (if protocol = protocolTCP then Inr 6 else if protocol = protocolUDP then Inr 17 else Inl (ErrProtocol protocol))"

definition affinityNumber :: "string \<Rightarrow> dp_error + u8" where
  "affinityNumber affinity =
     (if affinity = [] \<or> affinity = affinityNone then Inr AffinityNone
      else if affinity = affinityClientIP then Inr AffinityClientIP
      else if affinity = affinityClientIPAndProtocol then Inr AffinityClientIPAndProtocol
      else Inl (ErrAffinityName affinity))"

text \<open>\<open>DesiredBackend.Key\<close> and \<open>addressKeyed.Key\<close>.\<close>

definition backend_Key :: "DesiredBackend \<Rightarrow> string" where
  "backend_Key b = addr_String (b_Address b) @ '':'' @ decimal (unat (b_Port b))"

definition addressKeyed_Key :: "DesiredBackend \<Rightarrow> string" where
  "addressKeyed_Key b = addr_String (b_Address b)"

definition vipKeysForRule :: "DesiredRule \<Rightarrow> dp_error + VIPKey list" where
  "vipKeysForRule rule = (case protoNumber (d_Protocol rule) of Inl e \<Rightarrow> Inl e
     | Inr proto \<Rightarrow> Inr (map (\<lambda>vip. \<lparr>vk_Proto = proto, vk_VPort = d_Port rule, vk_VIP = vip\<rparr>) (d_VIPAddresses rule)))"

definition edge_backend :: "DesiredBackend \<Rightarrow> Backend" where
  "edge_backend db = \<lparr>eb_Addr = b_Address db, eb_Port = b_Port db, eb_USID = b_USID db\<rparr>"

text \<open>The slots of the flattened table: each slot's backend translated to its index. \<open>NilBackend\<close> stands
  for the panic on a nil backend and \<open>MaglevLoops\<close> for a table construction that does not return; neither
  happens.\<close>

fun flatten_slots :: "('b \<Rightarrow> string) \<Rightarrow> 'b Table \<Rightarrow> (string \<times> nat) list \<Rightarrow> nat list \<Rightarrow> dp_error + u8 list" where
  "flatten_slots key table indexByKey [] = Inr []"
| "flatten_slots key table indexByKey (slot # slots) =
     (case Maglev.Lookup table (of_nat slot) of None \<Rightarrow> Inl NilBackend
      | Some b \<Rightarrow> (case flatten_slots key table indexByKey slots of Inl e \<Rightarrow> Inl e
          | Inr rest \<Rightarrow> Inr (of_nat (get 0 indexByKey (key b)) # rest)))"

definition index_by_key :: "('b \<Rightarrow> string) \<Rightarrow> 'b list \<Rightarrow> (string \<times> nat) list" where
  "index_by_key key bs = fold (\<lambda>(i, b) m. AList.update (key b) i m) (enumerate 0 bs) []"

definition buildMaglevTable :: "DesiredRule \<Rightarrow> DesiredBackend list \<Rightarrow> dp_error + (Backend list \<times> u8 list)" where
  "buildMaglevTable rule bs =
     (if length bs > MaxBackends then Inl (ErrMaxBackends (length bs))
      else case affinityNumber (d_Affinity rule) of Inl e \<Rightarrow> Inl e
        | Inr affinity \<Rightarrow>
           (let key = (if affinity = AffinityNone then backend_Key else addressKeyed_Key)
            in case New key bs (int MaglevTableSize) of
                 None \<Rightarrow> Inl MaglevLoops
               | Some (Inl e) \<Rightarrow> Inl (ErrMaglev e)
               | Some (Inr table) \<Rightarrow>
                  (case flatten_slots key table (index_by_key key (t_backends table)) [0..<MaglevTableSize] of
                     Inl e \<Rightarrow> Inl e
                   | Inr slots \<Rightarrow> Inr (map edge_backend (t_backends table), slots))))"

section \<open>The datapath\<close>

record KernelDatapath =
  kd_maps :: maps
  kd_encap :: bytes
  kd_rangeRules :: "(string \<times> bool) list"
  kd_vipKeysByName :: "(string \<times> VIPKey list) list"
  kd_vpcByKey :: "(VIPKey \<times> string) list"

type_synonym 'a dp = "KernelDatapath \<Rightarrow> (dp_error + 'a) \<times> KernelDatapath"

definition onMaps :: "(maps, 'a) io \<Rightarrow> 'a dp" where
  "onMaps m d = (case m (kd_maps d) of
     (Inl e, w) \<Rightarrow> (Inl (ErrEdge e), d\<lparr>kd_maps := w\<rparr>) | (Inr x, w) \<Rightarrow> (Inr x, d\<lparr>kd_maps := w\<rparr>))"

definition modify :: "(KernelDatapath \<Rightarrow> KernelDatapath) \<Rightarrow> unit dp" where
  "modify f d = (Inr (), f d)"

definition vipTable :: VIPTable where "vipTable = \<lparr>vt_range = False, vt_peer = True\<rparr>"
definition rangeVIPTable :: VIPTable where "rangeVIPTable = \<lparr>vt_range = True, vt_peer = True\<rparr>"

definition tableFor :: "bool \<Rightarrow> VIPTable" where
  "tableFor ranged = (if ranged then rangeVIPTable else vipTable)"

definition NewKernelDatapath :: "kernel \<Rightarrow> addr \<Rightarrow> maps \<Rightarrow> (dp_error + KernelDatapath) \<times> maps" where
  "NewKernelDatapath kn encapSrc w =
     (if \<not> Is6 encapSrc \<or> Is4In6 encapSrc then (Inl (ErrEncapSource encapSrc), w)
      else case Put kn (\<lambda>w. w) w of
        (Inl e, w') \<Rightarrow> (Inl (ErrEdge e), w')
      | (Inr _, w') \<Rightarrow> (Inr \<lparr>kd_maps = w', kd_encap = As16 encapSrc, kd_rangeRules = [], kd_vipKeysByName = [], kd_vpcByKey = []\<rparr>, w'))"

definition vipKeys :: "KernelDatapath \<Rightarrow> string \<Rightarrow> VIPKey list" where
  "vipKeys d name = get [] (kd_vipKeysByName d) name"

definition setVPCs :: "VIPKey list \<Rightarrow> string \<Rightarrow> KernelDatapath \<Rightarrow> KernelDatapath" where
  "setVPCs keys vpc d = d\<lparr>kd_vpcByKey := fold (\<lambda>k. AList.update k vpc) keys (kd_vpcByKey d)\<rparr>"

definition clearVPC :: "VIPKey \<Rightarrow> KernelDatapath \<Rightarrow> KernelDatapath" where
  "clearVPC key d = d\<lparr>kd_vpcByKey := AList.delete key (kd_vpcByKey d)\<rparr>"

text \<open>\<open>retireCoverage\<close>.\<close>

definition retireCoverage :: "kernel \<Rightarrow> DesiredRule \<Rightarrow> unit dp" where
  "retireCoverage kn rule d =
     (if d_PortEnd rule \<noteq> 0 \<and> (d_Protocol rule \<noteq> protocolUDP \<or> d_PortEnd rule < d_Port rule) then (Inl ErrUDPRange, d)
      else forEach (\<lambda>key. onMaps (RemoveRange kn key)) (vipKeys d (d_Key rule)) d)"

text \<open>The change of a rule between a single port and a range: its rows leave the table they were in.\<close>

definition switchTable :: "kernel \<Rightarrow> DesiredRule \<Rightarrow> unit dp" where
  "switchTable kn rule d =
     (case map_of (kd_rangeRules d) (d_Key rule) of
        None \<Rightarrow> (Inr (), d)
      | Some oldRange \<Rightarrow>
          if oldRange \<noteq> (d_PortEnd rule \<noteq> 0)
          then forEach (\<lambda>key. onMaps (Unregister kn (tableFor oldRange) key)) (vipKeys d (d_Key rule)) d
          else (Inr (), d))"

type_synonym families = "(bool \<times> Backend list \<times> u8 list) list"

fun buildFamilies :: "DesiredRule \<Rightarrow> VIPKey list \<Rightarrow> families \<Rightarrow> dp_error + families" where
  "buildFamilies rule [] fams = Inr fams"
| "buildFamilies rule (key # keys) fams =
     (let v4 = Is4 (vk_VIP key)
      in if map_of fams v4 \<noteq> None then buildFamilies rule keys fams
         else case buildMaglevTable rule (backendsFor rule (vk_VIP key)) of
             Inl e \<Rightarrow> Inl e
           | Inr f \<Rightarrow> buildFamilies rule keys (AList.update v4 f fams))"

text \<open>A failed write: the keys written so far are recorded as the rule's, the others lose their VPC.\<close>

definition recordWritten :: "string \<Rightarrow> VIPKey list \<Rightarrow> VIPKey list \<Rightarrow> KernelDatapath \<Rightarrow> KernelDatapath" where
  "recordWritten name written unwritten d =
     (let d' = fold (\<lambda>k d. if k \<in> set (vipKeys d name) then d
                 else d\<lparr>kd_vipKeysByName := AList.update name (vipKeys d name @ [k]) (kd_vipKeysByName d)\<rparr>) written d
      in fold (\<lambda>k d. if k \<in> set (vipKeys d name) then d else clearVPC k d) unwritten d')"

fun registerAll :: "kernel \<Rightarrow> VIPTable \<Rightarrow> string \<Rightarrow> u8 \<Rightarrow> families \<Rightarrow> VIPKey list \<Rightarrow> VIPKey list \<Rightarrow> unit dp" where
  "registerAll kn t name affinity fams written [] d = (Inr (), d)"
| "registerAll kn t name affinity fams written (key # keys) d =
     (case get ([], []) fams (Is4 (vk_VIP key)) of (backends, table) \<Rightarrow>
        case onMaps (Register kn t key affinity backends table) d of
          (Inr _, d') \<Rightarrow> registerAll kn t name affinity fams (written @ [key]) keys d'
        | (Inl e, d') \<Rightarrow> (Inl e, recordWritten name (written @ [key]) keys d'))"

definition pruneKeys :: "kernel \<Rightarrow> VIPTable \<Rightarrow> string \<Rightarrow> VIPKey list \<Rightarrow> unit dp" where
  "pruneKeys kn t name keys d =
     forEach (\<lambda>old. if old \<in> set keys then ret ()
                    else bind (onMaps (Unregister kn t old)) (\<lambda>_. modify (clearVPC old))) (vipKeys d name) d"

text \<open>The cleanup of a failed activation runs through all keys and collects what fails.\<close>

fun dropCoverage :: "kernel \<Rightarrow> VIPTable \<Rightarrow> VIPKey list \<Rightarrow> maps \<Rightarrow> edge_error list \<times> maps" where
  "dropCoverage kn t [] w = ([], w)"
| "dropCoverage kn t (k # ks) w =
     (case RemoveRange kn k w of (r1, w1) \<Rightarrow>
      case Unregister kn t k w1 of (r2, w2) \<Rightarrow>
      case dropCoverage kn t ks w2 of (errs, w3) \<Rightarrow>
        ((case r1 of Inl e \<Rightarrow> [e] | Inr _ \<Rightarrow> []) @ (case r2 of Inl e \<Rightarrow> [e] | Inr _ \<Rightarrow> []) @ errs, w3))"

definition activateKey :: "kernel \<Rightarrow> DesiredRule \<Rightarrow> VIPKey list \<Rightarrow> VIPTable \<Rightarrow> VIPKey \<Rightarrow> unit dp" where
  "activateKey kn rule keys t key d =
     (case Get kn t key (kd_maps d) of
        (Inl _, w) \<Rightarrow> (Inl ErrRangeRow, d\<lparr>kd_maps := w\<rparr>)
      | (Inr None, w) \<Rightarrow> (Inl ErrRangeRow, d\<lparr>kd_maps := w\<rparr>)
      | (Inr (Some entry), w) \<Rightarrow>
         (case RegisterRange kn key (d_PortEnd rule) (ve_Generation entry) w of
            (Inr _, w') \<Rightarrow> (Inr (), d\<lparr>kd_maps := w'\<rparr>)
          | (Inl e, w') \<Rightarrow> (case dropCoverage kn t keys w' of (errs, w'') \<Rightarrow> (Inl (ErrActivate (e # errs)), d\<lparr>kd_maps := w''\<rparr>))))"

definition activateRanges :: "kernel \<Rightarrow> DesiredRule \<Rightarrow> VIPKey list \<Rightarrow> VIPTable \<Rightarrow> unit dp" where
  "activateRanges kn rule keys t = (if d_PortEnd rule \<noteq> 0 then forEach (activateKey kn rule keys t) keys else ret ())"

definition ApplyRule :: "kernel \<Rightarrow> DesiredRule \<Rightarrow> unit dp" where
  "ApplyRule kn rule =
     (let name = d_Key rule; ranged = (d_PortEnd rule \<noteq> 0); table = tableFor ranged
      in bind (lift (vipKeysForRule rule)) (\<lambda>keys.
         bind (retireCoverage kn rule) (\<lambda>_.
         bind (lift (affinityNumber (d_Affinity rule))) (\<lambda>affinity.
         bind (switchTable kn rule) (\<lambda>_.
         bind (modify (\<lambda>d. d\<lparr>kd_rangeRules := AList.update name ranged (kd_rangeRules d)\<rparr>)) (\<lambda>_.
         bind (lift (buildFamilies rule keys [])) (\<lambda>fams.
         bind (modify (\<lambda>d. setVPCs (vipKeys d name) (d_VPCRef rule) (setVPCs keys (d_VPCRef rule) d))) (\<lambda>_.
         bind (registerAll kn table name affinity fams [] keys) (\<lambda>_.
         bind (pruneKeys kn table name keys) (\<lambda>_.
         bind (modify (\<lambda>d. d\<lparr>kd_vipKeysByName := AList.update name keys (kd_vipKeysByName d)\<rparr>)) (\<lambda>_.
         activateRanges kn rule keys table)))))))))))"

definition RemoveRule :: "kernel \<Rightarrow> string \<Rightarrow> unit dp" where
  "RemoveRule kn name d =
     (let table = tableFor (get False (kd_rangeRules d) name)
      in bind (forEach (\<lambda>k. bind (onMaps (RemoveRange kn k)) (\<lambda>_.
                 bind (onMaps (Unregister kn table k)) (\<lambda>_. modify (clearVPC k)))) (vipKeys d name))
           (\<lambda>_. modify (\<lambda>d. d\<lparr>kd_vipKeysByName := AList.delete name (kd_vipKeysByName d),
                               kd_rangeRules := AList.delete name (kd_rangeRules d)\<rparr>)) d)"

section \<open>Attribution, recovery and guards\<close>

text \<open>\<open>VPCAttribution\<close>: the VPC of each key, and of each address whose keys agree on one.\<close>

definition VPCAttribution :: "KernelDatapath \<Rightarrow> (VIPKey \<times> string) list \<times> (addr \<times> string) list" where
  "VPCAttribution d =
     (let (addrs, shared) = fold (\<lambda>(key, vpc) (addrs, shared).
            (AList.update (vk_VIP key) vpc addrs,
             if map_of addrs (vk_VIP key) \<noteq> None \<and> map_of addrs (vk_VIP key) \<noteq> Some vpc then insert (vk_VIP key) shared else shared))
            (kd_vpcByKey d) ([], {})
      in (kd_vpcByKey d, filter (\<lambda>(a, _). a \<notin> shared) addrs))"

definition Generation :: "kernel \<Rightarrow> u64 dp" where
  "Generation kn = onMaps (clockFn kn)"

definition liveKeys :: "DesiredRule list \<Rightarrow> VIPKey set" where
  "liveKeys live = \<Union> (set (map (\<lambda>rule. case vipKeysForRule rule of Inl _ \<Rightarrow> {}
     | Inr keys \<Rightarrow> if d_PortEnd rule = 0 then set keys else {}) live))"

definition liveRangeEnds :: "DesiredRule list \<Rightarrow> (VIPKey \<times> u16) list" where
  "liveRangeEnds live = fold (\<lambda>rule m.
     if d_PortEnd rule = 0 then m
     else case vipKeysForRule rule of Inl _ \<Rightarrow> m | Inr keys \<Rightarrow> fold (\<lambda>k. AList.update k (d_PortEnd rule)) keys m) live []"

definition reconcileTable :: "kernel \<Rightarrow> VIPTable \<Rightarrow> VIPKey set \<Rightarrow> u64 \<Rightarrow> unit dp" where
  "reconcileTable kn t live cutoff d =
     (case Reconcile kn t live cutoff (kd_maps d) of ((_, errs), w) \<Rightarrow>
        (if errs = [] then Inr () else Inl (ErrReconcile errs), d\<lparr>kd_maps := w\<rparr>))"

definition ReconcileOrphans :: "kernel \<Rightarrow> DesiredRule list \<Rightarrow> u64 \<Rightarrow> unit dp" where
  "ReconcileOrphans kn live cutoff =
     bind (onMaps (ReconcileRanges kn (liveRangeEnds live) cutoff)) (\<lambda>_.
     bind (reconcileTable kn rangeVIPTable (fst ` set (liveRangeEnds live)) cutoff) (\<lambda>_.
     reconcileTable kn vipTable (liveKeys live) cutoff))"

definition SetOwnedVIPs :: "kernel \<Rightarrow> addr list \<Rightarrow> unit dp" where
  "SetOwnedVIPs kn addrs = bind (Generation kn) (\<lambda>generation. onMaps (ReplaceOwnedVIPs kn addrs generation))"

definition kd_SetBlockedVIPs :: "kernel \<Rightarrow> addr list \<Rightarrow> unit dp" where
  "kd_SetBlockedVIPs kn addrs = onMaps (SetBlockedVIPs kn addrs)"

definition kd_RenewVIPs :: "kernel \<Rightarrow> addr list \<Rightarrow> unit dp" where
  "kd_RenewVIPs kn addrs = onMaps (RenewVIPs kn addrs)"

definition kd_OwnedVIPs :: "kernel \<Rightarrow> addr list dp" where
  "kd_OwnedVIPs kn = onMaps (OwnedVIPs kn)"

text \<open>\<open>KernelReturnPath.SyncReturnAddrs\<close>: its table has no peer.\<close>

definition SyncReturnAddrs :: "kernel \<Rightarrow> addr list \<Rightarrow> maps \<Rightarrow> edge_error list \<times> maps" where
  "SyncReturnAddrs kn addrs = ReplaceReturnAddrs kn \<lparr>vt_range = False, vt_peer = False\<rparr> addrs"

section \<open>The flattened Maglev table\<close>

text \<open>The Maglev key a rule's backends have under its affinity.\<close>

definition maglevKey :: "DesiredRule \<Rightarrow> DesiredBackend \<Rightarrow> string" where
  "maglevKey rule = (if affinityNumber (d_Affinity rule) = Inr AffinityNone then backend_Key else addressKeyed_Key)"

lemma index_by_key_untouched:
  "k \<notin> key ` set bs \<Longrightarrow> map_of (fold (\<lambda>(i, b) m. AList.update (key b) i m) (enumerate n bs) m) k = map_of m k"
  by (induction bs arbitrary: n m) (auto simp: update_conv')

lemma index_by_key_offset:
  assumes "distinct (map key bs)" "i < length bs"
  shows "map_of (fold (\<lambda>(i, b) m. AList.update (key b) i m) (enumerate n bs) m) (key (bs ! i)) = Some (n + i)"
  using assms
proof (induction bs arbitrary: n m i)
  case (Cons b bs)
  then show ?case
  proof (cases i)
    case 0
    then show ?thesis using Cons.prems by (simp add: index_by_key_untouched update_conv')
  next
    case (Suc j)
    then show ?thesis using Cons.IH [of j "Suc n"] Cons.prems by simp
  qed
qed simp

lemma index_by_key_nth: "distinct (map key bs) \<Longrightarrow> i < length bs \<Longrightarrow> get 0 (index_by_key key bs) (key (bs ! i)) = i"
  using index_by_key_offset [of key bs i 0 "[]"] by (simp add: index_by_key_def get_def)

lemma flatten_slots_map:
  "\<forall>s\<in>set slots. Maglev.Lookup table (of_nat s) \<noteq> None \<Longrightarrow>
    flatten_slots key table idx slots = Inr (map (\<lambda>s. of_nat (get 0 idx (key (the (Maglev.Lookup table (of_nat s)))))) slots)"
  by (induction slots) auto

lemma Lookup_slot: "s < t_size t \<Longrightarrow> t_size t < 2 ^ 32 \<Longrightarrow> Maglev.Lookup t (of_nat s) = t_entries t ! s"
  by (simp add: Maglev.Lookup_def unat_mod unsigned_of_nat take_bit_eq_mod)

lemma count_list_map_inj:
  "inj_on f (insert x (set xs)) \<Longrightarrow> count_list (map f xs) (f x) = count_list xs x"
  by (induction xs) (auto simp: inj_on_def)

lemma is_prime_1021: "is_prime MaglevTableSize"
proof -
  have "IsPrime 1021" by code_simp
  then show ?thesis by (simp add: IsPrime_is_prime MaglevTableSize_def)
qed

text \<open>The table over at most 64 backends with distinct keys exists, its backends are sorted by key, and slot
  \<open>s\<close> holds the index of the backend that the Maglev table has in its entry \<open>s\<close>.\<close>

lemma New_flattened:
  assumes "bs \<noteq> []" "length bs \<le> MaxBackends" "distinct (map key bs)"
  obtains t slots where "New key bs (int MaglevTableSize) = Some (Inr t)" "t_backends t = sort_key key bs"
    "flatten_slots key t (index_by_key key (t_backends t)) [0..<MaglevTableSize] = Inr slots" "length slots = MaglevTableSize"
    "\<And>s. s < MaglevTableSize \<Longrightarrow> unat (slots ! s) < length bs \<and> t_entries t ! s = Some (sort_key key bs ! unat (slots ! s))"
proof -
  have big: "length bs \<le> MaglevTableSize" "length bs \<le> 64" using assms(2) by (simp_all add: MaxBackends_def MaglevTableSize_def)
  obtain es where "fill key MaglevTableSize (sort_key key bs) = Some es"
    by (rule fill_sorted [OF is_prime_1021 _ assms(3,1)]) (simp add: MaglevTableSize_def)
  then have "\<exists>t. New key bs (int MaglevTableSize) = Some (Inr t) \<and> t_backends t = sort_key key bs \<and> t_size t = MaglevTableSize"
    using assms big(1) is_prime_1021 by (simp add: New_eq)
  then obtain t where t: "New key bs (int MaglevTableSize) = Some (Inr t)" "t_backends t = sort_key key bs" "t_size t = MaglevTableSize" by blast
  have tab: "length (t_entries t) = MaglevTableSize" "set (t_entries t) = Some ` set bs"
    using New_table [OF _ _ t(1)] by (simp_all add: MaglevTableSize_def)
  let ?idx = "index_by_key key (sort_key key bs)"
  let ?slots = "map (\<lambda>s. of_nat (get 0 ?idx (key (the (t_entries t ! s)))) :: u8) [0..<MaglevTableSize]"
  have look: "Maglev.Lookup t (of_nat s) = t_entries t ! s" if "s < MaglevTableSize" for s
    using that t(3) by (intro Lookup_slot) (simp_all add: MaglevTableSize_def)
  have entry: "unat (?slots ! s) < length bs \<and> t_entries t ! s = Some (sort_key key bs ! unat (?slots ! s))" if s: "s < MaglevTableSize" for s
  proof -
    have "t_entries t ! s \<in> Some ` set (sort_key key bs)" using s tab by (metis nth_mem set_sort)
    then obtain b where b: "b \<in> set (sort_key key bs)" "t_entries t ! s = Some b" by blast
    then obtain i where i: "i < length bs" "t_entries t ! s = Some (sort_key key bs ! i)" by (metis in_set_conv_nth length_sort)
    have "distinct (map key (sort_key key bs))" using assms(3) by (simp add: map_sort_key)
    then have "get 0 ?idx (key (sort_key key bs ! i)) = i" using i(1) by (intro index_by_key_nth) simp_all
    then have "?slots ! s = of_nat i" using s i(2) by simp
    moreover have "unat (of_nat i :: u8) = i" using i(1) big(2) by (simp add: unsigned_of_nat take_bit_eq_mod)
    ultimately show ?thesis using i by (simp only:)
  qed
  have filled: "\<exists>b. t_entries t ! s = Some b" if "s < MaglevTableSize" for s
    using that tab by (metis imageE nth_mem)
  have "flatten_slots key t (index_by_key key (t_backends t)) [0..<MaglevTableSize] = Inr ?slots"
    unfolding t(2) by (subst flatten_slots_map) (simp_all add: look filled)
  then show thesis by (rule that [OF t(1,2) _ _ entry]) simp
qed

lemma buildMaglevTable_eq:
  assumes "affinityNumber (d_Affinity rule) = Inr a" "length bs \<le> MaxBackends"
  shows "buildMaglevTable rule bs = (case New (maglevKey rule) bs (int MaglevTableSize) of
      None \<Rightarrow> Inl MaglevLoops | Some (Inl e) \<Rightarrow> Inl (ErrMaglev e)
    | Some (Inr t) \<Rightarrow> (case flatten_slots (maglevKey rule) t (index_by_key (maglevKey rule) (t_backends t)) [0..<MaglevTableSize] of
        Inl e \<Rightarrow> Inl e | Inr slots \<Rightarrow> Inr (map edge_backend (t_backends t), slots)))"
proof -
  have "(if a = AffinityNone then backend_Key else addressKeyed_Key) = maglevKey rule" using assms(1) by (simp add: maglevKey_def)
  then show ?thesis using assms by (simp add: buildMaglevTable_def Let_def)
qed

lemma buildMaglevTable_Inr:
  "buildMaglevTable rule bs = Inr (backends, table) \<longleftrightarrow>
    bs \<noteq> [] \<and> length bs \<le> MaxBackends \<and> distinct (map (maglevKey rule) bs) \<and> (\<exists>a. affinityNumber (d_Affinity rule) = Inr a) \<and>
    (\<exists>t. New (maglevKey rule) bs (int MaglevTableSize) = Some (Inr t) \<and> backends = map edge_backend (t_backends t) \<and>
      flatten_slots (maglevKey rule) t (index_by_key (maglevKey rule) (t_backends t)) [0..<MaglevTableSize] = Inr table)"
proof (cases "length bs \<le> MaxBackends \<and> (\<exists>a. affinityNumber (d_Affinity rule) = Inr a)")
  case True
  have "bs \<noteq> [] \<and> distinct (map (maglevKey rule) bs)" if "New (maglevKey rule) bs (int MaglevTableSize) = Some (Inr t)" for t
    using that by (auto simp: New_eq split: if_splits)
  then show ?thesis using True by (auto simp: buildMaglevTable_eq split: option.splits sum.splits)
qed (auto simp: buildMaglevTable_def split: sum.splits)

lemma affinityNumber_known:
  "(\<exists>a. affinityNumber s = Inr a) \<longleftrightarrow> s \<in> {[], affinityNone, affinityClientIP, affinityClientIPAndProtocol}"
  by (simp add: affinityNumber_def)

lemma buildMaglevTable_refused:
  assumes "buildMaglevTable rule bs = Inl e"
  shows "e \<notin> {MaglevLoops, NilBackend} \<and>
    \<not> ((\<exists>a. affinityNumber (d_Affinity rule) = Inr a) \<and> bs \<noteq> [] \<and> length bs \<le> MaxBackends \<and> distinct (map (maglevKey rule) bs))"
proof (cases "length bs \<le> MaxBackends")
  case False
  then show ?thesis using assms by (auto simp: buildMaglevTable_def)
next
  case len: True
  show ?thesis
  proof (cases "affinityNumber (d_Affinity rule)")
    case (Inl err)
    then have "e = err" using assms len by (simp add: buildMaglevTable_def)
    moreover have "err = ErrAffinityName (d_Affinity rule)" using Inl by (simp add: affinityNumber_def split: if_splits)
    ultimately show ?thesis using Inl by simp
  next
    case a: (Inr a)
    have "\<not> (bs \<noteq> [] \<and> distinct (map (maglevKey rule) bs))"
    proof
      assume ok: "bs \<noteq> [] \<and> distinct (map (maglevKey rule) bs)"
      obtain t slots where "New (maglevKey rule) bs (int MaglevTableSize) = Some (Inr t)"
        "flatten_slots (maglevKey rule) t (index_by_key (maglevKey rule) (t_backends t)) [0..<MaglevTableSize] = Inr slots"
        using New_flattened [OF conjunct1 [OF ok] len conjunct2 [OF ok]] by blast
      then show False using assms by (simp add: buildMaglevTable_eq [OF a len])
    qed
    moreover then obtain err where "New (maglevKey rule) bs (int MaglevTableSize) = Some (Inl err)"
      using is_prime_1021 len by (cases "bs = []") (simp_all add: New_eq MaxBackends_def MaglevTableSize_def)
    then have "e = ErrMaglev err" using assms by (simp add: buildMaglevTable_eq [OF a len])
    ultimately show ?thesis by simp
  qed
qed

lemma buildMaglevTable_table:
  assumes "buildMaglevTable rule bs = Inr (backends, table)"
  shows "backends = map edge_backend (sort_key (maglevKey rule) bs)" "length table = MaglevTableSize"
    "list_all (\<lambda>i. unat i < length backends) table" "backends \<noteq> []" "length backends \<le> MaxBackends"
    "i < length bs \<Longrightarrow> count_list table (of_nat i) = MaglevTableSize div length bs + of_bool (i < MaglevTableSize mod length bs)"
proof -
  let ?key = "maglevKey rule"
  obtain u where b: "bs \<noteq> []" "length bs \<le> MaxBackends" "distinct (map ?key bs)"
    and u: "New ?key bs (int MaglevTableSize) = Some (Inr u)" "backends = map edge_backend (t_backends u)"
      "flatten_slots ?key u (index_by_key ?key (t_backends u)) [0..<MaglevTableSize] = Inr table"
    using assms unfolding buildMaglevTable_Inr by blast
  obtain t slots where t: "New ?key bs (int MaglevTableSize) = Some (Inr t)" "t_backends t = sort_key ?key bs"
    "flatten_slots ?key t (index_by_key ?key (t_backends t)) [0..<MaglevTableSize] = Inr slots" "length slots = MaglevTableSize"
    "\<And>s. s < MaglevTableSize \<Longrightarrow> unat (slots ! s) < length bs \<and> t_entries t ! s = Some (sort_key ?key bs ! unat (slots ! s))"
    using New_flattened [OF b] by blast
  have eq: "u = t" "table = slots" using u(1,3) t(1,3) by auto
  show bk: "backends = map edge_backend (sort_key ?key bs)" using u(2) t(2) eq by simp
  show "length table = MaglevTableSize" using t(4) eq by simp
  show "list_all (\<lambda>i. unat i < length backends) table" using t(4,5) bk eq by (simp add: list_all_length)
  show "backends \<noteq> []" "length backends \<le> MaxBackends" using b bk by (auto dest: arg_cong [of _ _ length])
  have "distinct (sort_key ?key bs)" using b(3) by (simp add: distinct_map)
  then have inj: "inj_on (\<lambda>v :: u8. Some (sort_key ?key bs ! unat v)) {v. unat v < length bs}"
    by (auto simp: inj_on_def nth_eq_iff_index_eq word_unat_eq_iff)
  have entries: "length (t_entries t) = MaglevTableSize" "\<forall>m<length bs. count_list (t_entries t) (Some (t_backends t ! m))
       = MaglevTableSize div length bs + of_bool (m < MaglevTableSize mod length bs)"
    using New_table [OF _ _ t(1)] by (simp_all add: MaglevTableSize_def)
  have "t_entries t = map (\<lambda>v. Some (sort_key ?key bs ! unat v)) slots"
    using entries(1) t(4,5) by (intro nth_equalityI) simp_all
  moreover assume i: "i < length bs"
  then have "unat (of_nat i :: u8) = i" using b(2) by (simp add: unsigned_of_nat take_bit_eq_mod MaxBackends_def)
  moreover have "insert (of_nat i) (set slots) \<subseteq> {v :: u8. unat v < length bs}"
    using i calculation(2) t(4,5) by (auto simp: in_set_conv_nth)
  ultimately have "count_list (t_entries t) (Some (t_backends t ! i)) = count_list slots (of_nat i)"
    using count_list_map_inj [OF inj_on_subset [OF inj], of "of_nat i" slots] t(2) by simp
  then show "count_list table (of_nat i) = MaglevTableSize div length bs + of_bool (i < MaglevTableSize mod length bs)"
    using entries(2) i eq by simp
qed

section \<open>What a successful apply leaves in the tables\<close>

lemma onMaps_Inr [simp]: "onMaps m d = (Inr x, d') \<longleftrightarrow> (\<exists>w. m (kd_maps d) = (Inr x, w) \<and> d' = d\<lparr>kd_maps := w\<rparr>)"
  by (auto simp: onMaps_def split: prod.splits sum.splits)

lemma modify_simps [simp]: "modify f d = (r, d') \<longleftrightarrow> r = Inr () \<and> d' = f d"
  by (auto simp: modify_def)

lemma forEach_onMaps: "forEach (\<lambda>k. onMaps (f k)) ks d = (Inr u, d') \<longleftrightarrow> (\<exists>w. forEach f ks (kd_maps d) = (Inr u, w) \<and> d' = d\<lparr>kd_maps := w\<rparr>)"
  by (induction ks arbitrary: d) auto

lemma tables [simp]:
  "rows vipTable w = vip_table w" "peer_rows vipTable w = vip_range_backends w"
  "rows rangeVIPTable w = vip_range_backends w" "peer_rows rangeVIPTable w = vip_table w"
  by (simp_all add: rows_def peer_rows_def vipTable_def rangeVIPTable_def)

definition zoneless :: "VIPKey list \<Rightarrow> bool" where
  "zoneless keys \<longleftrightarrow> list_all (\<lambda>k. Zone (vk_VIP k) = []) keys"

lemma toWireKey_inj: "toWireKey k = Inr wk \<Longrightarrow> toWireKey k' = Inr wk \<Longrightarrow> Zone (vk_VIP k) = [] \<Longrightarrow> Zone (vk_VIP k') = [] \<Longrightarrow> k = k'"
  by (cases k; cases k') (auto simp: toWireKey_Inr dest: wire_inverse)

lemma retireCoverage_Inr:
  assumes "retireCoverage kn rule d = (Inr u, d')"
  shows "d' = d\<lparr>kd_maps := kd_maps d'\<rparr> \<and> vip_table (kd_maps d') = vip_table (kd_maps d)"
proof -
  obtain w where w: "forEach (RemoveRange kn) (vipKeys d (d_Key rule)) (kd_maps d) = (Inr u, w)" "d' = d\<lparr>kd_maps := w\<rparr>"
    using assms by (auto simp: retireCoverage_def forEach_onMaps split: if_splits)
  have "vip_table w = vip_table (kd_maps d)"
    by (rule forEach_inv [OF _ _ w(1), where I = "\<lambda>w. vip_table w = vip_table (kd_maps d)"])
      (auto dest: RemoveRange_cases simp: other_maps_def)
  then show ?thesis using w(2) by simp
qed

lemma switchTable_Inr:
  assumes "switchTable kn rule d = (Inr u, d')" "d_PortEnd rule = 0"
  shows "d' = d\<lparr>kd_maps := kd_maps d'\<rparr> \<and> vip_table (kd_maps d') = vip_table (kd_maps d)"
proof (cases "map_of (kd_rangeRules d) (d_Key rule) = Some True")
  case True
  then obtain w where w: "forEach (Unregister kn rangeVIPTable) (vipKeys d (d_Key rule)) (kd_maps d) = (Inr u, w)" "d' = d\<lparr>kd_maps := w\<rparr>"
    using assms by (auto simp: switchTable_def forEach_onMaps tableFor_def)
  have "vip_table w = vip_table (kd_maps d)"
    by (rule forEach_inv [OF _ _ w(1), where I = "\<lambda>w. vip_table w = vip_table (kd_maps d)"])
      (auto dest: Unregister_cases)
  then show ?thesis using w(2) by simp
qed (use assms in \<open>auto simp: switchTable_def split: option.splits if_splits\<close>)

text \<open>The row of a key as the families give it.\<close>

definition has_row :: "VIPTable \<Rightarrow> u8 \<Rightarrow> families \<Rightarrow> maps \<Rightarrow> VIPKey \<Rightarrow> bool" where
  "has_row t affinity fams w key \<longleftrightarrow> (\<exists>wk backends table wb g. toWireKey key = Inr wk \<and>
     get ([], []) fams (Is4 (vk_VIP key)) = (backends, table) \<and> toWireBackends backends = Inr wb \<and>
     map_of (rows t w) wk = Some (row_value affinity backends wb table g))"

lemma has_row_cong: "(\<And>wk. toWireKey key = Inr wk \<Longrightarrow> map_of (rows t w') wk = map_of (rows t w) wk) \<Longrightarrow> has_row t a fams w' key = has_row t a fams w key"
  unfolding has_row_def by metis

lemma registerAll_Inr:
  assumes "registerAll kn t name affinity fams written keys d = (Inr u, d')" "zoneless keys"
  shows "d' = d\<lparr>kd_maps := kd_maps d'\<rparr> \<and> (\<forall>key\<in>set keys. has_row t affinity fams (kd_maps d') key) \<and>
    (\<forall>wk. (\<forall>key\<in>set keys. toWireKey key \<noteq> Inr wk) \<longrightarrow> map_of (rows t (kd_maps d')) wk = map_of (rows t (kd_maps d)) wk)"
  using assms
proof (induction keys arbitrary: d written)
  case (Cons key keys)
  obtain backends table where f: "get ([], []) fams (Is4 (vk_VIP key)) = (backends, table)" by (cases "get ([], []) fams (Is4 (vk_VIP key))")
  obtain w where reg: "Register kn t key affinity backends table (kd_maps d) = (Inr (), w)"
    and rest: "registerAll kn t name affinity fams (written @ [key]) keys (d\<lparr>kd_maps := w\<rparr>) = (Inr u, d')"
    using Cons.prems(1) f by (auto split: prod.splits sum.splits)
  have z: "zoneless keys" "Zone (vk_VIP key) = []" using Cons.prems(2) by (simp_all add: zoneless_def)
  note IH = Cons.IH [OF rest z(1)]
  obtain wk wb where wk: "toWireKey key = Inr wk" "toWireBackends backends = Inr wb"
    and w: "rows t w = AList.update wk (row_value affinity backends wb table (now kn (m_ops (kd_maps d)))) (rows t (kd_maps d))"
    using reg unfolding Register_Inr by auto
  have "has_row t affinity fams (kd_maps d') key"
  proof (cases "key \<in> set keys")
    case False
    have "toWireKey key' \<noteq> Inr wk" if "key' \<in> set keys" for key'
      using toWireKey_inj [OF wk(1), of key'] z False that by (auto simp: zoneless_def list_all_iff)
    then show ?thesis using IH f wk w unfolding has_row_def by (auto simp: update_conv')
  qed (use IH in blast)
  moreover have "map_of (rows t (kd_maps d')) k = map_of (rows t (kd_maps d)) k" if "\<forall>key\<in>set (key # keys). toWireKey key \<noteq> Inr k" for k
    using IH that wk(1) w by (auto simp: update_conv')
  ultimately show ?case using IH by auto
qed simp

lemma pruneKeys_loop:
  assumes "forEach (\<lambda>old. if old \<in> K then ret () else bind (onMaps (Unregister kn t old)) (\<lambda>_. modify (clearVPC old))) olds d = (Inr u, d')"
  shows "d' = d\<lparr>kd_maps := kd_maps d', kd_vpcByKey := kd_vpcByKey d'\<rparr> \<and>
    (\<forall>wk. map_of (rows t (kd_maps d')) wk =
      (if \<exists>old\<in>set olds - K. toWireKey old = Inr wk then None else map_of (rows t (kd_maps d)) wk))"
  using assms
proof (induction olds arbitrary: d)
  case (Cons old olds)
  show ?case
  proof (cases "old \<in> K")
    case True
    then show ?thesis using Cons by simp
  next
    case False
    then obtain w where w: "Unregister kn t old (kd_maps d) = (Inr (), w)"
      and rest: "forEach (\<lambda>old. if old \<in> K then ret () else bind (onMaps (Unregister kn t old)) (\<lambda>_. modify (clearVPC old))) olds
        (clearVPC old (d\<lparr>kd_maps := w\<rparr>)) = (Inr u, d')"
      using Cons.prems by auto
    obtain wk where wk: "toWireKey old = Inr wk" "rows t w = AList.delete wk (rows t (kd_maps d))"
      using Unregister_cases [OF w] by auto
    have rows: "map_of (rows t w) k = (if toWireKey old = Inr k then None else map_of (rows t (kd_maps d)) k)" for k
      using wk by (simp add: delete_conv')
    show ?thesis using Cons.IH [OF rest] False rows by (auto simp: clearVPC_def)
  qed
qed simp

lemma buildFamilies_Inr:
  assumes "buildFamilies rule keys fams = Inr fams'"
    and "\<And>v f. map_of fams v = Some f \<Longrightarrow> buildMaglevTable rule (if v then d_IPv4Backends rule else d_Backends rule) = Inr f"
  shows "(\<forall>v f. map_of fams' v = Some f \<longrightarrow> buildMaglevTable rule (if v then d_IPv4Backends rule else d_Backends rule) = Inr f) \<and>
    (\<forall>v. map_of fams v \<noteq> None \<longrightarrow> map_of fams' v \<noteq> None) \<and> (\<forall>key\<in>set keys. map_of fams' (Is4 (vk_VIP key)) \<noteq> None)"
  using assms
proof (induction keys arbitrary: fams)
  case (Cons key keys)
  let ?v = "Is4 (vk_VIP key)"
  show ?case
  proof (cases "map_of fams ?v")
    case None
    then obtain f where f: "buildMaglevTable rule (backendsFor rule (vk_VIP key)) = Inr f" "buildFamilies rule keys (AList.update ?v f fams) = Inr fams'"
      using Cons.prems(1) by (auto simp: Let_def split: sum.splits)
    have "buildMaglevTable rule (if v then d_IPv4Backends rule else d_Backends rule) = Inr f'"
      if "map_of (AList.update ?v f fams) v = Some f'" for v f'
      using that f(1) Cons.prems(2) [of v f'] by (auto simp: update_conv' backendsFor_def split: if_splits)
    note IH = Cons.IH [OF f(2) this]
    have "map_of fams' v \<noteq> None" if "v = ?v \<or> map_of fams v \<noteq> None" for v
    proof -
      have "map_of (AList.update ?v f fams) v \<noteq> None" using that by (auto simp: update_conv')
      then show ?thesis using IH by blast
    qed
    then show ?thesis using IH by simp
  next
    case (Some f)
    then show ?thesis using Cons.IH [of fams] Cons.prems by (auto simp: Let_def)
  qed
qed simp

text \<open>The row that serves a rule on one of its keys: the affinity, the backends of the key's family and the
  table over them.\<close>

definition serves :: "KernelDatapath \<Rightarrow> DesiredRule \<Rightarrow> VIPKey \<Rightarrow> bool" where
  "serves d rule key \<longleftrightarrow> (\<exists>wk affinity backends table wb g. toWireKey key = Inr wk \<and> affinityNumber (d_Affinity rule) = Inr affinity \<and>
     buildMaglevTable rule (backendsFor rule (vk_VIP key)) = Inr (backends, table) \<and> toWireBackends backends = Inr wb \<and>
     map_of (vip_table (kd_maps d)) wk = Some (row_value affinity backends wb table g))"

lemma vipKeys_frame [simp]:
  "vipKeys (d\<lparr>kd_maps := w\<rparr>) n = vipKeys d n" "vipKeys (d\<lparr>kd_vpcByKey := v\<rparr>) n = vipKeys d n" "vipKeys (d\<lparr>kd_rangeRules := r\<rparr>) n = vipKeys d n"
  "vipKeys (setVPCs ks vpc d) n = vipKeys d n"
  "vipKeys (d\<lparr>kd_vipKeysByName := AList.update name keys (kd_vipKeysByName d)\<rparr>) n = (if n = name then keys else vipKeys d n)"
  by (simp_all add: vipKeys_def get_def setVPCs_def update_conv')

lemma setVPCs_maps [simp]: "kd_maps (setVPCs ks vpc d) = kd_maps d"
  by (simp add: setVPCs_def)

lemma vipKeysForRule_zoneless:
  "vipKeysForRule rule = Inr keys \<Longrightarrow> list_all (\<lambda>a. Zone a = []) (d_VIPAddresses rule) \<Longrightarrow> zoneless keys"
  by (auto simp: vipKeysForRule_def zoneless_def list_all_iff split: sum.splits)

lemma ApplyRule_Inr:
  assumes "ApplyRule kn rule d = (Inr u, d')" "d_PortEnd rule = 0" "list_all (\<lambda>a. Zone a = []) (d_VIPAddresses rule)"
    "zoneless (vipKeys d (d_Key rule))"
  obtains keys where "vipKeysForRule rule = Inr keys" "\<And>n. vipKeys d' n = (if n = d_Key rule then keys else vipKeys d n)"
    "\<And>key. key \<in> set keys \<Longrightarrow> serves d' rule key"
    "\<And>wk. \<forall>key\<in>set keys. toWireKey key \<noteq> Inr wk \<Longrightarrow> map_of (vip_table (kd_maps d')) wk =
       (if \<exists>old\<in>set (vipKeys d (d_Key rule)). toWireKey old = Inr wk then None else map_of (vip_table (kd_maps d)) wk)"
proof -
  let ?name = "d_Key rule"
  obtain keys d1 affinity d2 fams d3 d4 where keys: "vipKeysForRule rule = Inr keys" and d1: "retireCoverage kn rule d = (Inr (), d1)"
    and aff: "affinityNumber (d_Affinity rule) = Inr affinity" and d2: "switchTable kn rule d1 = (Inr (), d2)"
    and fams: "buildFamilies rule keys [] = Inr fams"
    and d3: "registerAll kn vipTable ?name affinity fams [] keys
      ((\<lambda>d. setVPCs (vipKeys d ?name) (d_VPCRef rule) (setVPCs keys (d_VPCRef rule) d)) (d2\<lparr>kd_rangeRules := AList.update ?name False (kd_rangeRules d2)\<rparr>)) = (Inr (), d3)"
    and d4: "pruneKeys kn vipTable ?name keys d3 = (Inr (), d4)"
    and d': "d' = d4\<lparr>kd_vipKeysByName := AList.update ?name keys (kd_vipKeysByName d4)\<rparr>"
    using assms(1,2) by (auto simp: ApplyRule_def tableFor_def activateRanges_def Let_def)
  have r: "d1 = d\<lparr>kd_maps := kd_maps d1\<rparr> \<and> vip_table (kd_maps d1) = vip_table (kd_maps d)" using d1 by (rule retireCoverage_Inr)
  have s: "d2 = d1\<lparr>kd_maps := kd_maps d2\<rparr> \<and> vip_table (kd_maps d2) = vip_table (kd_maps d1)" using d2 assms(2) by (rule switchTable_Inr)
  have zk: "zoneless keys" using keys assms(3) by (rule vipKeysForRule_zoneless)
  note reg = registerAll_Inr [OF d3 zk]
  have names2: "vipKeys d2 n = vipKeys d n" for n using r s by (metis vipKeys_frame(1))
  have names3: "vipKeys d3 n = vipKeys d n" for n using conjunct1 [OF reg] names2 by (metis vipKeys_frame(1,3,4))
  note pr = pruneKeys_loop [OF d4 [unfolded pruneKeys_def names3]]
  have names4: "vipKeys d4 n = vipKeys d n" for n using conjunct1 [OF pr] names3 by (metis vipKeys_frame(1,2))
  have base: "map_of (vip_table (kd_maps d3)) wk = map_of (vip_table (kd_maps d)) wk" if "\<forall>key\<in>set keys. toWireKey key \<noteq> Inr wk" for wk
    using reg that r s by simp
  have kept: "map_of (vip_table (kd_maps d4)) wk = map_of (vip_table (kd_maps d3)) wk" if "key \<in> set keys" "toWireKey key = Inr wk" for key wk
  proof -
    have "key \<notin> set (vipKeys d ?name) - set keys" using that(1) by simp
    moreover have "old = key" if "old \<in> set (vipKeys d ?name)" "toWireKey old = Inr wk" for old
      using toWireKey_inj [OF that(2) \<open>toWireKey key = Inr wk\<close>] that(1) \<open>key \<in> set keys\<close> assms(4) zk by (simp add: zoneless_def list_all_iff)
    ultimately have "\<not> (\<exists>old\<in>set (vipKeys d ?name) - set keys. toWireKey old = Inr wk)" by blast
    then show ?thesis using pr by simp
  qed
  have fam: "buildMaglevTable rule (backendsFor rule (vk_VIP key)) = Inr (get ([], []) fams (Is4 (vk_VIP key)))" if "key \<in> set keys" for key
    using buildFamilies_Inr [OF fams] that by (fastforce simp: get_def backendsFor_def)
  show thesis
  proof (rule that [OF keys])
    show "vipKeys d' n = (if n = ?name then keys else vipKeys d n)" for n using names4 by (simp add: d')
    show "serves d' rule key" if "key \<in> set keys" for key
      using reg that aff fam [OF that] kept [OF that] unfolding serves_def has_row_def d' by fastforce
    show "map_of (vip_table (kd_maps d')) wk = (if \<exists>old\<in>set (vipKeys d ?name). toWireKey old = Inr wk then None else map_of (vip_table (kd_maps d)) wk)"
      if none: "\<forall>key\<in>set keys. toWireKey key \<noteq> Inr wk" for wk
    proof -
      have "(\<exists>old\<in>set (vipKeys d ?name) - set keys. toWireKey old = Inr wk) \<longleftrightarrow> (\<exists>old\<in>set (vipKeys d ?name). toWireKey old = Inr wk)"
        using none by blast
      then show ?thesis using pr base [OF none] by (simp add: d')
    qed
  qed
qed

section \<open>A working kernel\<close>

text \<open>Rules that nothing stands against: a known protocol and affinity, addresses the maps can hold, and for
  each address one to 64 backends with distinct Maglev keys, each reached over a native IPv6 uSID.\<close>

definition wireable :: "addr \<Rightarrow> bool" where
  "wireable a \<longleftrightarrow> (Is4 a \<or> Is6 a \<and> \<not> Is4In6 a) \<and> Zone a = []"

definition valid_backends :: "DesiredRule \<Rightarrow> DesiredBackend list \<Rightarrow> bool" where
  "valid_backends rule bs \<longleftrightarrow> bs \<noteq> [] \<and> length bs \<le> 64 \<and> distinct (map (maglevKey rule) bs) \<and>
     list_all (\<lambda>b. wireable (b_Address b) \<and> Is6 (b_USID b) \<and> \<not> Is4In6 (b_USID b)) bs"

definition valid_rule :: "DesiredRule \<Rightarrow> bool" where
  "valid_rule rule \<longleftrightarrow> d_Protocol rule \<in> {protocolTCP, protocolUDP} \<and> d_PortEnd rule = 0 \<and>
     d_Affinity rule \<in> {[], affinityNone, affinityClientIP, affinityClientIPAndProtocol} \<and>
     list_all (\<lambda>vip. wireable vip \<and> valid_backends rule (backendsFor rule vip)) (d_VIPAddresses rule)"

definition works :: "kernel \<Rightarrow> bool" where
  "works kn \<longleftrightarrow> (\<forall>n. \<not> fault kn n)"

lemma toWireKey_wireable: "wireable (vk_VIP key) \<Longrightarrow> \<exists>wk. toWireKey key = Inr wk"
  by (auto simp: toWireKey_def toWireAddr_def wireable_def)

lemma Delete_works: "works kn \<Longrightarrow> succeeds (ignoreMissing (Delete kn sel upd k))"
  by (auto simp: succeeds_def works_def ignoreMissing_def Delete_def split: option.splits)

lemma scanAddr_works: "works kn \<Longrightarrow> succeeds (scanAddr kn sel vip)"
  by (auto simp: succeeds_def works_def scanAddr_def Iterate_def)

lemma Unregister_works:
  assumes "works kn" "wireable (vk_VIP key)"
  shows "succeeds (Unregister kn t key)"
proof -
  obtain wk where wk: "toWireKey key = Inr wk" using toWireKey_wireable [OF assms(2)] by blast
  then have a: "toWireAddrKey (vk_VIP key) = Inr (k_vip wk)" by (auto simp: toWireKey_Inr toWireAddrKey_def)
  show ?thesis
    unfolding Unregister_def deleteRow_def deleteStats_def releaseAddr_def wk a
    by (intro succeeds_intros Delete_works scanAddr_works assms(1))
qed

lemma RemoveRange_works:
  assumes "works kn" "wireable (vk_VIP key)" "ranges_ok w"
  shows "\<exists>w'. RemoveRange kn key w = (Inr (), w')"
proof -
  have ok: "\<not> fault kn n" for n using assms(1) by (simp add: works_def)
  obtain raw where raw: "rangeKey key = Inr raw"
    using toWireKey_wireable [of "key\<lparr>vk_VPort := 0\<rparr>"] assms(2) by (auto simp: rangeKey_def)
  show ?thesis
  proof (cases "map_of (vip_range_table w) raw")
    case None
    then have "EdgeMap.Lookup kn vip_range_table raw w = (Inl ErrKeyNotExist, tick w)" using ok by (simp add: EdgeMap.Lookup_def)
    then show ?thesis using raw by (simp add: RemoveRange_def lookupOr_def bind_def lift_def ret_def)
  next
    case (Some v)
    then have "unat (rv_count v) \<le> RangesPerVIP" using ranges_ok_row [OF assms(3)] by (simp add: range_row_ok_def)
    moreover have "EdgeMap.Lookup kn vip_range_table raw w = (Inr v, tick w)" using ok Some by (simp add: EdgeMap.Lookup_def)
    moreover have "\<exists>w'. ignoreMissing (Delete kn sel upd k) w1 = (Inr (), w')" for sel :: "maps \<Rightarrow> (vip_key \<times> vip_range_value) list" and upd k w1
      using Delete_works [OF assms(1), of sel upd k] by (simp add: succeeds_def)
    ultimately show ?thesis using raw ok
      by (simp add: RemoveRange_def lookupOr_def bind_def lift_def ret_def putRanges_def clockFn_def Put_def Let_def)
  qed
qed

lemma wireBackends_works:
  "list_all (\<lambda>b. wireable (eb_Addr b) \<and> Is6 (eb_USID b) \<and> \<not> Is4In6 (eb_USID b)) bs \<Longrightarrow> \<exists>out. wireBackends bs = Inr out"
  by (induction bs) (auto simp: wireable_def toWireAddr_def)

lemma buildMaglevTable_valid:
  assumes "valid_backends rule bs" "d_Affinity rule \<in> {[], affinityNone, affinityClientIP, affinityClientIPAndProtocol}"
  shows "\<exists>backends table wb. buildMaglevTable rule bs = Inr (backends, table) \<and> toWireBackends backends = Inr wb \<and>
    backends \<noteq> [] \<and> length backends \<le> MaxBackends"
proof -
  have b: "bs \<noteq> []" "length bs \<le> MaxBackends" "distinct (map (maglevKey rule) bs)" using assms(1) by (simp_all add: valid_backends_def MaxBackends_def)
  obtain a where "affinityNumber (d_Affinity rule) = Inr a" using assms(2) by (cases "affinityNumber (d_Affinity rule)") (auto simp: affinityNumber_def split: if_splits)
  moreover obtain t slots where "New (maglevKey rule) bs (int MaglevTableSize) = Some (Inr t)"
    "flatten_slots (maglevKey rule) t (index_by_key (maglevKey rule) (t_backends t)) [0..<MaglevTableSize] = Inr slots"
    using New_flattened [OF b] by blast
  ultimately obtain r where "buildMaglevTable rule bs = Inr r" by (simp add: buildMaglevTable_eq b(2))
  then obtain backends table where m: "buildMaglevTable rule bs = Inr (backends, table)" by (cases r) auto
  have "list_all (\<lambda>b. wireable (eb_Addr b) \<and> Is6 (eb_USID b) \<and> \<not> Is4In6 (eb_USID b)) backends"
    using assms(1) unfolding buildMaglevTable_table(1) [OF m] by (auto simp: valid_backends_def list_all_iff edge_backend_def)
  from wireBackends_works [OF this] show ?thesis using m buildMaglevTable_table(4,5) [OF m] by (auto simp: toWireBackends_def)
qed

lemma registerAll_works:
  assumes "works kn" "affinity \<in> {AffinityNone, AffinityClientIP, AffinityClientIPAndProtocol}"
    "\<forall>key\<in>set keys. wireable (vk_VIP key) \<and> (\<exists>backends table wb. get ([], []) fams (Is4 (vk_VIP key)) = (backends, table) \<and>
       toWireBackends backends = Inr wb \<and> backends \<noteq> [] \<and> length backends \<le> MaxBackends)"
  shows "\<exists>d'. registerAll kn t name affinity fams written keys d = (Inr (), d')"
  using assms(3)
proof (induction keys arbitrary: written d)
  case (Cons key keys)
  then obtain backends table wb where f: "get ([], []) fams (Is4 (vk_VIP key)) = (backends, table)"
    "toWireBackends backends = Inr wb" "backends \<noteq> []" "length backends \<le> MaxBackends" by auto
  obtain wk where "toWireKey key = Inr wk" using toWireKey_wireable [of key] Cons.prems by auto
  then have "\<exists>w. Register kn t key affinity backends table (kd_maps d) = (Inr (), w)"
    unfolding Register_Inr using assms(1,2) f by (auto simp: works_def)
  then obtain w where reg: "Register kn t key affinity backends table (kd_maps d) = (Inr (), w)" by blast
  then show ?case using f(1) Cons.IH Cons.prems by (simp add: onMaps_def)
qed simp

lemma buildFamilies_works:
  assumes "\<forall>key\<in>set keys. \<exists>f. buildMaglevTable rule (backendsFor rule (vk_VIP key)) = Inr f"
  shows "\<exists>fams'. buildFamilies rule keys fams = Inr fams'"
  using assms by (induction keys arbitrary: fams) (auto simp: Let_def)

lemma retireCoverage_works:
  assumes "works kn" "d_PortEnd rule = 0" "ranges_ok (kd_maps d)" "list_all (\<lambda>k. wireable (vk_VIP k)) (vipKeys d (d_Key rule))"
  shows "\<exists>d'. retireCoverage kn rule d = (Inr (), d')"
proof -
  have step: "\<exists>u w'. RemoveRange kn key w = (Inr u, w') \<and> ranges_ok w'" if k: "key \<in> set (vipKeys d (d_Key rule))" "ranges_ok w" for key w
  proof -
    obtain w' where "RemoveRange kn key w = (Inr (), w')" using RemoveRange_works [OF assms(1) _ k(2)] assms(4) k(1) by (auto simp: list_all_iff)
    then show ?thesis using ranges_ok_remove [OF k(2)] by blast
  qed
  have "\<exists>w. forEach (RemoveRange kn) (vipKeys d (d_Key rule)) (kd_maps d) = (Inr (), w) \<and> ranges_ok w"
    by (rule forEach_works [of _ ranges_ok "RemoveRange kn", OF step assms(3)])
  then show ?thesis using assms(2) by (auto simp: retireCoverage_def forEach_onMaps)
qed

lemma unregisterAll_works:
  assumes "works kn" "list_all (\<lambda>k. wireable (vk_VIP k)) keys"
  shows "\<exists>w'. forEach (Unregister kn t) keys w = (Inr (), w')"
  using forEach_works [of keys "\<lambda>_. True" "Unregister kn t" w] Unregister_works [OF assms(1)] assms(2)
  by (auto simp: succeeds_def list_all_iff)

lemma switchTable_works:
  assumes "works kn" "list_all (\<lambda>k. wireable (vk_VIP k)) (vipKeys d (d_Key rule))"
  shows "\<exists>d'. switchTable kn rule d = (Inr (), d')"
proof -
  have "\<exists>d'. forEach (\<lambda>key. onMaps (Unregister kn t key)) (vipKeys d (d_Key rule)) d = (Inr (), d')" for t
    using unregisterAll_works [OF assms, of t "kd_maps d"] by (auto simp: forEach_onMaps)
  then show ?thesis by (simp add: switchTable_def split: option.splits)
qed

lemma pruneKeys_works:
  assumes "works kn" "list_all (\<lambda>k. wireable (vk_VIP k)) (vipKeys d name)"
  shows "\<exists>d'. pruneKeys kn t name keys d = (Inr (), d')"
proof -
  have "\<exists>u d2. (if old \<in> set keys then ret () else bind (onMaps (Unregister kn t old)) (\<lambda>_. modify (clearVPC old))) d1 = (Inr u, d2)"
    if "old \<in> set (vipKeys d name)" for old d1
    using Unregister_works [OF assms(1), of old t] assms(2) that by (auto simp: succeeds_def list_all_iff)
  then show ?thesis unfolding pruneKeys_def
    using forEach_works [of "vipKeys d name" "\<lambda>_. True" "\<lambda>old. if old \<in> set keys then ret () else bind (onMaps (Unregister kn t old)) (\<lambda>_. modify (clearVPC old))"]
    by blast
qed

lemma ApplyRule_works:
  assumes "works kn" "valid_rule rule" "ranges_ok (kd_maps d)" "list_all (\<lambda>k. wireable (vk_VIP k)) (vipKeys d (d_Key rule))"
  shows "\<exists>d'. ApplyRule kn rule d = (Inr (), d')"
proof -
  let ?name = "d_Key rule"
  obtain proto where proto: "protoNumber (d_Protocol rule) = Inr proto" using assms(2)
    by (cases "protoNumber (d_Protocol rule)") (auto simp: valid_rule_def protoNumber_def split: if_splits)
  then obtain keys where keys: "vipKeysForRule rule = Inr keys" and vips: "vk_VIP ` set keys = set (d_VIPAddresses rule)"
    by (auto simp: vipKeysForRule_def image_image)
  have valid: "wireable (vk_VIP key) \<and> valid_backends rule (backendsFor rule (vk_VIP key))" if "key \<in> set keys" for key
    using assms(2) vips that by (auto simp: valid_rule_def list_all_iff)
  have affs: "d_Affinity rule \<in> {[], affinityNone, affinityClientIP, affinityClientIPAndProtocol}" "d_PortEnd rule = 0"
    using assms(2) by (simp_all add: valid_rule_def)
  then obtain affinity where aff: "affinityNumber (d_Affinity rule) = Inr affinity" "affinity \<in> {AffinityNone, AffinityClientIP, AffinityClientIPAndProtocol}"
    by (cases "affinityNumber (d_Affinity rule)") (auto simp: affinityNumber_def split: if_splits)
  obtain d1 where d1: "retireCoverage kn rule d = (Inr (), d1)" using retireCoverage_works [OF assms(1) affs(2) assms(3,4)] by blast
  then have n1: "vipKeys d1 n = vipKeys d n" for n using retireCoverage_Inr [OF d1] by (metis vipKeys_frame(1))
  obtain d2 where d2: "switchTable kn rule d1 = (Inr (), d2)"
    using switchTable_works [OF assms(1), of d1 rule] assms(4) n1 by auto
  then have n2: "vipKeys d2 n = vipKeys d n" for n using switchTable_Inr [OF d2 affs(2)] n1 by (metis vipKeys_frame(1))
  have build: "\<exists>f. buildMaglevTable rule (backendsFor rule (vk_VIP key)) = Inr f" if "key \<in> set keys" for key
    using buildMaglevTable_valid [OF _ affs(1)] valid [OF that] by blast
  then obtain fams where fams: "buildFamilies rule keys [] = Inr fams" using buildFamilies_works [of keys rule "[]"] by blast
  have fam: "buildMaglevTable rule (backendsFor rule (vk_VIP key)) = Inr (get ([], []) fams (Is4 (vk_VIP key)))" if "key \<in> set keys" for key
    using buildFamilies_Inr [OF fams] that by (fastforce simp: get_def backendsFor_def)
  let ?d = "(\<lambda>d. setVPCs (vipKeys d ?name) (d_VPCRef rule) (setVPCs keys (d_VPCRef rule) d)) (d2\<lparr>kd_rangeRules := AList.update ?name False (kd_rangeRules d2)\<rparr>)"
  have "wireable (vk_VIP key) \<and> (\<exists>backends table wb. get ([], []) fams (Is4 (vk_VIP key)) = (backends, table) \<and>
       toWireBackends backends = Inr wb \<and> backends \<noteq> [] \<and> length backends \<le> MaxBackends)" if k: "key \<in> set keys" for key
  proof -
    obtain backends table wb where b: "buildMaglevTable rule (backendsFor rule (vk_VIP key)) = Inr (backends, table)"
      "toWireBackends backends = Inr wb" "backends \<noteq> []" "length backends \<le> MaxBackends"
      using buildMaglevTable_valid [OF _ affs(1)] valid [OF k] by blast
    then have "get ([], []) fams (Is4 (vk_VIP key)) = (backends, table)" using fam [OF k] by simp
    then show ?thesis using b valid [OF k] by blast
  qed
  then obtain d3 where d3: "registerAll kn vipTable ?name affinity fams [] keys ?d = (Inr (), d3)"
    using registerAll_works [OF assms(1) aff(2), of keys fams vipTable ?name "[]" ?d] by blast
  have "zoneless keys" using valid by (simp add: zoneless_def list_all_iff wireable_def)
  then have n3: "vipKeys d3 n = vipKeys d n" for n using registerAll_Inr [OF d3] n2 by (metis vipKeys_frame(1,3,4))
  obtain d4 where "pruneKeys kn vipTable ?name keys d3 = (Inr (), d4)" using pruneKeys_works [OF assms(1), of d3 ?name vipTable keys] assms(4) n3 by auto
  then show ?thesis using keys d1 aff d2 fams d3 affs(2)
    by (simp add: ApplyRule_def Let_def bind_def lift_def modify_def ret_def tableFor_def activateRanges_def del: bind_Inr)
qed

section \<open>What the operations leave alone\<close>

lemma keeps_ignoreMissing: "keeps p m \<Longrightarrow> keeps p (ignoreMissing m)"
  by (auto simp: keeps_def ignoreMissing_def split: prod.splits sum.splits edge_error.splits) (metis snd_conv)+

lemma keeps_ops:
  "(\<And>w. p (tick w) = p w) \<Longrightarrow> (\<And>w. p (upd w) = p w) \<Longrightarrow> keeps p (Put kn upd)"
  "(\<And>w. p (tick w) = p w) \<Longrightarrow> (\<And>w. p (upd w) = p w) \<Longrightarrow> keeps p (Delete kn sel upd k)"
  "(\<And>w. p (tick w) = p w) \<Longrightarrow> keeps p (clockFn kn)" "(\<And>w. p (tick w) = p w) \<Longrightarrow> keeps p (scanAddr kn sel' vip)"
  by (auto simp: keeps_def Put_def Delete_def clockFn_def scanAddr_def Iterate_def split: option.splits)

lemma set_rows_frame [simp]:
  "vip_range_table (set_rows t f w) = vip_range_table w" "vip_owned_table (set_rows t f w) = vip_owned_table w"
  by (simp_all add: set_rows_def)

lemma Unregister_keeps: "keeps vip_range_table (Unregister kn t key)" "keeps vip_owned_table (Unregister kn t key)"
  unfolding Unregister_def deleteRow_def deleteStats_def releaseAddr_def
  by (intro keeps_intros keeps_ignoreMissing keeps_ops; simp)+

lemma Register_keeps: "keeps vip_range_table (Register kn t key aff bs tbl)" "keeps vip_owned_table (Register kn t key aff bs tbl)"
  unfolding Register_def claimAddr_def Let_def
  by (intro keeps_intros keeps_ignoreMissing keeps_ops; simp)+

lemma RemoveRange_keeps: "keeps vip_owned_table (RemoveRange kn key)"
  unfolding keeps_def using RemoveRange_cases [of kn key] by (auto simp: other_maps_def) (metis surjective_pairing)

lemma onMaps_keeps: "keeps p m \<Longrightarrow> keeps (\<lambda>d. p (kd_maps d)) (onMaps m)"
  by (auto simp: keeps_def onMaps_def split: prod.splits sum.splits) (metis snd_conv)+

lemma registerAll_keeps:
  assumes "\<And>key bs tbl. keeps p (Register kn t key affinity bs tbl)"
    and "registerAll kn t name affinity fams written keys d = (Inr u, d')"
  shows "p (kd_maps d') = p (kd_maps d)"
  using assms(2)
proof (induction keys arbitrary: d written)
  case (Cons key keys)
  obtain bs tbl where f: "get ([], []) fams (Is4 (vk_VIP key)) = (bs, tbl)" by (cases "get ([], []) fams (Is4 (vk_VIP key))")
  then obtain w where reg: "Register kn t key affinity bs tbl (kd_maps d) = (Inr (), w)"
    and rest: "registerAll kn t name affinity fams (written @ [key]) keys (d\<lparr>kd_maps := w\<rparr>) = (Inr u, d')"
    using Cons.prems by (auto split: prod.splits sum.splits)
  have "p w = p (kd_maps d)" using assms(1) [of key bs tbl] reg unfolding keeps_def by (metis snd_conv)
  then show ?case using Cons.IH [OF rest] by simp
qed simp

lemma switchTable_keeps:
  assumes "\<And>t key. keeps p (Unregister kn t key)"
  shows "keeps (\<lambda>d. p (kd_maps d)) (switchTable kn rule)"
proof -
  have "keeps (\<lambda>d. p (kd_maps d)) (forEach (\<lambda>key. onMaps (Unregister kn t key)) ks)" for t ks
    by (intro keeps_forEach onMaps_keeps assms)
  then show ?thesis unfolding keeps_def switchTable_def by (simp split: option.splits)
qed

lemma pruneKeys_keeps:
  assumes "\<And>key. keeps p (Unregister kn t key)"
  shows "keeps (\<lambda>d. p (kd_maps d)) (pruneKeys kn t name keys)"
proof -
  have m: "keeps (\<lambda>d. p (kd_maps d)) (modify (clearVPC old))" for old by (simp add: keeps_def modify_def clearVPC_def)
  have "keeps (\<lambda>d. p (kd_maps d)) (forEach (\<lambda>old. if old \<in> set keys then ret ()
      else bind (onMaps (Unregister kn t old)) (\<lambda>_. modify (clearVPC old))) ks)" for ks
    by (intro keeps_forEach keeps_intros onMaps_keeps assms m)
  then show ?thesis unfolding keeps_def pruneKeys_def by simp
qed

lemma ApplyRule_keeps:
  assumes "ApplyRule kn rule d = (Inr u, d')" "d_PortEnd rule = 0"
    and I: "\<And>key w r w'. I w \<Longrightarrow> RemoveRange kn key w = (r, w') \<Longrightarrow> I w'"
      "\<And>w w'. vip_range_table w' = vip_range_table w \<Longrightarrow> vip_owned_table w' = vip_owned_table w \<Longrightarrow> I w \<Longrightarrow> I w'"
    and "I (kd_maps d)"
  shows "I (kd_maps d')"
proof -
  let ?name = "d_Key rule" and ?p = "\<lambda>w. (vip_range_table w, vip_owned_table w)"
  have I': "I w \<Longrightarrow> I w'" if "?p w' = ?p w" for w w' using I(2) that by simp
  have un: "keeps ?p (Unregister kn t key)" and reg: "keeps ?p (Register kn t key affinity bs tbl)" for t key affinity bs tbl
    using Unregister_keeps Register_keeps by (simp_all add: keeps_def)
  obtain keys d1 affinity d2 fams d3 d4 where d1: "retireCoverage kn rule d = (Inr (), d1)"
    and d2: "switchTable kn rule d1 = (Inr (), d2)"
    and d3: "registerAll kn vipTable ?name affinity fams [] keys
      ((\<lambda>d. setVPCs (vipKeys d ?name) (d_VPCRef rule) (setVPCs keys (d_VPCRef rule) d)) (d2\<lparr>kd_rangeRules := AList.update ?name False (kd_rangeRules d2)\<rparr>)) = (Inr (), d3)"
    and d4: "pruneKeys kn vipTable ?name keys d3 = (Inr (), d4)"
    and d': "d' = d4\<lparr>kd_vipKeysByName := AList.update ?name keys (kd_vipKeysByName d4)\<rparr>"
    using assms(1,2) by (auto simp: ApplyRule_def tableFor_def activateRanges_def Let_def)
  obtain w1 where w1: "forEach (RemoveRange kn) (vipKeys d ?name) (kd_maps d) = (Inr (), w1)" "d1 = d\<lparr>kd_maps := w1\<rparr>"
    using d1 by (auto simp: retireCoverage_def forEach_onMaps split: if_splits)
  have "I w1" by (rule forEach_inv [where I = I, OF _ assms(5) w1(1)]) (rule I(1))
  then have "I (kd_maps d1)" using w1(2) by simp
  moreover have "?p (kd_maps d2) = ?p (kd_maps d1)" using keepsD [OF switchTable_keeps [of ?p kn, OF un] d2] .
  moreover have "?p (kd_maps d3) = ?p (kd_maps d2)" using registerAll_keeps [of ?p kn, OF reg d3] by simp
  moreover have "?p (kd_maps d4) = ?p (kd_maps d3)" using keepsD [OF pruneKeys_keeps [of ?p kn, OF un] d4] .
  ultimately show ?thesis using I' d' by simp
qed

lemma ApplyRule_ranges_ok:
  "ApplyRule kn rule d = (Inr u, d') \<Longrightarrow> d_PortEnd rule = 0 \<Longrightarrow> ranges_ok (kd_maps d) \<Longrightarrow> ranges_ok (kd_maps d')"
  by (rule ApplyRule_keeps [where I = ranges_ok]) (auto intro: ranges_ok_remove ranges_ok_same)

lemma ApplyRule_no_ranges:
  assumes "ApplyRule kn rule d = (Inr u, d')" "d_PortEnd rule = 0" "vip_range_table (kd_maps d) = []" "vip_owned_table (kd_maps d) = []"
  shows "vip_range_table (kd_maps d') = [] \<and> vip_owned_table (kd_maps d') = []"
proof (rule ApplyRule_keeps [OF assms(1,2), where I = "\<lambda>w. vip_range_table w = [] \<and> vip_owned_table w = []"])
  fix key w w' and r :: "edge_error + unit"
  assume "vip_range_table w = [] \<and> vip_owned_table w = []" "RemoveRange kn key w = (r, w')"
  then show "vip_range_table w' = [] \<and> vip_owned_table w' = []" using RemoveRange_cases [of kn key w r w'] by (auto simp: other_maps_def)
qed (use assms in auto)

section \<open>Properties\<close>

text \<open>A running example: the service of \<open>EdgeMap\<close>'s example as a rule, on a node without rows.\<close>

definition rule0 :: DesiredRule where
  "rule0 = \<lparr>d_Key = ''a'', d_VPCRef = ''vpc'', d_VIPAddresses = [vk_VIP vip_key0], d_Protocol = protocolTCP, d_Port = 443, d_PortEnd = 0,
     d_Affinity = affinityClientIP, d_Backends = [],
     d_IPv4Backends = [\<lparr>b_Address = eb_Addr backend0, b_Port = eb_Port backend0, b_USID = eb_USID backend0\<rparr>]\<rparr>"

definition datapath0 :: KernelDatapath where
  "datapath0 = \<lparr>kd_maps = maps0, kd_encap = replicate 15 0 @ [1], kd_rangeRules = [], kd_vipKeysByName = [], kd_vpcByKey = []\<rparr>"

lemma rule0_backends: "backendsFor rule0 (vk_VIP vip_key0) = [\<lparr>b_Address = eb_Addr backend0, b_Port = eb_Port backend0, b_USID = eb_USID backend0\<rparr>]"
  by (simp add: rule0_def backendsFor_def vip_key0_def Is4_def)

lemma backend0_wireable: "wireable (eb_Addr backend0) \<and> Is6 (eb_USID backend0) \<and> \<not> Is4In6 (eb_USID backend0)"
  by code_simp

lemma vip0_wireable: "wireable (vk_VIP vip_key0)" "Is4 (vk_VIP vip_key0)" "Zone (vk_VIP vip_key0) = []"
  by code_simp+

lemma rule0_valid:
  "works kn0" "valid_rule rule0" "valid_rule (rule0\<lparr>d_Key := n, d_Port := port\<rparr>)" "ranges_ok (kd_maps datapath0)"
  "d_PortEnd rule0 = 0" "list_all (\<lambda>a. Zone a = []) (d_VIPAddresses rule0)" "vipKeys datapath0 n = []" "zoneless []"
proof -
  show valid: "valid_rule (rule0\<lparr>d_Key := n, d_Port := port\<rparr>)" for n port
    using backend0_wireable vip0_wireable
    by (simp add: valid_rule_def rule0_def valid_backends_def backendsFor_def)
  show "valid_rule rule0" using valid [where n = "d_Key rule0" and port = "d_Port rule0"] by simp
qed (simp_all add: works_def kn0_def rule0_def datapath0_def maps0_def ranges_ok_def vipKeys_def get_def zoneless_def vip0_wireable)

lemma rule0_keys: "vipKeysForRule rule0 = Inr [vip_key0]"
  by (simp add: vipKeysForRule_def rule0_def protoNumber_def vip_key0_def)

lemma applied0: "\<exists>d'. ApplyRule kn0 rule0 datapath0 = (Inr (), d')"
  using ApplyRule_works [of kn0 rule0 datapath0] rule0_valid by simp

text \<open>C31. The lookup table a rule's backends are flattened into for the kernel: it has one backend index for
  each of its 1021 slots, every index is in range, and backend \<open>i\<close> of the \<open>n\<close> backends
  has \<open>1021 div n\<close> slots, one more for the first \<open>1021 mod n\<close> of them. The backends are the rule's, each once, in the order
  of their Maglev keys.\<close>

theorem flattened_table_shares:
  assumes "buildMaglevTable rule bs = Inr (backends, table)"
  shows "mset backends = mset (map edge_backend bs) \<and> length table = 1021 \<and> list_all (\<lambda>i. unat i < length bs) table \<and>
    (\<forall>i<length bs. count_list table (of_nat i) = 1021 div length bs + of_bool (i < 1021 mod length bs))"
  using buildMaglevTable_table(2-) [OF assms]
  by (simp add: buildMaglevTable_table(1) [OF assms] MaglevTableSize_def)

theorem flattened_table_shares_witness:
  "\<exists>backends table. buildMaglevTable rule0 (d_IPv4Backends rule0) = Inr (backends, table) \<and> backends = [backend0] \<and> length table = 1021 \<and>
     count_list table 0 = 1021"
proof -
  obtain backends table where b: "buildMaglevTable rule0 (d_IPv4Backends rule0) = Inr (backends, table)"
    using buildMaglevTable_valid [of rule0 "d_IPv4Backends rule0"] rule0_valid(2) vip0_wireable
    by (auto simp: valid_rule_def backendsFor_def rule0_def)
  have one: "d_IPv4Backends rule0 = [\<lparr>b_Address = eb_Addr backend0, b_Port = eb_Port backend0, b_USID = eb_USID backend0\<rparr>]"
    by (simp add: rule0_def)
  have "mset backends = {#backend0#} \<and> length table = 1021 \<and> count_list table 0 = 1021"
    using flattened_table_shares [OF b] by (simp add: one edge_backend_def)
  then show ?thesis using b by simp
qed

text \<open>C39. Building that table returns, and never meets a slot without a backend. It succeeds exactly for
  one to 64 backends with distinct keys and a known affinity: under a client address affinity the keys are
  the addresses, so two backends on one address are refused.\<close>

theorem flattened_table_exists:
  "case buildMaglevTable rule bs of
      Inr _ \<Rightarrow> d_Affinity rule \<in> {[], affinityNone, affinityClientIP, affinityClientIPAndProtocol} \<and> bs \<noteq> [] \<and> length bs \<le> 64 \<and>
        distinct (map (maglevKey rule) bs)
    | Inl e \<Rightarrow> e \<notin> {MaglevLoops, NilBackend} \<and>
        \<not> (d_Affinity rule \<in> {[], affinityNone, affinityClientIP, affinityClientIPAndProtocol} \<and> bs \<noteq> [] \<and> length bs \<le> 64 \<and>
          distinct (map (maglevKey rule) bs))"
proof (cases "buildMaglevTable rule bs")
  case (Inl e)
  show ?thesis unfolding Inl sum.case using buildMaglevTable_refused [OF Inl] unfolding affinityNumber_known MaxBackends_def .
next
  case (Inr p)
  obtain backends table where "p = (backends, table)" by (rule prod.exhaust)
  then show ?thesis using Inr buildMaglevTable_Inr [of rule bs backends table] unfolding affinityNumber_known MaxBackends_def by simp
qed





text \<open>C29. A service that takes over a port in the same pass in which another service gives it up loses its
  row. When the rules are applied in that order, which is the order of their names, the second apply removes
  the key from \<open>vip_table\<close> as one of its own old keys, although the first has just written it: both applies
  succeed, the key is still listed under the first rule, and no row serves it.\<close>

theorem handover_loses_row:
  assumes "ApplyRule kn a d = (Inr (), d1)" "ApplyRule kn b d1 = (Inr (), d2)" "d_Key a \<noteq> d_Key b"
    and "d_PortEnd a = 0" "d_PortEnd b = 0"
    and "list_all (\<lambda>a. Zone a = []) (d_VIPAddresses a)" "list_all (\<lambda>a. Zone a = []) (d_VIPAddresses b)"
    and "zoneless (vipKeys d (d_Key a))" "zoneless (vipKeys d (d_Key b))"
    and "vipKeysForRule a = Inr ka" "vipKeysForRule b = Inr kb" "k \<in> set ka" "k \<in> set (vipKeys d (d_Key b))" "k \<notin> set kb"
  shows "serves d1 a k \<and> k \<in> set (vipKeys d2 (d_Key a)) \<and> \<not> serves d2 a k"
proof -
  obtain ka' where ra: "vipKeysForRule a = Inr ka'" "\<And>n. vipKeys d1 n = (if n = d_Key a then ka' else vipKeys d n)"
    "\<And>key. key \<in> set ka' \<Longrightarrow> serves d1 a key"
    by (rule ApplyRule_Inr [OF assms(1,4,6,8)]) blast
  have old: "vipKeys d1 (d_Key b) = vipKeys d (d_Key b)" using ra(2) assms(3) by simp
  obtain kb' where rb: "vipKeysForRule b = Inr kb'" "\<And>n. vipKeys d2 n = (if n = d_Key b then kb' else vipKeys d1 n)"
    and other: "\<And>wk. \<forall>key\<in>set kb'. toWireKey key \<noteq> Inr wk \<Longrightarrow> map_of (vip_table (kd_maps d2)) wk =
       (if \<exists>old\<in>set (vipKeys d1 (d_Key b)). toWireKey old = Inr wk then None else map_of (vip_table (kd_maps d1)) wk)"
    by (rule ApplyRule_Inr [OF assms(2,5,7)]) (use old assms(9) in auto)
  have eq: "ka' = ka" "kb' = kb" using ra(1) rb(1) assms(10,11) by simp_all
  have zb: "zoneless kb" using assms(11,7) by (rule vipKeysForRule_zoneless)
  have "map_of (vip_table (kd_maps d2)) wk = None" if k: "toWireKey k = Inr wk" for wk
  proof -
    have "toWireKey key \<noteq> Inr wk" if "key \<in> set kb" for key
      using toWireKey_inj [OF _ k, of key] assms(9,13,14) that zb by (auto simp: zoneless_def list_all_iff)
    then show ?thesis using other [of wk] k old eq assms(13) by auto
  qed
  then have "\<not> serves d2 a k" by (auto simp: serves_def)
  then show ?thesis using ra rb eq assms(3,12) by auto
qed

text \<open>Two services on one address: \<open>a\<close> moves to port 443 while \<open>b\<close> moves from it to port 8443.\<close>

definition rule_b0 :: "u16 \<Rightarrow> DesiredRule" where
  "rule_b0 port = rule0\<lparr>d_Key := ''b'', d_Port := port\<rparr>"

theorem handover_loses_row_witness:
  "\<exists>d d1 d2. ApplyRule kn0 (rule_b0 443) datapath0 = (Inr (), d) \<and> ApplyRule kn0 rule0 d = (Inr (), d1) \<and>
     ApplyRule kn0 (rule_b0 8443) d1 = (Inr (), d2) \<and> serves d1 rule0 vip_key0 \<and>
     vip_key0 \<in> set (vipKeys d2 ''a'') \<and> \<not> serves d2 rule0 vip_key0"
proof -
  have b: "valid_rule (rule_b0 port)" "d_PortEnd (rule_b0 port) = 0" "list_all (\<lambda>a. Zone a = []) (d_VIPAddresses (rule_b0 port))"
    "d_Key (rule_b0 port) = ''b''" "d_Key rule0 = ''a''" "vipKeysForRule (rule_b0 port) = Inr [vip_key0\<lparr>vk_VPort := port\<rparr>]" for port
    using rule0_valid(3,5,6) by (simp_all add: rule_b0_def rule0_def vipKeysForRule_def protoNumber_def vip_key0_def)
  have k: "wireable (vk_VIP vip_key0)" "Zone (vk_VIP vip_key0) = []" by (rule vip0_wireable)+
  have p: "vip_key0\<lparr>vk_VPort := 443\<rparr> = vip_key0" "vip_key0\<lparr>vk_VPort := 8443\<rparr> \<noteq> vip_key0"
    by (simp_all add: vip_key0_def)
  obtain d where d: "ApplyRule kn0 (rule_b0 443) datapath0 = (Inr (), d)"
    using ApplyRule_works [OF rule0_valid(1) b(1) rule0_valid(4)] by (auto simp: rule0_valid(7))
  then have keys: "vipKeys d n = (if n = ''b'' then [vip_key0] else [])" for n
    by (rule ApplyRule_Inr) (simp_all add: b k p rule0_valid)
  have r: "ranges_ok (kd_maps d)" using d b(2) rule0_valid(4) by (rule ApplyRule_ranges_ok)
  obtain d1 where d1: "ApplyRule kn0 rule0 d = (Inr (), d1)"
    using ApplyRule_works [OF rule0_valid(1,2) r] by (auto simp: keys b)
  then have keys1: "vipKeys d1 ''b'' = [vip_key0]"
    by (rule ApplyRule_Inr) (simp_all add: b k p rule0_valid keys)
  have r1: "ranges_ok (kd_maps d1)" using d1 rule0_valid(5) r by (rule ApplyRule_ranges_ok)
  obtain d2 where d2: "ApplyRule kn0 (rule_b0 8443) d1 = (Inr (), d2)"
    using ApplyRule_works [OF rule0_valid(1) b(1) r1] by (auto simp: keys1 b k)
  have "serves d1 rule0 vip_key0 \<and> vip_key0 \<in> set (vipKeys d2 (d_Key rule0)) \<and> \<not> serves d2 rule0 vip_key0"
    by (rule handover_loses_row [OF d1 d2 _ _ _ _ _ _ _ rule0_keys b(6)]) (use k p in \<open>simp_all add: b keys rule0_valid zoneless_def\<close>)
  then show ?thesis using d d1 d2 b(5) by auto
qed

end
