(* ===== verification/GatewayEngine.thy ===== *)
theory GatewayEngine
  imports KernelDatapath
begin

text \<open>
  \<open>internal/gateway/engine.go\<close>, \<open>recovery.go\<close> and the interfaces of \<open>datapath.go\<close>: the engine that converges
  a gateway node's rules toward a desired state. The engine is generic in its datapath and its quota
  enforcer, whose operations it gets as a record of functions over their states; a capability that the code
  looks for with a type assertion is an optional operation. Errors are their texts, as in the statuses. Go
  maps are association lists and \<open>dirty\<close> a list without repetitions; where the code ranges over a map the
  model takes the order of the list. The mutex, which every method that touches the state holds throughout,
  is left out. The locales state what the engine relies on from the two interfaces; they are interpreted on
  \<open>KernelDatapath\<close> and \<open>NodeQuotaEnforcer\<close>.
\<close>

section \<open>The interfaces (datapath.go)\<close>

datatype event = RuleApplied DesiredRule | RuleRemoved string | DropObserved string string

record ('d, 'q) engine_ops =
  op_ApplyRule :: "DesiredRule \<Rightarrow> 'd \<Rightarrow> (string + unit) \<times> 'd"
  op_RemoveRule :: "string \<Rightarrow> 'd \<Rightarrow> (string + unit) \<times> 'd"
  op_Generation :: "'d \<Rightarrow> u64 \<times> 'd"
  op_ReconcileOrphans :: "DesiredRule list \<Rightarrow> u64 \<Rightarrow> 'd \<Rightarrow> (string + unit) \<times> 'd"
  op_SetOwnedVIPs :: "(addr list \<Rightarrow> 'd \<Rightarrow> (string + unit) \<times> 'd) option"
  op_SetBlockedVIPs :: "(addr list \<Rightarrow> 'd \<Rightarrow> (string + unit) \<times> 'd) option"
  op_RenewVIPs :: "(addr list \<Rightarrow> 'd \<Rightarrow> (string + unit) \<times> 'd) option"
  op_OwnedVIPs :: "('d \<Rightarrow> (string + addr list) \<times> 'd) option"
  op_SupportsPortRanges :: "('d \<Rightarrow> bool) option"
  op_SupportsOwnedVIPs :: "('d \<Rightarrow> bool) option"
  op_CheckAndReserve :: "DesiredRule \<Rightarrow> 'q \<Rightarrow> (string + bool) \<times> 'q"
  op_Release :: "string \<Rightarrow> 'q \<Rightarrow> (string + unit) \<times> 'q"

text \<open>\<open>NoopDatapath\<close> and \<open>NoopQuotaEnforcer\<close>.\<close>

definition noop_ops :: "(unit, unit) engine_ops" where
  "noop_ops = \<lparr>op_ApplyRule = \<lambda>_ d. (Inr (), d), op_RemoveRule = \<lambda>_ d. (Inr (), d), op_Generation = \<lambda>d. (0, d),
     op_ReconcileOrphans = \<lambda>_ _ d. (Inr (), d), op_SetOwnedVIPs = None, op_SetBlockedVIPs = None, op_RenewVIPs = None,
     op_OwnedVIPs = None, op_SupportsPortRanges = None, op_SupportsOwnedVIPs = None,
     op_CheckAndReserve = \<lambda>_ q. (Inr True, q), op_Release = \<lambda>_ q. (Inr (), q)\<rparr>"

section \<open>The engine (engine.go)\<close>

record ('d, 'q) Engine =
  e_active :: rule_map
  e_pending :: rule_map
  e_dirty :: "string list"
  e_datapath :: 'd
  e_quota :: 'q
  e_telemetry :: "event list"

definition NewEngine :: "'d \<Rightarrow> 'q \<Rightarrow> ('d, 'q) Engine" where
  "NewEngine datapath quota = \<lparr>e_active = [], e_pending = [], e_dirty = [], e_datapath = datapath, e_quota = quota, e_telemetry = []\<rparr>"

definition emit :: "event \<Rightarrow> ('d, 'q) Engine \<Rightarrow> ('d, 'q) Engine" where
  "emit ev e = e\<lparr>e_telemetry := e_telemetry e @ [ev]\<rparr>"

definition mark :: "string \<Rightarrow> ('d, 'q) Engine \<Rightarrow> ('d, 'q) Engine" where
  "mark key e = e\<lparr>e_dirty := List.insert key (e_dirty e)\<rparr>"

definition unmark :: "string \<Rightarrow> ('d, 'q) Engine \<Rightarrow> ('d, 'q) Engine" where
  "unmark key e = e\<lparr>e_dirty := removeAll key (e_dirty e)\<rparr>"

definition inventory :: "('d, 'q) Engine \<Rightarrow> rule_map" where
  "inventory e = fold (\<lambda>(key, rule). AList.update key rule) (e_pending e) (e_active e)"

text \<open>A prefix put before the text of an error, as \<open>fmt.Errorf\<close> with \<open>%w\<close> does.\<close>

definition wrapped :: "string \<Rightarrow> string \<Rightarrow> string \<Rightarrow> string" where
  "wrapped what key err = what @ '' '' @ key @ '': '' @ err"

definition removeRuleLocked :: "('d, 'q) engine_ops \<Rightarrow> string \<Rightarrow> ('d, 'q) Engine \<Rightarrow> (string + unit) \<times> ('d, 'q) Engine" where
  "removeRuleLocked ops key e =
     (case op_RemoveRule ops key (e_datapath e) of
        (Inl err, d) \<Rightarrow> (Inl (wrapped ''remove datapath rule'' key err), e\<lparr>e_datapath := d\<rparr>)
      | (Inr _, d) \<Rightarrow>
         (case op_Release ops key (e_quota e) of
            (Inl err, q) \<Rightarrow> (Inl (wrapped ''release quota for'' key err), e\<lparr>e_datapath := d, e_quota := q\<rparr>)
          | (Inr _, q) \<Rightarrow> (Inr (), emit (RuleRemoved key)
              (e\<lparr>e_datapath := d, e_quota := q, e_pending := AList.delete key (e_pending e)\<rparr>))))"

definition applyRuleLocked :: "('d, 'q) engine_ops \<Rightarrow> DesiredRule \<Rightarrow> ('d, 'q) Engine \<Rightarrow> (string + unit) \<times> ('d, 'q) Engine" where
  "applyRuleLocked ops rule e =
     (let key = d_Key rule in
      case op_CheckAndReserve ops rule (e_quota e) of
        (Inl err, q) \<Rightarrow> (Inl (wrapped ''quota check for'' key err), e\<lparr>e_quota := q\<rparr>)
      | (Inr False, q) \<Rightarrow> (Inl (''rule '' @ key @ '' exceeds its per-tenant quota''),
          emit (DropObserved key ''quota_exceeded'') (e\<lparr>e_quota := q\<rparr>))
      | (Inr True, q) \<Rightarrow>
         (let e1 = e\<lparr>e_quota := q, e_pending := AList.update key rule (e_pending e)\<rparr> in
          case op_ApplyRule ops rule (e_datapath e1) of
            (Inl err, d) \<Rightarrow>
              (case op_RemoveRule ops key d of
                 (Inl cleanupErr, d') \<Rightarrow>
                   (Inl (wrapped ''apply datapath rule'' key err @ ''\<newline>'' @ wrapped ''rollback rule'' key cleanupErr), e1\<lparr>e_datapath := d'\<rparr>)
               | (Inr _, d') \<Rightarrow>
                   (let e2 = e1\<lparr>e_datapath := d', e_pending := AList.delete key (e_pending e1)\<rparr> in
                    case op_Release ops key (e_quota e2) of
                      (Inl relErr, q') \<Rightarrow> (Inl (wrapped ''apply datapath rule'' key err @ ''\<newline>'' @ relErr), e2\<lparr>e_quota := q'\<rparr>)
                    | (Inr _, q') \<Rightarrow> (Inl (wrapped ''apply datapath rule'' key err), e2\<lparr>e_quota := q'\<rparr>)))
          | (Inr _, d) \<Rightarrow>
              (Inr (), emit (RuleApplied rule) (e1\<lparr>e_datapath := d, e_pending := AList.delete key (e_pending e1)\<rparr>))))"

definition rulesOverlap :: "DesiredRule \<Rightarrow> DesiredRule \<Rightarrow> bool" where
  "rulesOverlap a b =
     (if d_Protocol a \<noteq> d_Protocol b \<or> d_Port a > portEnd b \<or> d_Port b > portEnd a then False
      else \<exists>addr \<in> set (d_VIPAddresses a). addr \<in> set (d_VIPAddresses b))"

definition ruleConflictsLocked :: "('d, 'q) Engine \<Rightarrow> string \<Rightarrow> DesiredRule \<Rightarrow> string list \<Rightarrow> bool" where
  "ruleConflictsLocked e key rule toRemove =
     (if \<exists>removed \<in> set toRemove. (case map_of (e_active e) removed of None \<Rightarrow> False | Some old \<Rightarrow> rulesOverlap old rule) then True
      else if \<exists>(oldKey, old) \<in> set (e_active e). oldKey \<noteq> key \<and>
                (oldKey \<in> set (e_dirty e) \<or> map_of (e_pending e) oldKey \<noteq> None) \<and> rulesOverlap old rule then True
      else \<exists>(oldKey, old) \<in> set (e_pending e). oldKey \<noteq> key \<and> rulesOverlap old rule)"

definition status_ok :: "string \<Rightarrow> RuleStatus" where
  "status_ok key = \<lparr>s_VIPAddresses = [], s_Key = key, s_Applied = True, s_Error = []\<rparr>"

definition status_error :: "string \<Rightarrow> bool \<Rightarrow> string \<Rightarrow> RuleStatus" where
  "status_error key applied err = \<lparr>s_VIPAddresses = [], s_Key = key, s_Applied = applied, s_Error = err\<rparr>"

fun removeRules :: "('d, 'q) engine_ops \<Rightarrow> string list \<Rightarrow> ('d, 'q) Engine \<Rightarrow> RuleStatus list \<times> ('d, 'q) Engine" where
  "removeRules ops [] e = ([], e)"
| "removeRules ops (key # keys) e =
     (case removeRuleLocked ops key e of
        (Inl err, e1) \<Rightarrow> (case removeRules ops keys (mark key e1) of (ss, e2) \<Rightarrow> (status_error key True err # ss, e2))
      | (Inr _, e1) \<Rightarrow> removeRules ops keys (unmark key (e1\<lparr>e_active := AList.delete key (e_active e1)\<rparr>)))"

text \<open>One rule of the apply loop.\<close>

definition applyKey :: "('d, 'q) engine_ops \<Rightarrow> string list \<Rightarrow> string \<Rightarrow> DesiredRule \<Rightarrow> ('d, 'q) Engine \<Rightarrow> RuleStatus \<times> ('d, 'q) Engine" where
  "applyKey ops toRemove key rule e =
     (if ruleConflictsLocked e key rule toRemove then (status_error key False ''conflicting prior rule has not withdrawn'', e)
      else case (if map_of (e_pending e) key \<noteq> None then removeRuleLocked ops key e else (Inr (), e)) of
        (Inl err, e1) \<Rightarrow> (status_error key False err, e1)
      | (Inr _, e1) \<Rightarrow>
         (case applyRuleLocked ops rule e1 of
            (Inl err, e2) \<Rightarrow>
              (status_error key False err,
               if map_of (e_active e2) key \<noteq> None \<or> map_of (e_pending e2) key \<noteq> None then mark key e2 else e2)
          | (Inr _, e2) \<Rightarrow> (status_ok key, unmark key (e2\<lparr>e_active := AList.update key rule (e_active e2)\<rparr>))))"

definition zeroRule :: DesiredRule where
  "zeroRule = \<lparr>d_Key = [], d_VPCRef = [], d_VIPAddresses = [], d_Protocol = [], d_Port = 0, d_PortEnd = 0, d_Affinity = [],
     d_Backends = [], d_IPv4Backends = []\<rparr>"

fun applyRules :: "('d, 'q) engine_ops \<Rightarrow> string list \<Rightarrow> rule_map \<Rightarrow> string list \<Rightarrow> ('d, 'q) Engine \<Rightarrow> RuleStatus list \<times> ('d, 'q) Engine" where
  "applyRules ops toRemove desired [] e = ([], e)"
| "applyRules ops toRemove desired (key # keys) e =
     (case applyKey ops toRemove key (get zeroRule desired key) e of (s, e1) \<Rightarrow>
      case applyRules ops toRemove desired keys e1 of (ss, e2) \<Rightarrow> (s # ss, e2))"

definition addMissing :: "'a list \<Rightarrow> 'a list \<Rightarrow> 'a list" where
  "addMissing xs ys = fold (\<lambda>y acc. if y \<in> set acc then acc else acc @ [y]) ys xs"

definition annotateRuleVIPs :: "RuleStatus list \<Rightarrow> rule_map \<Rightarrow> rule_map \<Rightarrow> rule_map \<Rightarrow> RuleStatus list" where
  "annotateRuleVIPs statuses prior active desired =
     map (\<lambda>s. s\<lparr>s_VIPAddresses := addMissing (d_VIPAddresses (get zeroRule prior (s_Key s)))
       (d_VIPAddresses (get zeroRule desired (s_Key s)) @ d_VIPAddresses (get zeroRule active (s_Key s)))\<rparr>) statuses"

definition reconcileKeys :: "rule_map \<Rightarrow> ('d, 'q) Engine \<Rightarrow> string list \<times> string list" where
  "reconcileKeys desired e =
     (case diffRuleKeys (inventory e) desired of (toApply, toRemove) \<Rightarrow>
        (sort (toApply @ filter (\<lambda>key. map_of desired key \<noteq> None \<and> key \<notin> set toApply) (e_dirty e)), toRemove))"

definition engine_Reconcile :: "('d, 'q) engine_ops \<Rightarrow> rule_map \<Rightarrow> ('d, 'q) Engine \<Rightarrow> EngineStatus \<times> ('d, 'q) Engine" where
  "engine_Reconcile ops desired e =
     (case reconcileKeys desired e of (toApply, toRemove) \<Rightarrow>
      let unchanged = map status_ok (filter (\<lambda>key. key \<notin> set toApply) (map fst desired)) in
      case removeRules ops toRemove e of (removed, e1) \<Rightarrow>
      case applyRules ops toRemove desired toApply e1 of (applied, e2) \<Rightarrow>
      let statuses = unchanged @ removed @ applied in
      (\<lparr>es_Healthy = list_all (\<lambda>s. s_Error s = []) statuses,
        es_Rules = annotateRuleVIPs statuses (inventory e) (e_active e2) desired\<rparr>, e2))"

definition engine_Status :: "('d, 'q) Engine \<Rightarrow> EngineStatus" where
  "engine_Status e = \<lparr>es_Healthy = True, es_Rules = map status_ok (map fst (e_active e))\<rparr>"

fun stopRules :: "('d, 'q) engine_ops \<Rightarrow> string list \<Rightarrow> string option \<Rightarrow> ('d, 'q) Engine \<Rightarrow> (string + unit) \<times> ('d, 'q) Engine" where
  "stopRules ops [] firstErr e = (case firstErr of None \<Rightarrow> (Inr (), e) | Some err \<Rightarrow> (Inl err, e))"
| "stopRules ops (key # keys) firstErr e =
     (case removeRuleLocked ops key e of
        (Inl err, e1) \<Rightarrow> stopRules ops keys
          (Some (case firstErr of None \<Rightarrow> wrapped ''stop: remove rule'' key err | Some err0 \<Rightarrow> err0)) (mark key e1)
      | (Inr _, e1) \<Rightarrow> stopRules ops keys firstErr (unmark key (e1\<lparr>e_active := AList.delete key (e_active e1)\<rparr>)))"

definition engine_Stop :: "('d, 'q) engine_ops \<Rightarrow> ('d, 'q) Engine \<Rightarrow> (string + unit) \<times> ('d, 'q) Engine" where
  "engine_Stop ops e = stopRules ops (remdups (map fst (e_active e) @ map fst (e_pending e))) None e"

definition DatapathGeneration :: "('d, 'q) engine_ops \<Rightarrow> ('d, 'q) Engine \<Rightarrow> u64 \<times> ('d, 'q) Engine" where
  "DatapathGeneration ops e = (case op_Generation ops (e_datapath e) of (g, d) \<Rightarrow> (g, e\<lparr>e_datapath := d\<rparr>))"

section \<open>Guards (engine.go) and recovery (recovery.go)\<close>

text \<open>A call of an optional capability that takes a list of addresses: without it, an empty list is fine.\<close>

definition guarded :: "(addr list \<Rightarrow> 'd \<Rightarrow> (string + unit) \<times> 'd) option \<Rightarrow> string \<Rightarrow> addr list \<Rightarrow> ('d, 'q) Engine \<Rightarrow>
    (string + unit) \<times> ('d, 'q) Engine" where
  "guarded cap missing addrs e =
     (case cap of
        None \<Rightarrow> (if addrs = [] then (Inr (), e) else (Inl missing, e))
      | Some f \<Rightarrow> (case f addrs (e_datapath e) of (r, d) \<Rightarrow> (r, e\<lparr>e_datapath := d\<rparr>)))"

definition engine_SetOwnedVIPs :: "('d, 'q) engine_ops \<Rightarrow> addr list \<Rightarrow> ('d, 'q) Engine \<Rightarrow> (string + unit) \<times> ('d, 'q) Engine" where
  "engine_SetOwnedVIPs ops = guarded (op_SetOwnedVIPs ops) ''datapath does not support owned VIP protection''"

definition engine_SetBlockedVIPs :: "('d, 'q) engine_ops \<Rightarrow> addr list \<Rightarrow> ('d, 'q) Engine \<Rightarrow> (string + unit) \<times> ('d, 'q) Engine" where
  "engine_SetBlockedVIPs ops = guarded (op_SetBlockedVIPs ops) ''datapath does not support owned VIP blocking''"

definition engine_RenewVIPs :: "('d, 'q) engine_ops \<Rightarrow> addr list \<Rightarrow> ('d, 'q) Engine \<Rightarrow> (string + unit) \<times> ('d, 'q) Engine" where
  "engine_RenewVIPs ops = guarded (op_RenewVIPs ops) ''datapath does not support selective owned VIP renewal''"

definition engine_OwnedVIPs :: "('d, 'q) engine_ops \<Rightarrow> ('d, 'q) Engine \<Rightarrow> (string + addr list) \<times> ('d, 'q) Engine" where
  "engine_OwnedVIPs ops e =
     (case op_OwnedVIPs ops of None \<Rightarrow> (Inr [], e) | Some f \<Rightarrow> (case f (e_datapath e) of (r, d) \<Rightarrow> (r, e\<lparr>e_datapath := d\<rparr>)))"

definition SupportsPortRanges :: "('d, 'q) engine_ops \<Rightarrow> ('d, 'q) Engine \<Rightarrow> bool" where
  "SupportsPortRanges ops e = (case op_SupportsPortRanges ops of None \<Rightarrow> False | Some f \<Rightarrow> f (e_datapath e))"

definition SupportsOwnedVIPs :: "('d, 'q) engine_ops \<Rightarrow> ('d, 'q) Engine \<Rightarrow> bool" where
  "SupportsOwnedVIPs ops e = (case op_SupportsOwnedVIPs ops of Some f \<Rightarrow> f (e_datapath e) | None \<Rightarrow> op_SetOwnedVIPs ops \<noteq> None)"

definition ChangedVIPs :: "rule_map \<Rightarrow> ('d, 'q) Engine \<Rightarrow> addr list" where
  "ChangedVIPs desired e =
     (case diffRuleKeys (inventory e) desired of (toApply, toRemove) \<Rightarrow>
        remdups (concat (map (\<lambda>key. d_VIPAddresses (get zeroRule (inventory e) key) @ d_VIPAddresses (get zeroRule (e_active e) key) @
            d_VIPAddresses (get zeroRule desired key))
          (toApply @ toRemove @ e_dirty e @ map fst (e_pending e)))))"

definition engine_ReconcileOrphans :: "('d, 'q) engine_ops \<Rightarrow> rule_map \<Rightarrow> u64 \<Rightarrow> ('d, 'q) Engine \<Rightarrow> (string + unit) \<times> ('d, 'q) Engine" where
  "engine_ReconcileOrphans ops desired cutoff e =
     (case op_ReconcileOrphans ops (map snd desired) cutoff (e_datapath e) of
        (Inl err, d) \<Rightarrow> (Inl (''reconcile orphaned datapath state: '' @ err), e\<lparr>e_datapath := d\<rparr>)
      | (Inr _, d) \<Rightarrow> (Inr (), e\<lparr>e_datapath := d\<rparr>))"

section \<open>Steps of the engine\<close>

lemma frames [simp]:
  "e_active (emit ev e) = e_active e" "e_pending (emit ev e) = e_pending e" "e_dirty (emit ev e) = e_dirty e"
  "e_datapath (emit ev e) = e_datapath e" "e_quota (emit ev e) = e_quota e"
  "e_active (mark k e) = e_active e" "e_pending (mark k e) = e_pending e" "set (e_dirty (mark k e)) = insert k (set (e_dirty e))"
  "e_datapath (mark k e) = e_datapath e" "e_quota (mark k e) = e_quota e"
  "e_active (unmark k e) = e_active e" "e_pending (unmark k e) = e_pending e" "set (e_dirty (unmark k e)) = set (e_dirty e) - {k}"
  "e_datapath (unmark k e) = e_datapath e" "e_quota (unmark k e) = e_quota e"
  by (auto simp: emit_def mark_def unmark_def)

lemma wrapped_nonempty [simp]: "wrapped what key err \<noteq> []"
  by (simp add: wrapped_def)

lemma removeRuleLocked_cases:
  assumes "removeRuleLocked ops key e = (r, e')"
  shows "e_active e' = e_active e \<and> e_dirty e' = e_dirty e \<and>
    (r = Inr () \<and> e_pending e' = AList.delete key (e_pending e) \<or> (\<exists>err. r = Inl err \<and> err \<noteq> []) \<and> e_pending e' = e_pending e)"
proof -
  obtain r1 d where r1: "op_RemoveRule ops key (e_datapath e) = (r1, d)" by (rule prod.exhaust)
  obtain r2 q where r2: "op_Release ops key (e_quota e) = (r2, q)" by (rule prod.exhaust)
  from r1 r2 show ?thesis using assms by (cases r1; cases r2) (clarsimp simp: removeRuleLocked_def)+
qed

lemma applyRuleLocked_cases:
  assumes "applyRuleLocked ops rule e = (r, e')"
  shows "e_active e' = e_active e \<and> e_dirty e' = e_dirty e \<and>
    (r = Inr () \<and> map_of (e_pending e') = (map_of (e_pending e))(d_Key rule := None) \<or>
     (\<exists>err. r = Inl err \<and> err \<noteq> []) \<and>
       (\<exists>p \<in> {None, Some rule, map_of (e_pending e) (d_Key rule)}. map_of (e_pending e') = (map_of (e_pending e))(d_Key rule := p)))"
proof -
  obtain r1 q where r1: "op_CheckAndReserve ops rule (e_quota e) = (r1, q)" by (rule prod.exhaust)
  obtain r2 d where r2: "op_ApplyRule ops rule (e_datapath e) = (r2, d)" by (rule prod.exhaust)
  obtain r3 d' where r3: "op_RemoveRule ops (d_Key rule) d = (r3, d')" by (rule prod.exhaust)
  obtain r4 q' where r4: "op_Release ops (d_Key rule) q = (r4, q')" by (rule prod.exhaust)
  show ?thesis
  proof (cases "r1 = Inr True")
    case True
    then show ?thesis using assms r1 r2 r3 r4
      by (cases r2; cases r3; cases r4) (clarsimp simp: applyRuleLocked_def Let_def update_conv' delete_conv')+
  next
    case False
    then have "(\<exists>err. r = Inl err \<and> err \<noteq> []) \<and> e_active e' = e_active e \<and> e_dirty e' = e_dirty e \<and> e_pending e' = e_pending e"
      using assms r1 by (cases r1) (clarsimp simp: applyRuleLocked_def Let_def split: bool.splits)+
    then show ?thesis by auto
  qed
qed

text \<open>What a step makes of its own key; the other keys are as before.\<close>

definition untouched :: "('d, 'q) Engine \<Rightarrow> ('d, 'q) Engine \<Rightarrow> string \<Rightarrow> bool" where
  "untouched e e' k \<longleftrightarrow> map_of (e_active e') k = map_of (e_active e) k \<and> map_of (e_pending e') k = map_of (e_pending e) k \<and>
     (k \<in> set (e_dirty e') \<longleftrightarrow> k \<in> set (e_dirty e))"

definition settled :: "('d, 'q) Engine \<Rightarrow> string \<Rightarrow> DesiredRule option \<Rightarrow> bool" where
  "settled e k r \<longleftrightarrow> map_of (e_active e) k = r \<and> map_of (e_pending e) k = None \<and> k \<notin> set (e_dirty e)"

lemma untouched_trans: "untouched e e1 k \<Longrightarrow> untouched e1 e2 k \<Longrightarrow> untouched e e2 k"
  by (simp add: untouched_def)

lemma untouched_refl [simp]: "untouched e e k"
  by (simp add: untouched_def)

lemma untouched_settled: "untouched e e' k \<Longrightarrow> settled e' k r = settled e k r"
  by (auto simp: untouched_def settled_def)

definition stalled :: "('d, 'q) Engine \<Rightarrow> ('d, 'q) Engine \<Rightarrow> string \<Rightarrow> DesiredRule option \<Rightarrow> bool" where
  "stalled e e' k r \<longleftrightarrow> map_of (e_active e') k = map_of (e_active e) k \<and> map_of (e_pending e') k \<in> {None, r, map_of (e_pending e) k}"

lemma applyKey_cases:
  assumes "applyKey ops toRemove key rule e = (s, e')" "d_Key rule = key"
  shows "s_Key s = key \<and> (\<forall>k. k \<noteq> key \<longrightarrow> untouched e e' k) \<and>
    (s = status_ok key \<and> settled e' key (Some rule) \<or> s_Error s \<noteq> [] \<and> stalled e e' key (Some rule))"
proof (cases "ruleConflictsLocked e key rule toRemove")
  case True
  then show ?thesis using assms by (auto simp: applyKey_def status_error_def untouched_def stalled_def)
next
  case False
  obtain r1 e1 where r1: "(if map_of (e_pending e) key \<noteq> None then removeRuleLocked ops key e else (Inr (), e)) = (r1, e1)"
    by (cases "if map_of (e_pending e) key \<noteq> None then removeRuleLocked ops key e else (Inr (), e)")
  have e1: "e_active e1 = e_active e" "e_dirty e1 = e_dirty e"
    "r1 = Inr () \<and> map_of (e_pending e1) = (map_of (e_pending e))(key := None) \<or> (\<exists>err. r1 = Inl err \<and> err \<noteq> []) \<and> e_pending e1 = e_pending e"
    using r1 removeRuleLocked_cases [of ops key e r1 e1] by (auto simp: delete_conv' split: if_splits)
  show ?thesis
  proof (cases r1)
    case (Inl err)
    then show ?thesis using assms False r1 e1 by (auto simp: applyKey_def status_error_def untouched_def stalled_def)
  next
    case (Inr u)
    obtain r2 e2 where r2: "applyRuleLocked ops rule e1 = (r2, e2)" by (cases "applyRuleLocked ops rule e1")
    note c = applyRuleLocked_cases [OF r2]
    show ?thesis
    proof (cases r2)
      case (Inl err)
      then show ?thesis using assms False r1 r2 e1 c \<open>r1 = Inr u\<close>
        by (auto simp: applyKey_def status_error_def untouched_def stalled_def split: if_splits)
    next
      case (Inr v)
      then show ?thesis using assms False r1 r2 e1 c \<open>r1 = Inr u\<close>
        by (auto simp: applyKey_def status_ok_def untouched_def settled_def update_conv' split: if_splits)
    qed
  qed
qed

lemma applyRules_cases:
  assumes "applyRules ops toRemove desired keys e = (ss, e')" "distinct keys" "\<forall>k\<in>set keys. d_Key (get zeroRule desired k) = k"
  shows "(\<forall>k. k \<notin> set keys \<longrightarrow> untouched e e' k) \<and> map s_Key ss = keys \<and>
    (\<forall>s\<in>set ss. s = status_ok (s_Key s) \<and> settled e' (s_Key s) (Some (get zeroRule desired (s_Key s))) \<or>
       s_Error s \<noteq> [] \<and> stalled e e' (s_Key s) (Some (get zeroRule desired (s_Key s))))"
  using assms
proof (induction keys arbitrary: e ss)
  case (Cons key keys)
  obtain s e1 ss1 where s: "applyKey ops toRemove key (get zeroRule desired key) e = (s, e1)"
    and ss: "applyRules ops toRemove desired keys e1 = (ss1, e')" "ss = s # ss1"
    using Cons.prems(1) by (auto split: prod.splits)
  have d: "d_Key (get zeroRule desired key) = key" "key \<notin> set keys" "distinct keys" "\<forall>k\<in>set keys. d_Key (get zeroRule desired k) = k"
    using Cons.prems by simp_all
  have ke: "s_Key s = key" "\<forall>k. k \<noteq> key \<longrightarrow> untouched e e1 k"
    "s = status_ok key \<and> settled e1 key (Some (get zeroRule desired key)) \<or> s_Error s \<noteq> [] \<and> stalled e e1 key (Some (get zeroRule desired key))"
    using applyKey_cases [OF s d(1)] by blast+
  note IH = Cons.IH [OF ss(1) d(3,4)]
  note frame = conjunct1 [OF IH] and ks = conjunct1 [OF conjunct2 [OF IH]] and st = conjunct2 [OF conjunct2 [OF IH]]
  have own: "untouched e1 e' key" using frame d(2) by simp
  have head: "s = status_ok key \<and> settled e' key (Some (get zeroRule desired key)) \<or>
      s_Error s \<noteq> [] \<and> stalled e e' key (Some (get zeroRule desired key))"
    using ke(3) own untouched_settled [OF own] by (simp add: stalled_def untouched_def)
  have tail: "stalled e e' (s_Key t) r" if "t \<in> set ss1" "stalled e1 e' (s_Key t) r" for t r
  proof -
    have "s_Key t \<in> set keys" using ks that(1) by (metis image_eqI list.set_map)
    then have "untouched e e1 (s_Key t)" using ke(2) d(2) by metis
    then show ?thesis using that(2) by (simp add: stalled_def untouched_def)
  qed
  have "untouched e e' k" if "k \<notin> set (key # keys)" for k using ke(2) frame that untouched_trans [of e e1 k e'] by simp
  moreover have "map s_Key ss = key # keys" using ke(1) ks ss(2) by simp
  moreover have "t = status_ok (s_Key t) \<and> settled e' (s_Key t) (Some (get zeroRule desired (s_Key t))) \<or>
       s_Error t \<noteq> [] \<and> stalled e e' (s_Key t) (Some (get zeroRule desired (s_Key t)))" if "t \<in> set ss" for t
  proof (cases "t \<in> set ss1")
    case True
    from bspec [OF st this] show ?thesis
    proof
      assume "s_Error t \<noteq> [] \<and> stalled e1 e' (s_Key t) (Some (get zeroRule desired (s_Key t)))"
      then show ?thesis using tail [OF True] by blast
    qed blast
  next
    case False
    then have t: "t = s" using that ss(2) by simp
    show ?thesis using head unfolding t ke(1) .
  qed
  ultimately show ?case by blast
qed simp

lemma removeRules_cases:
  assumes "removeRules ops keys e = (ss, e')" "distinct keys"
  shows "(\<forall>k. k \<notin> set keys \<longrightarrow> untouched e e' k) \<and> (\<forall>s\<in>set ss. s_Error s \<noteq> [] \<and> s_Key s \<in> set keys) \<and>
    (\<forall>k\<in>set keys. settled e' k None \<or> k \<in> s_Key ` set ss \<and> map_of (e_active e') k = map_of (e_active e) k \<and> map_of (e_pending e') k = map_of (e_pending e) k)"
  using assms
proof (induction keys arbitrary: e ss)
  case (Cons key keys)
  obtain r e1 where r: "removeRuleLocked ops key e = (r, e1)" by (cases "removeRuleLocked ops key e")
  note c = removeRuleLocked_cases [OF r]
  have d: "key \<notin> set keys" "distinct keys" using Cons.prems by simp_all
  show ?case
  proof (cases r)
    case (Inl err)
    then obtain ss1 where ss: "removeRules ops keys (mark key e1) = (ss1, e')" "ss = status_error key True err # ss1"
      using Cons.prems(1) r by (auto split: prod.splits)
    have s: "s_Key (status_error key True err) = key" "s_Error (status_error key True err) \<noteq> []" using c Inl by (auto simp: status_error_def)
    have u: "\<forall>k. k \<noteq> key \<longrightarrow> untouched e (mark key e1) k" "map_of (e_active (mark key e1)) key = map_of (e_active e) key"
      "map_of (e_pending (mark key e1)) key = map_of (e_pending e) key" using c Inl by (auto simp: untouched_def)
    note IH = Cons.IH [OF ss(1) d(2)]
    have own: "untouched (mark key e1) e' key" using IH d(1) by simp
    have "untouched e e' k" if "k \<notin> set (key # keys)" for k
      using u(1) IH that untouched_trans [of e "mark key e1" k e'] by simp
    moreover have "s_Error t \<noteq> [] \<and> s_Key t \<in> set (key # keys)" if "t \<in> set ss" for t
      using that s IH unfolding ss(2) by auto
    moreover have "settled e' k None \<or> k \<in> s_Key ` set ss \<and> map_of (e_active e') k = map_of (e_active e) k \<and> map_of (e_pending e') k = map_of (e_pending e) k"
      if "k \<in> set (key # keys)" for k
    proof (cases "k = key")
      case True
      then show ?thesis using own u(2,3) s(1) unfolding ss(2) untouched_def by simp
    next
      case False
      then have "k \<in> set keys" "untouched e (mark key e1) k" using that u(1) by simp_all
      then show ?thesis using IH unfolding ss(2) untouched_def by auto
    qed
    ultimately show ?thesis by blast
  next
    case (Inr v)
    let ?e = "unmark key (e1\<lparr>e_active := AList.delete key (e_active e1)\<rparr>)"
    have ss: "removeRules ops keys ?e = (ss, e')" using Cons.prems(1) r Inr by simp
    have u: "\<forall>k. k \<noteq> key \<longrightarrow> untouched e ?e k" "settled ?e key None"
      using c Inr by (auto simp: untouched_def settled_def delete_conv')
    note IH = Cons.IH [OF ss d(2)]
    have own: "settled e' key None" using IH d(1) u(2) untouched_settled [of ?e e' key None] by blast
    have "untouched e e' k" if "k \<notin> set (key # keys)" for k
      using u(1) IH that untouched_trans [of e ?e k e'] by simp
    moreover have "s_Error t \<noteq> [] \<and> s_Key t \<in> set (key # keys)" if "t \<in> set ss" for t
      using that IH by auto
    moreover have "settled e' k None \<or> k \<in> s_Key ` set ss \<and> map_of (e_active e') k = map_of (e_active e) k \<and> map_of (e_pending e') k = map_of (e_pending e) k"
      if "k \<in> set (key # keys)" for k
    proof (cases "k = key")
      case False
      then have "k \<in> set keys" "untouched e ?e k" using that u(1) by simp_all
      then show ?thesis using IH unfolding untouched_def by auto
    qed (use own in simp)
    ultimately show ?thesis by blast
  qed
qed simp

section \<open>One pass\<close>

definition wf_rules :: "rule_map \<Rightarrow> bool" where
  "wf_rules m \<longleftrightarrow> distinct (map fst m) \<and> list_all (\<lambda>(k, r). d_Key r = k) m"

text \<open>The state of the engine between calls: the keys of the maps are the rules' own, and what is left to
  clean up is marked.\<close>

definition engine_ok :: "('d, 'q) Engine \<Rightarrow> bool" where
  "engine_ok e \<longleftrightarrow> wf_rules (e_active e) \<and> wf_rules (e_pending e) \<and> distinct (e_dirty e) \<and> dom (map_of (e_pending e)) \<subseteq> set (e_dirty e)"

lemma rulesEqual_iff [simp]: "rulesEqual a b \<longleftrightarrow> a = b"
  by (cases a; cases b) (auto simp: rulesEqual_def)

lemma map_of_fold_updates:
  "distinct (map fst ps) \<Longrightarrow> map_of (fold (\<lambda>(k, r). AList.update k r) ps m) = map_of m ++ map_of ps"
proof (induction ps arbitrary: m)
  case (Cons p ps)
  then have "map_of ps (fst p) = None" by (simp add: map_of_eq_None_iff)
  then show ?case using Cons by (cases p) (auto simp: update_conv' map_add_def fun_eq_iff split: option.splits)
qed simp

lemma distinct_fold_updates: "distinct (map fst m) \<Longrightarrow> distinct (map fst (fold (\<lambda>(k, r). AList.update k r) ps m))"
  by (induction ps arbitrary: m) (auto simp: distinct_update)

lemma map_of_inventory: "wf_rules (e_pending e) \<Longrightarrow> map_of (inventory e) = map_of (e_active e) ++ map_of (e_pending e)"
  by (simp add: inventory_def map_of_fold_updates wf_rules_def)

lemma distinct_inventory: "wf_rules (e_active e) \<Longrightarrow> distinct (map fst (inventory e))"
  by (simp add: inventory_def distinct_fold_updates wf_rules_def)

lemma distinct_keys_iff: "distinct (map fst m) \<Longrightarrow> (k, r) \<in> set m \<longleftrightarrow> map_of m k = Some r"
  by (metis map_of_SomeD map_of_is_SomeI)

lemma diff_apply_iff:
  assumes "distinct (map fst desired)"
  shows "k \<in> set (fst (diffRuleKeys prior desired)) \<longleftrightarrow> map_of desired k \<noteq> None \<and> map_of prior k \<noteq> map_of desired k"
proof -
  have "k \<in> set (fst (diffRuleKeys prior desired)) \<longleftrightarrow>
    (\<exists>r. (k, r) \<in> set desired \<and> \<not> (case map_of prior k of Some cur \<Rightarrow> rulesEqual cur r | None \<Rightarrow> False))"
    unfolding diffRuleKeys_def by (force simp: image_iff)
  then show ?thesis by (auto simp: distinct_keys_iff [OF assms] split: option.splits)
qed

lemma diff_remove_iff: "k \<in> set (snd (diffRuleKeys prior desired)) \<longleftrightarrow> map_of prior k \<noteq> None \<and> map_of desired k = None"
proof -
  have "k \<in> set (snd (diffRuleKeys prior desired)) \<longleftrightarrow> k \<in> fst ` set prior \<and> map_of desired k = None"
    unfolding diffRuleKeys_def by (force simp: image_iff)
  then show ?thesis by (simp add: map_of_eq_None_iff)
qed

lemma distinct_filter_fst: "distinct (map fst m) \<Longrightarrow> distinct (map fst (filter P m))"
  by (induction m) auto

lemma diff_distinct: "distinct (map fst desired) \<Longrightarrow> distinct (map fst prior) \<Longrightarrow>
    distinct (fst (diffRuleKeys prior desired)) \<and> distinct (snd (diffRuleKeys prior desired))"
  by (simp add: diffRuleKeys_def distinct_filter_fst)

lemma reconcileKeys_facts:
  assumes "reconcileKeys desired e = (toApply, toRemove)" "engine_ok e" "wf_rules desired"
  shows "k \<in> set toApply \<longleftrightarrow> map_of desired k \<noteq> None \<and> (map_of (inventory e) k \<noteq> map_of desired k \<or> k \<in> set (e_dirty e))"
    "k \<in> set toRemove \<longleftrightarrow> map_of (inventory e) k \<noteq> None \<and> map_of desired k = None" "distinct toApply" "distinct toRemove"
proof -
  let ?d = "diffRuleKeys (inventory e) desired"
  have eq: "toApply = sort (fst ?d @ filter (\<lambda>key. map_of desired key \<noteq> None \<and> key \<notin> set (fst ?d)) (e_dirty e))" "toRemove = snd ?d"
    using assms(1) by (simp_all add: reconcileKeys_def split: prod.splits)
  have dd: "distinct (map fst desired)" "distinct (map fst (inventory e))" "distinct (e_dirty e)"
    using assms(2,3) distinct_inventory by (auto simp: engine_ok_def wf_rules_def)
  show "k \<in> set toApply \<longleftrightarrow> map_of desired k \<noteq> None \<and> (map_of (inventory e) k \<noteq> map_of desired k \<or> k \<in> set (e_dirty e))"
    using diff_apply_iff [OF dd(1), of k "inventory e"] unfolding eq(1) by auto
  show "k \<in> set toRemove \<longleftrightarrow> map_of (inventory e) k \<noteq> None \<and> map_of desired k = None" unfolding eq(2) by (rule diff_remove_iff)
  show "distinct toApply" "distinct toRemove" using diff_distinct [OF dd(1,2)] dd(3) unfolding eq by auto
qed

lemma get_desired: "map_of desired k = Some r \<Longrightarrow> get zeroRule desired k = r"
  by (simp add: get_def)

lemma wf_rules_key: "wf_rules m \<Longrightarrow> map_of m k = Some r \<Longrightarrow> d_Key r = k"
  by (auto simp: wf_rules_def list_all_iff dest: map_of_SomeD)

text \<open>Every key after a pass: either it is as desired and clean, or a status reports its error and it holds
  nothing but earlier or desired forms. Keys that are neither desired nor known before are as they were.\<close>

definition failed :: "RuleStatus list \<Rightarrow> string \<Rightarrow> bool" where
  "failed ss k \<longleftrightarrow> (\<exists>s\<in>set ss. s_Key s = k \<and> s_Error s \<noteq> [])"

lemma failed_annotate [simp]: "failed (annotateRuleVIPs ss prior active desired) k = failed ss k"
  by (simp add: failed_def annotateRuleVIPs_def)

lemma failed_append [simp]: "failed (ss @ ts) k \<longleftrightarrow> failed ss k \<or> failed ts k"
  by (auto simp: failed_def)

lemma reconcile_parts:
  assumes "engine_Reconcile ops desired e = (status, e')"
  obtains toApply toRemove unchanged removed e1 applied where "reconcileKeys desired e = (toApply, toRemove)"
    "unchanged = map status_ok (filter (\<lambda>key. key \<notin> set toApply) (map fst desired))" "removeRules ops toRemove e = (removed, e1)"
    "applyRules ops toRemove desired toApply e1 = (applied, e')"
    "es_Healthy status = list_all (\<lambda>s. s_Error s = []) (unchanged @ removed @ applied)"
    "es_Rules status = annotateRuleVIPs (unchanged @ removed @ applied) (inventory e) (e_active e') desired"
proof -
  obtain toApply toRemove where keys: "reconcileKeys desired e = (toApply, toRemove)" by (rule prod.exhaust)
  obtain removed e1 where rem: "removeRules ops toRemove e = (removed, e1)" by (rule prod.exhaust)
  obtain applied e2 where app: "applyRules ops toRemove desired toApply e1 = (applied, e2)" by (rule prod.exhaust)
  define unchanged where un: "unchanged = map status_ok (filter (\<lambda>key. key \<notin> set toApply) (map fst desired))"
  have "engine_Reconcile ops desired e = (\<lparr>es_Healthy = list_all (\<lambda>s. s_Error s = []) (unchanged @ removed @ applied),
      es_Rules = annotateRuleVIPs (unchanged @ removed @ applied) (inventory e) (e_active e2) desired\<rparr>, e2)"
    by (simp only: engine_Reconcile_def Let_def keys rem app prod.case un)
  from trans [OF assms [symmetric] this]
  have eq: "status = \<lparr>es_Healthy = list_all (\<lambda>s. s_Error s = []) (unchanged @ removed @ applied),
      es_Rules = annotateRuleVIPs (unchanged @ removed @ applied) (inventory e) (e_active e2) desired\<rparr>" "e' = e2" by (simp_all only: prod.inject)
  show thesis by (rule that [OF keys un rem]) (simp_all only: app eq EngineStatus.select_convs)
qed

lemma reconcile_key:
  assumes "engine_Reconcile ops desired e = (status, e')" "engine_ok e" "wf_rules desired"
  shows "map_of desired k = None \<and> map_of (inventory e) k = None \<and> untouched e e' k \<or>
    settled e' k (map_of desired k) \<or>
    failed (es_Rules status) k \<and> map_of (e_active e') k = map_of (e_active e) k \<and> map_of (e_pending e') k \<in> {None, map_of desired k, map_of (e_pending e) k}"
proof -
  obtain toApply toRemove unchanged removed e1 applied where keys: "reconcileKeys desired e = (toApply, toRemove)"
    and rem: "removeRules ops toRemove e = (removed, e1)" and app: "applyRules ops toRemove desired toApply e1 = (applied, e')"
    and st: "es_Rules status = annotateRuleVIPs (unchanged @ removed @ applied) (inventory e) (e_active e') desired"
    by (rule reconcile_parts [OF assms(1)])
  note kf = reconcileKeys_facts [OF keys assms(2,3)]
  have dk: "\<forall>k\<in>set toApply. d_Key (get zeroRule desired k) = k"
  proof
    fix k assume "k \<in> set toApply"
    then obtain r where "map_of desired k = Some r" using kf(1) by auto
    then show "d_Key (get zeroRule desired k) = k" using wf_rules_key [OF assms(3)] by (simp add: get_desired)
  qed
  note ap = applyRules_cases [OF app kf(3) dk]
  note rm = removeRules_cases [OF rem kf(4)]
  have fail: "failed (es_Rules status) k" if "s \<in> set removed \<or> s \<in> set applied" "s_Key s = k" "s_Error s \<noteq> []" for s
  proof -
    have "failed removed k \<or> failed applied k" using that unfolding failed_def by blast
    then show ?thesis by (simp add: st)
  qed
  have inv: "map_of (inventory e) = map_of (e_active e) ++ map_of (e_pending e)" using assms(2) by (simp add: engine_ok_def map_of_inventory)
  consider (app_key) "k \<in> set toApply" "k \<notin> set toRemove" | (remove) "k \<in> set toRemove" "k \<notin> set toApply" | (none) "k \<notin> set toApply" "k \<notin> set toRemove"
    using kf(1,2) by blast
  then show ?thesis
  proof cases
    case app_key
    have "k \<in> set (map s_Key applied)" using ap app_key(1) by simp
    then obtain s where s: "s \<in> set applied" "s_Key s = k" by auto
    obtain r where r: "map_of desired k = Some r" using kf(1) app_key by auto
    have u: "untouched e e1 k" using rm app_key by blast
    have "s = status_ok k \<and> settled e' k (Some r) \<or> s_Error s \<noteq> [] \<and> stalled e1 e' k (Some r)"
      using bspec [OF conjunct2 [OF conjunct2 [OF ap]] s(1)] unfolding s(2) get_desired [OF r] .
    then show ?thesis
    proof
      assume a: "s_Error s \<noteq> [] \<and> stalled e1 e' k (Some r)"
      then have "failed (es_Rules status) k" using fail [of s] s by blast
      then show ?thesis using a u r by (simp add: stalled_def untouched_def)
    qed (simp add: r)
  next
    case remove
    then have u: "untouched e1 e' k" and d: "map_of desired k = None" using ap kf(2) by blast+
    have "settled e1 k None \<or> k \<in> s_Key ` set removed \<and> map_of (e_active e1) k = map_of (e_active e) k \<and> map_of (e_pending e1) k = map_of (e_pending e) k"
      using rm remove by blast
    then show ?thesis
    proof
      assume "settled e1 k None"
      then show ?thesis using d untouched_settled [OF u, of None] by simp
    next
      assume a: "k \<in> s_Key ` set removed \<and> map_of (e_active e1) k = map_of (e_active e) k \<and> map_of (e_pending e1) k = map_of (e_pending e) k"
      then obtain s where "s \<in> set removed" "s_Key s = k" "s_Error s \<noteq> []" using rm by blast
      then have "failed (es_Rules status) k" using fail [of s] by blast
      then show ?thesis using a u by (simp add: untouched_def)
    qed
  next
    case none
    then have u: "untouched e e' k" using ap rm untouched_trans [of e e1 k e'] by blast
    show ?thesis
    proof (cases "map_of desired k")
      case None
      then show ?thesis using u none kf(2) by simp
    next
      case (Some r)
      then have k: "map_of (inventory e) k = Some r" "k \<notin> set (e_dirty e)" using none kf(1) by auto
      then have "map_of (e_pending e) k = None" using assms(2) by (auto simp: engine_ok_def dom_def)
      then have "settled e k (Some r)" using k inv by (simp add: settled_def map_add_def)
      then show ?thesis using Some untouched_settled [OF u, of "Some r"] by simp
    qed
  qed
qed

lemma healthy_not_failed:
  assumes "engine_Reconcile ops desired e = (status, e')" "es_Healthy status"
  shows "\<not> failed (es_Rules status) k"
proof -
  obtain statuses where "es_Healthy status = list_all (\<lambda>s. s_Error s = []) statuses"
    "es_Rules status = annotateRuleVIPs statuses (inventory e) (e_active e') desired" by (rule reconcile_parts [OF assms(1)])
  moreover have "\<not> failed statuses k" using calculation(1) assms(2) by (auto simp: failed_def list_all_iff)
  ultimately show ?thesis by simp
qed

lemma set_addMissing [simp]: "set (addMissing xs ys) = set xs \<union> set ys"
proof -
  have "set (fold (\<lambda>y acc. if y \<in> set acc then acc else acc @ [y]) ys xs) = set xs \<union> set ys" for xs
    by (induction ys arbitrary: xs) auto
  then show ?thesis by (simp add: addMissing_def)
qed

text \<open>The statuses carry every address that the pass may have touched.\<close>

lemma failed_addresses:
  assumes "engine_Reconcile ops desired e = (status, e')" "s \<in> set (es_Rules status)"
  shows "set (s_VIPAddresses s) = set (d_VIPAddresses (get zeroRule (inventory e) (s_Key s))) \<union>
    set (d_VIPAddresses (get zeroRule desired (s_Key s))) \<union> set (d_VIPAddresses (get zeroRule (e_active e') (s_Key s)))"
proof -
  obtain statuses where "es_Rules status = annotateRuleVIPs statuses (inventory e) (e_active e') desired"
    by (rule reconcile_parts [OF assms(1)])
  then obtain t where "s = t\<lparr>s_VIPAddresses := addMissing (d_VIPAddresses (get zeroRule (inventory e) (s_Key t)))
       (d_VIPAddresses (get zeroRule desired (s_Key t)) @ d_VIPAddresses (get zeroRule (e_active e') (s_Key t)))\<rparr>"
    using assms(2) by (auto simp: annotateRuleVIPs_def)
  then show ?thesis by auto
qed

lemma vip_converged_statuses:
  "vip_converged_loop rs vip f = Some f' \<Longrightarrow> s \<in> set rs \<Longrightarrow> s_Error s \<noteq> [] \<Longrightarrow> vip \<notin> set (s_VIPAddresses s)"
  by (induction rs arbitrary: f) (auto split: if_splits)

lemma VIPConverged_failed:
  assumes "engine_Reconcile ops desired e = (status, e')" "VIPConverged status vip" "failed (es_Rules status) k"
  shows "vip \<notin> set (d_VIPAddresses (get zeroRule (inventory e) k)) \<and> vip \<notin> set (d_VIPAddresses (get zeroRule desired k)) \<and>
    vip \<notin> set (d_VIPAddresses (get zeroRule (e_active e') k))"
proof -
  obtain s where s: "s \<in> set (es_Rules status)" "s_Key s = k" "s_Error s \<noteq> []" using assms(3) by (auto simp: failed_def)
  obtain f where "vip_converged_loop (es_Rules status) vip False = Some f" using assms(2) by (auto simp: VIPConverged_def split: option.splits)
  then have "vip \<notin> set (s_VIPAddresses s)" using s(1,3) by (rule vip_converged_statuses)
  then show ?thesis using failed_addresses [OF assms(1) s(1)] s(2) by auto
qed

text \<open>The invariant.\<close>

lemma wf_rules_update: "wf_rules m \<Longrightarrow> d_Key r = k \<Longrightarrow> wf_rules (AList.update k r m)"
  using set_delete_subset [of k m] by (auto simp: wf_rules_def list_all_iff distinct_update set_update)

lemma wf_rules_delete: "wf_rules m \<Longrightarrow> wf_rules (AList.delete k m)"
  using set_delete_subset [of k m] by (auto simp: wf_rules_def list_all_iff distinct_delete_fst)

lemma applyRuleLocked_pending:
  assumes "applyRuleLocked ops rule e = (r, e')"
  shows "e_pending e' \<in> {e_pending e, AList.update (d_Key rule) rule (e_pending e), AList.delete (d_Key rule) (AList.update (d_Key rule) rule (e_pending e))}"
proof -
  obtain r1 q where r1: "op_CheckAndReserve ops rule (e_quota e) = (r1, q)" by (rule prod.exhaust)
  obtain r2 d where r2: "op_ApplyRule ops rule (e_datapath e) = (r2, d)" by (rule prod.exhaust)
  obtain r3 d' where r3: "op_RemoveRule ops (d_Key rule) d = (r3, d')" by (rule prod.exhaust)
  obtain r4 q' where r4: "op_Release ops (d_Key rule) q = (r4, q')" by (rule prod.exhaust)
  show ?thesis
  proof (cases "r1 = Inr True")
    case True
    then show ?thesis using assms r1 r2 r3 r4
      by (cases r2; cases r3; cases r4) (clarsimp simp: applyRuleLocked_def Let_def)+
  next
    case False
    then have "e_pending e' = e_pending e"
      using assms r1 by (cases r1) (clarsimp simp: applyRuleLocked_def Let_def split: bool.splits)+
    then show ?thesis by simp
  qed
qed

lemma dom_pending: "dom (map_of (AList.delete k m)) = dom (map_of m) - {k}" "dom (map_of (AList.update k v m)) = insert k (dom (map_of m))"
  by (auto simp: delete_conv' update_conv')

lemma distinct_mark [simp]: "distinct (e_dirty e) \<Longrightarrow> distinct (e_dirty (mark k e))" "distinct (e_dirty e) \<Longrightarrow> distinct (e_dirty (unmark k e))"
  by (simp_all add: mark_def unmark_def distinct_removeAll)

lemma engine_ok_remove:
  assumes "engine_ok e" "removeRuleLocked ops key e = (r, e')"
  shows "engine_ok e'"
  using removeRuleLocked_cases [OF assms(2)] assms(1) unfolding engine_ok_def
  by (elim conjE disjE) (simp_all add: wf_rules_delete dom_pending, blast)

lemma engine_ok_apply:
  assumes "engine_ok e" "applyKey ops toRemove key rule e = (s, e')" "d_Key rule = key"
  shows "engine_ok e'"
proof (cases "ruleConflictsLocked e key rule toRemove")
  case True
  then show ?thesis using assms by (simp add: applyKey_def)
next
  case False
  obtain r1 e1 where r1: "(if map_of (e_pending e) key \<noteq> None then removeRuleLocked ops key e else (Inr (), e)) = (r1, e1)" by (rule prod.exhaust)
  then have ok1: "engine_ok e1" using assms(1) engine_ok_remove [of e ops key] by (auto split: if_splits)
  obtain r2 e2 where r2: "applyRuleLocked ops rule e1 = (r2, e2)" by (rule prod.exhaust)
  have c: "e_active e2 = e_active e1" "e_dirty e2 = e_dirty e1" using applyRuleLocked_cases [OF r2] by blast+
  have p: "wf_rules (e_pending e2)" "dom (map_of (e_pending e2)) \<subseteq> insert key (set (e_dirty e1))"
    using applyRuleLocked_pending [OF r2] ok1 assms(3) unfolding engine_ok_def insert_iff empty_iff
    by (elim disjE conjE; simp add: wf_rules_update wf_rules_delete dom_pending; blast)+
  show ?thesis
  proof (cases r1)
    case (Inl err)
    then show ?thesis using assms(2) False r1 ok1 by (simp add: applyKey_def)
  next
    case r: (Inr u)
    show ?thesis
    proof (cases r2)
      case (Inl err)
      then have e': "e' = (if map_of (e_active e2) key \<noteq> None \<or> map_of (e_pending e2) key \<noteq> None then mark key e2 else e2)"
        using assms(2) False r1 r r2 by (simp add: applyKey_def)
      show ?thesis
      proof (cases "map_of (e_active e2) key \<noteq> None \<or> map_of (e_pending e2) key \<noteq> None")
        case True
        then show ?thesis using e' ok1 c p by (simp add: engine_ok_def)
      next
        case n: False
        then have "key \<notin> dom (map_of (e_pending e2))" by (simp add: dom_def)
        then have "dom (map_of (e_pending e2)) \<subseteq> set (e_dirty e1)" using p(2) by blast
        then show ?thesis using n e' ok1 c p(1) by (simp add: engine_ok_def)
      qed
    next
      case (Inr v)
      then have e': "e' = unmark key (e2\<lparr>e_active := AList.update key rule (e_active e2)\<rparr>)"
        using assms(2) False r1 r r2 by (simp add: applyKey_def)
      have "map_of (e_pending e2) key = None" using applyRuleLocked_cases [OF r2] Inr assms(3) by auto
      then have "dom (map_of (e_pending e2)) \<subseteq> set (e_dirty e1) - {key}" using p(2) by (auto simp: dom_def)
      then show ?thesis using ok1 c p(1) assms(3) unfolding e' by (simp add: engine_ok_def wf_rules_update)
    qed
  qed
qed

lemma engine_ok_applyRules:
  assumes "engine_ok e" "applyRules ops toRemove desired keys e = (ss, e')" "\<forall>k\<in>set keys. d_Key (get zeroRule desired k) = k"
  shows "engine_ok e'"
  using assms
proof (induction keys arbitrary: e ss)
  case (Cons key keys)
  obtain s e1 where s: "applyKey ops toRemove key (get zeroRule desired key) e = (s, e1)" by (rule prod.exhaust)
  obtain ss1 e2 where ss: "applyRules ops toRemove desired keys e1 = (ss1, e2)" by (rule prod.exhaust)
  have "e2 = e'" using Cons.prems(2) s ss by simp
  moreover have "engine_ok e1" using engine_ok_apply [OF Cons.prems(1) s] Cons.prems(3) by simp
  ultimately show ?case using Cons.IH [of e1 ss1] ss Cons.prems(3) by simp
qed simp

lemma engine_ok_removed:
  assumes "engine_ok e" "removeRuleLocked ops key e = (Inr u, e1)"
  shows "engine_ok (unmark key (e1\<lparr>e_active := AList.delete key (e_active e1)\<rparr>))"
proof -
  have "engine_ok e1" using assms by (rule engine_ok_remove)
  moreover have "key \<notin> dom (map_of (e_pending e1))" using removeRuleLocked_cases [OF assms(2)] by (simp add: dom_def delete_conv')
  ultimately show ?thesis unfolding engine_ok_def by (simp add: wf_rules_delete) blast
qed

lemma engine_ok_mark: "engine_ok e \<Longrightarrow> engine_ok (mark key e)"
  unfolding engine_ok_def by (simp, blast)

lemma engine_ok_removeRules: "engine_ok e \<Longrightarrow> removeRules ops keys e = (ss, e') \<Longrightarrow> engine_ok e'"
proof (induction keys arbitrary: e ss)
  case (Cons key keys)
  obtain r e1 where r: "removeRuleLocked ops key e = (r, e1)" by (rule prod.exhaust)
  show ?case
  proof (cases r)
    case (Inl err)
    obtain ss1 e2 where ss: "removeRules ops keys (mark key e1) = (ss1, e2)" by (rule prod.exhaust)
    have "e2 = e'" using Cons.prems(2) r Inl ss by simp
    then show ?thesis using Cons.IH [OF engine_ok_mark [OF engine_ok_remove [OF Cons.prems(1) r]]] ss by simp
  next
    case (Inr u)
    then show ?thesis using Cons.IH [OF engine_ok_removed [OF Cons.prems(1)]] Cons.prems(2) r by simp
  qed
qed simp

lemma engine_ok_stopRules: "engine_ok e \<Longrightarrow> stopRules ops keys err e = (r, e') \<Longrightarrow> engine_ok e'"
proof (induction keys arbitrary: e err)
  case Nil
  then show ?case by (cases err) simp_all
next
  case (Cons key keys)
  obtain r1 e1 where r1: "removeRuleLocked ops key e = (r1, e1)" by (rule prod.exhaust)
  show ?case
  proof (cases r1)
    case (Inl x)
    then show ?thesis using Cons.IH [OF engine_ok_mark [OF engine_ok_remove [OF Cons.prems(1) r1]]] Cons.prems(2) r1 by simp
  next
    case (Inr u)
    then show ?thesis using Cons.IH [OF engine_ok_removed [OF Cons.prems(1)]] Cons.prems(2) r1 by simp
  qed
qed

lemma apply_keys_own:
  assumes "reconcileKeys desired e = (toApply, toRemove)" "engine_ok e" "wf_rules desired"
  shows "\<forall>k\<in>set toApply. d_Key (get zeroRule desired k) = k"
proof
  fix k assume "k \<in> set toApply"
  then obtain r where "map_of desired k = Some r" using reconcileKeys_facts(1) [OF assms] by auto
  then show "d_Key (get zeroRule desired k) = k" using wf_rules_key [OF assms(3)] by (simp add: get_desired)
qed

lemma engine_ok_Reconcile:
  assumes "engine_ok e" "wf_rules desired" "engine_Reconcile ops desired e = (status, e')"
  shows "engine_ok e'"
proof -
  obtain toApply toRemove removed e1 applied where keys: "reconcileKeys desired e = (toApply, toRemove)"
    and rem: "removeRules ops toRemove e = (removed, e1)" and app: "applyRules ops toRemove desired toApply e1 = (applied, e')"
    by (rule reconcile_parts [OF assms(3)])
  show ?thesis by (rule engine_ok_applyRules [OF engine_ok_removeRules [OF assms(1) rem] app apply_keys_own [OF keys assms(1,2)]])
qed

text \<open>The states the engine reaches from a new one by any sequence of its methods.\<close>

inductive engine_reachable :: "('d, 'q) engine_ops \<Rightarrow> 'd \<Rightarrow> 'q \<Rightarrow> ('d, 'q) Engine \<Rightarrow> bool" for ops d0 q0 where
  start: "engine_reachable ops d0 q0 (NewEngine d0 q0)"
| pass: "engine_reachable ops d0 q0 e \<Longrightarrow> wf_rules desired \<Longrightarrow> engine_reachable ops d0 q0 (snd (engine_Reconcile ops desired e))"
| stop: "engine_reachable ops d0 q0 e \<Longrightarrow> engine_reachable ops d0 q0 (snd (engine_Stop ops e))"
| set_owned: "engine_reachable ops d0 q0 e \<Longrightarrow> engine_reachable ops d0 q0 (snd (engine_SetOwnedVIPs ops addrs e))"
| set_blocked: "engine_reachable ops d0 q0 e \<Longrightarrow> engine_reachable ops d0 q0 (snd (engine_SetBlockedVIPs ops addrs e))"
| renew: "engine_reachable ops d0 q0 e \<Longrightarrow> engine_reachable ops d0 q0 (snd (engine_RenewVIPs ops addrs e))"
| owned: "engine_reachable ops d0 q0 e \<Longrightarrow> engine_reachable ops d0 q0 (snd (engine_OwnedVIPs ops e))"
| generation: "engine_reachable ops d0 q0 e \<Longrightarrow> engine_reachable ops d0 q0 (snd (DatapathGeneration ops e))"
| orphans: "engine_reachable ops d0 q0 e \<Longrightarrow> engine_reachable ops d0 q0 (snd (engine_ReconcileOrphans ops desired cutoff e))"

text \<open>The calls beside a pass and a stop change the datapath alone.\<close>

definition only_datapath :: "('d, 'q) Engine \<Rightarrow> ('d, 'q) Engine \<Rightarrow> bool" where
  "only_datapath e e' \<longleftrightarrow> e' = e\<lparr>e_datapath := e_datapath e'\<rparr>"

lemma guard_only_datapath:
  "only_datapath e (snd (engine_SetOwnedVIPs ops addrs e))" "only_datapath e (snd (engine_SetBlockedVIPs ops addrs e))"
  "only_datapath e (snd (engine_RenewVIPs ops addrs e))" "only_datapath e (snd (engine_OwnedVIPs ops e))"
  "only_datapath e (snd (DatapathGeneration ops e))" "only_datapath e (snd (engine_ReconcileOrphans ops desired cutoff e))"
  by (simp_all add: only_datapath_def engine_SetOwnedVIPs_def engine_SetBlockedVIPs_def engine_RenewVIPs_def guarded_def
      engine_OwnedVIPs_def DatapathGeneration_def engine_ReconcileOrphans_def split: option.splits prod.splits sum.splits)

lemma only_datapath_ok: "only_datapath e e' \<Longrightarrow> engine_ok e \<Longrightarrow> engine_ok e'"
  unfolding only_datapath_def engine_ok_def by (metis Engine.select_convs Engine.surjective Engine.update_convs(4))

lemma reachable_ok: "engine_reachable ops d0 q0 e \<Longrightarrow> engine_ok e"
proof (induction rule: engine_reachable.induct)
  case start
  show ?case by (simp add: NewEngine_def engine_ok_def wf_rules_def)
next
  case (pass e desired)
  show ?case by (rule engine_ok_Reconcile [OF pass.IH pass.hyps(2)]) (rule surjective_pairing)
next
  case (stop e)
  show ?case using stop.IH unfolding engine_Stop_def by (rule engine_ok_stopRules) (rule surjective_pairing)
qed (rule only_datapath_ok [OF guard_only_datapath(1)] only_datapath_ok [OF guard_only_datapath(2)]
    only_datapath_ok [OF guard_only_datapath(3)] only_datapath_ok [OF guard_only_datapath(4)]
    only_datapath_ok [OF guard_only_datapath(5)] only_datapath_ok [OF guard_only_datapath(6)]; assumption)+

section \<open>Convergence\<close>

lemma healthy_converged:
  assumes "engine_ok e" "wf_rules desired" "engine_Reconcile ops desired e = (status, e')" "es_Healthy status"
  shows "map_of (e_active e') = map_of desired \<and> map_of (e_pending e') = Map.empty \<and> set (e_dirty e') \<inter> dom (map_of (e_active e')) = {}"
proof -
  have inv: "map_of (inventory e) = map_of (e_active e) ++ map_of (e_pending e)" using assms(1) by (simp add: engine_ok_def map_of_inventory)
  have "map_of (e_active e') k = map_of desired k \<and> map_of (e_pending e') k = None \<and> (k \<in> set (e_dirty e') \<longrightarrow> map_of (e_active e') k = None)" for k
    using reconcile_key [OF assms(3,1,2), of k] healthy_not_failed [OF assms(3,4), of k]
    by (auto simp: inv map_add_None settled_def untouched_def)
  then show ?thesis by (simp add: fun_eq_iff disjoint_iff dom_def) metis
qed

text \<open>C7. A pass that reports the engine healthy has converged it: the active rules are exactly the desired
  ones, nothing is left to clean up, and no active rule is marked for a retry. It holds for every datapath
  and quota, whatever failed before.\<close>

theorem healthy_means_converged:
  assumes "engine_reachable ops d0 q0 e" "wf_rules desired" "engine_Reconcile ops desired e = (status, e')" "es_Healthy status"
  shows "map_of (e_active e') = map_of desired \<and> map_of (e_pending e') = Map.empty \<and> set (e_dirty e') \<inter> dom (map_of (e_active e')) = {}"
  by (rule healthy_converged [OF reachable_ok [OF assms(1)] assms(2-4)])

text \<open>C12. What is reported of one address can be relied on: when \<open>VIPConverged\<close> says that an address has
  converged, then the active rules on that address are exactly the desired rules on it, and no half-applied
  rule holds it, even if other addresses of the pass failed.\<close>

theorem vip_converged_sound:
  assumes "engine_reachable ops d0 q0 e" "wf_rules desired" "engine_Reconcile ops desired e = (status, e')" "VIPConverged status vip"
    and "vip \<in> set (d_VIPAddresses rule)"
  shows "(map_of (e_active e') key = Some rule \<longleftrightarrow> map_of desired key = Some rule) \<and> map_of (e_pending e') key \<noteq> Some rule"
proof -
  have ok: "engine_ok e" using assms(1) by (rule reachable_ok)
  then have inv: "map_of (inventory e) = map_of (e_active e) ++ map_of (e_pending e)" by (simp add: engine_ok_def map_of_inventory)
  have no: "map_of (inventory e) key \<noteq> Some rule \<and> map_of desired key \<noteq> Some rule \<and> map_of (e_active e') key \<noteq> Some rule"
    if "failed (es_Rules status) key"
    using VIPConverged_failed [OF assms(3,4) that] assms(5) by (auto simp: get_def)
  from reconcile_key [OF assms(3) ok assms(2), of key] show ?thesis
  proof (elim disjE)
    assume "map_of desired key = None \<and> map_of (inventory e) key = None \<and> untouched e e' key"
    then show ?thesis by (auto simp: inv map_add_None untouched_def)
  next
    assume "settled e' key (map_of desired key)"
    then show ?thesis by (auto simp: settled_def)
  next
    assume f: "failed (es_Rules status) key \<and> map_of (e_active e') key = map_of (e_active e) key \<and>
      map_of (e_pending e') key \<in> {None, map_of desired key, map_of (e_pending e) key}"
    then have "map_of (e_pending e) key \<noteq> Some rule" using no by (auto simp: inv)
    then show ?thesis using f no by auto
  qed
qed

section \<open>What the engine relies on\<close>

text \<open>The datapath's book of keys: an apply that succeeds leaves the rule's own keys under its name, a removal
  that succeeds leaves none, and neither touches another name, whatever its outcome.\<close>

locale datapath_contract =
  fixes applyr :: "DesiredRule \<Rightarrow> 'd \<Rightarrow> (string + unit) \<times> 'd" and removes :: "string \<Rightarrow> 'd \<Rightarrow> (string + unit) \<times> 'd"
    and held :: "'d \<Rightarrow> string \<Rightarrow> 'k list" and keys_of :: "DesiredRule \<Rightarrow> 'k list"
  assumes apply_ok: "applyr r d = (Inr u, d') \<Longrightarrow> held d' (d_Key r) = keys_of r"
    and apply_frame: "applyr r d = (x, d') \<Longrightarrow> k \<noteq> d_Key r \<Longrightarrow> held d' k = held d k"
    and remove_ok: "removes n d = (Inr u, d') \<Longrightarrow> held d' n = []"
    and remove_frame: "removes n d = (x, d') \<Longrightarrow> k \<noteq> n \<Longrightarrow> held d' k = held d k"

text \<open>The quota's book of reservations, under the enforcer's own invariant: a granted rule is the reservation
  of its name, a refusal changes nothing, and a release always succeeds.\<close>

locale quota_contract =
  fixes reserve :: "DesiredRule \<Rightarrow> 'q \<Rightarrow> (string + bool) \<times> 'q" and release :: "string \<Rightarrow> 'q \<Rightarrow> (string + unit) \<times> 'q"
    and reserved :: "'q \<Rightarrow> string \<rightharpoonup> DesiredRule" and sane :: "'q \<Rightarrow> bool"
  assumes reserve_granted: "sane q \<Longrightarrow> reserve r q = (Inr True, q') \<Longrightarrow> sane q' \<and> reserved q' = (reserved q)(d_Key r \<mapsto> r)"
    and reserve_refused: "sane q \<Longrightarrow> reserve r q = (x, q') \<Longrightarrow> x \<noteq> Inr True \<Longrightarrow> q' = q"
    and release_ok: "sane q \<Longrightarrow> release k q = (y, q') \<Longrightarrow> y = Inr () \<and> sane q' \<and> reserved q' = (reserved q)(k := None)"

text \<open>The engine over both: the calls beside a pass leave the book of keys alone.\<close>

locale engine_contract =
  dp: datapath_contract "op_ApplyRule ops" "op_RemoveRule ops" held keys_of +
  qt: quota_contract "op_CheckAndReserve ops" "op_Release ops" reserved sane
  for ops :: "('d, 'q) engine_ops" and held :: "'d \<Rightarrow> string \<Rightarrow> 'k list" and keys_of reserved sane +
  assumes guard_frame: "engine_SetOwnedVIPs ops addrs e = (x, e') \<Longrightarrow> held (e_datapath e') = held (e_datapath e)"
    "engine_SetBlockedVIPs ops addrs e = (x, e') \<Longrightarrow> held (e_datapath e') = held (e_datapath e)"
    "engine_RenewVIPs ops addrs e = (x, e') \<Longrightarrow> held (e_datapath e') = held (e_datapath e)"
    "engine_OwnedVIPs ops e = (y, e') \<Longrightarrow> held (e_datapath e') = held (e_datapath e)"
    "DatapathGeneration ops e = (z, e') \<Longrightarrow> held (e_datapath e') = held (e_datapath e)"
    "engine_ReconcileOrphans ops desired cutoff e = (x, e') \<Longrightarrow> held (e_datapath e') = held (e_datapath e)"
begin

definition agrees :: "('d, 'q) Engine \<Rightarrow> string \<Rightarrow> DesiredRule option \<Rightarrow> bool" where
  "agrees e k r \<longleftrightarrow> reserved (e_quota e) k = r \<and> held (e_datapath e) k = (case r of None \<Rightarrow> [] | Some rule \<Rightarrow> keys_of rule)"

definition exact :: "('d, 'q) Engine \<Rightarrow> bool" where
  "exact e \<longleftrightarrow> engine_ok e \<and> sane (e_quota e) \<and> (\<forall>k. k \<notin> set (e_dirty e) \<longrightarrow> agrees e k (map_of (e_active e) k))"

definition same_books :: "('d, 'q) Engine \<Rightarrow> ('d, 'q) Engine \<Rightarrow> string \<Rightarrow> bool" where
  "same_books e e' k \<longleftrightarrow> reserved (e_quota e') k = reserved (e_quota e) k \<and> held (e_datapath e') k = held (e_datapath e) k"

lemma same_books_agrees: "same_books e e' k \<Longrightarrow> agrees e' k r = agrees e k r"
  by (simp add: same_books_def agrees_def)

lemma same_books_refl [simp]: "same_books e e k"
  by (simp add: same_books_def)

lemma remove_books:
  assumes "removeRuleLocked ops key e = (r, e')" "sane (e_quota e)"
  shows "sane (e_quota e') \<and> (\<forall>k. k \<noteq> key \<longrightarrow> same_books e e' k) \<and> (r = Inr () \<longrightarrow> agrees e' key None)"
proof -
  obtain r1 d where r1: "op_RemoveRule ops key (e_datapath e) = (r1, d)" by (rule prod.exhaust)
  obtain r2 q where r2: "op_Release ops key (e_quota e) = (r2, q)" by (rule prod.exhaust)
  have q: "r2 = Inr ()" "sane q" "reserved q = (reserved (e_quota e))(key := None)" using qt.release_ok [OF assms(2) r2] by blast+
  have fr: "\<forall>k. k \<noteq> key \<longrightarrow> held d k = held (e_datapath e) k" using dp.remove_frame [OF r1] by blast
  show ?thesis
  proof (cases r1)
    case (Inl err)
    then have "e' = e\<lparr>e_datapath := d\<rparr> \<and> r \<noteq> Inr ()" using assms(1) r1 by (clarsimp simp: removeRuleLocked_def)
    then show ?thesis using fr assms(2) by (clarsimp simp: same_books_def)
  next
    case (Inr u)
    then have "held d key = []" using r1 dp.remove_ok by blast
    moreover have "e_datapath e' = d \<and> e_quota e' = q" using assms(1) r1 r2 Inr q(1) by (clarsimp simp: removeRuleLocked_def)
    ultimately show ?thesis using fr q by (simp add: same_books_def agrees_def)
  qed
qed

lemma apply_books:
  assumes "applyRuleLocked ops rule e = (r, e')" "sane (e_quota e)" "map_of (e_pending e) (d_Key rule) = None"
  shows "sane (e_quota e') \<and> (\<forall>k. k \<noteq> d_Key rule \<longrightarrow> same_books e e' k) \<and> (r = Inr () \<longrightarrow> agrees e' (d_Key rule) (Some rule)) \<and>
    (r \<noteq> Inr () \<longrightarrow> map_of (e_pending e') (d_Key rule) = None \<longrightarrow> same_books e e' (d_Key rule) \<or> agrees e' (d_Key rule) None)"
proof -
  obtain r1 q where r1: "op_CheckAndReserve ops rule (e_quota e) = (r1, q)" by (rule prod.exhaust)
  obtain r2 d where r2: "op_ApplyRule ops rule (e_datapath e) = (r2, d)" by (rule prod.exhaust)
  obtain r3 d' where r3: "op_RemoveRule ops (d_Key rule) d = (r3, d')" by (rule prod.exhaust)
  obtain r4 q' where r4: "op_Release ops (d_Key rule) q = (r4, q')" by (rule prod.exhaust)
  show ?thesis
  proof (cases "r1 = Inr True")
    case False
    then have "q = e_quota e" using qt.reserve_refused [OF assms(2) r1] by blast
    moreover have "e_quota e' = q \<and> e_datapath e' = e_datapath e \<and> r \<noteq> Inr ()"
      using assms(1) r1 False by (cases r1) (clarsimp simp: applyRuleLocked_def Let_def split: bool.splits)+
    ultimately show ?thesis using assms(2) by (simp add: same_books_def)
  next
    case True
    have q: "sane q" "reserved q = (reserved (e_quota e))(d_Key rule \<mapsto> rule)" using qt.reserve_granted [OF assms(2)] r1 True by blast+
    have q': "r4 = Inr ()" "sane q'" "reserved q' = (reserved q)(d_Key rule := None)" using qt.release_ok [OF q(1) r4] by blast+
    have fr: "held d k = held (e_datapath e) k" "held d' k = held d k" if "k \<noteq> d_Key rule" for k
      using dp.apply_frame [OF r2 that] dp.remove_frame [OF r3 that] by blast+
    show ?thesis
    proof (cases r2)
      case (Inr u)
      then have "held d (d_Key rule) = keys_of rule" using r2 dp.apply_ok by blast
      moreover have "e_quota e' = q \<and> e_datapath e' = d \<and> r = Inr ()"
        using assms(1) r1 r2 True Inr by (clarsimp simp: applyRuleLocked_def Let_def)
      ultimately show ?thesis using q fr by (simp add: same_books_def agrees_def)
    next
      case l: (Inl err)
      show ?thesis
      proof (cases r3)
        case (Inl err')
        then have "e_quota e' = q \<and> e_datapath e' = d' \<and> r \<noteq> Inr () \<and> map_of (e_pending e') (d_Key rule) = Some rule"
          using assms(1) r1 r2 r3 True l by (clarsimp simp: applyRuleLocked_def Let_def update_conv')
        then show ?thesis using q fr by (simp add: same_books_def)
      next
        case (Inr u)
        then have "held d' (d_Key rule) = []" using r3 dp.remove_ok by blast
        moreover have "e_quota e' = q' \<and> e_datapath e' = d' \<and> r \<noteq> Inr ()"
          using assms(1) r1 r2 r3 r4 True l Inr q'(1) by (clarsimp simp: applyRuleLocked_def Let_def)
        ultimately show ?thesis using q q' fr by (simp add: same_books_def agrees_def)
      qed
    qed
  qed
qed

lemma exact_conflict_free:
  assumes "engine_ok e'" "sane (e_quota e')" "exact e" "\<And>k. k \<noteq> key \<Longrightarrow> same_books e e' k \<and> untouched e e' k"
    "key \<notin> set (e_dirty e') \<Longrightarrow> agrees e' key (map_of (e_active e') key)"
  shows "exact e'"
  unfolding exact_def
proof (intro conjI allI impI)
  fix k assume k: "k \<notin> set (e_dirty e')"
  show "agrees e' k (map_of (e_active e') k)"
  proof (cases "k = key")
    case True
    then show ?thesis using assms(5) k by simp
  next
    case False
    then have "same_books e e' k" "untouched e e' k" using assms(4) by blast+
    then show ?thesis using k assms(3) by (simp add: same_books_agrees exact_def untouched_def)
  qed
qed (fact assms)+

lemma exact_removed:
  assumes "exact e" "removeRuleLocked ops key e = (r, e1)"
  shows "r = Inr () \<Longrightarrow> exact (unmark key (e1\<lparr>e_active := AList.delete key (e_active e1)\<rparr>))" "exact (mark key e1)"
proof -
  have ok: "engine_ok e" "sane (e_quota e)" using assms(1) by (simp_all add: exact_def)
  note b = remove_books [OF assms(2) ok(2)] and c = removeRuleLocked_cases [OF assms(2)]
  {
    assume r: "r = Inr ()"
    let ?e = "unmark key (e1\<lparr>e_active := AList.delete key (e_active e1)\<rparr>)"
    show "exact ?e"
    proof (rule exact_conflict_free [OF _ _ assms(1), where key = key])
      show "engine_ok ?e" using engine_ok_removed [OF ok(1)] assms(2) r by blast
      show "same_books e ?e k \<and> untouched e ?e k" if "k \<noteq> key" for k
        using b c r that by (simp add: same_books_def untouched_def delete_conv')
      show "agrees ?e key (map_of (e_active ?e) key)" using b r by (simp add: agrees_def delete_conv')
    qed (use b in simp)
  }
  show "exact (mark key e1)"
  proof (rule exact_conflict_free [OF _ _ assms(1), where key = key])
    show "engine_ok (mark key e1)" by (rule engine_ok_mark [OF engine_ok_remove [OF ok(1) assms(2)]])
    show "same_books e (mark key e1) k \<and> untouched e (mark key e1) k" if "k \<noteq> key" for k
      using b c that by (auto simp: same_books_def untouched_def delete_conv')
  qed (use b in simp_all)
qed

lemma exact_removeRules: "exact e \<Longrightarrow> removeRules ops keys e = (ss, e') \<Longrightarrow> exact e'"
proof (induction keys arbitrary: e ss)
  case (Cons key keys)
  obtain r e1 where r: "removeRuleLocked ops key e = (r, e1)" by (rule prod.exhaust)
  note ex = exact_removed [OF Cons.prems(1) r]
  show ?case
  proof (cases r)
    case (Inl err)
    obtain ss1 e2 where ss: "removeRules ops keys (mark key e1) = (ss1, e2)" by (rule prod.exhaust)
    have "e2 = e'" using Cons.prems(2) r Inl ss by simp
    then show ?thesis using Cons.IH [OF ex(2)] ss by simp
  next
    case (Inr u)
    then show ?thesis using Cons.IH [OF ex(1)] Cons.prems(2) r by simp
  qed
qed simp

lemma exact_stopRules: "exact e \<Longrightarrow> stopRules ops keys err e = (x, e') \<Longrightarrow> exact e'"
proof (induction keys arbitrary: e err)
  case Nil
  then show ?case by (cases err) simp_all
next
  case (Cons key keys)
  obtain r e1 where r: "removeRuleLocked ops key e = (r, e1)" by (rule prod.exhaust)
  note ex = exact_removed [OF Cons.prems(1) r]
  show ?case
  proof (cases r)
    case (Inl y)
    then show ?thesis using Cons.IH [OF ex(2)] Cons.prems(2) r by simp
  next
    case (Inr u)
    then show ?thesis using Cons.IH [OF ex(1)] Cons.prems(2) r by simp
  qed
qed

lemma exact_applyKey:
  assumes "exact e" "applyKey ops toRemove key rule e = (s, e')" "d_Key rule = key"
  shows "exact e'"
proof -
  have ok: "engine_ok e" "sane (e_quota e)" using assms(1) by (simp_all add: exact_def)
  have ok': "engine_ok e'" by (rule engine_ok_apply [OF ok(1) assms(2,3)])
  have un: "untouched e e' k" if "k \<noteq> key" for k using applyKey_cases [OF assms(2,3)] that by blast
  show ?thesis
  proof (cases "ruleConflictsLocked e key rule toRemove")
    case True
    then show ?thesis using assms by (simp add: applyKey_def)
  next
    case False
    obtain r1 e1 where r1: "(if map_of (e_pending e) key \<noteq> None then removeRuleLocked ops key e else (Inr (), e)) = (r1, e1)" by (rule prod.exhaust)
    have p: "sane (e_quota e1)" "\<forall>k. k \<noteq> key \<longrightarrow> same_books e e1 k" "e_active e1 = e_active e" "e_dirty e1 = e_dirty e"
      "map_of (e_pending e) key = None \<longrightarrow> e1 = e" "r1 = Inr () \<longrightarrow> map_of (e_pending e1) key = None"
      using r1 ok(2) remove_books [of key e r1 e1] removeRuleLocked_cases [of ops key e r1 e1] by (auto simp: delete_conv' split: if_splits)
    have d: "map_of (e_pending e) key \<noteq> None \<Longrightarrow> key \<in> set (e_dirty e)" using ok(1) by (auto simp: engine_ok_def dom_def)
    obtain r2 e2 where r2: "applyRuleLocked ops rule e1 = (r2, e2)" by (rule prod.exhaust)
    show ?thesis
    proof (cases r1)
      case (Inl err)
      then have e': "e' = e1" using assms(2) False r1 by (simp add: applyKey_def)
      have "key \<in> set (e_dirty e)" using r1 Inl d by (auto split: if_splits)
      then show ?thesis using exact_conflict_free [OF ok' _ assms(1), of key] p un unfolding e' by simp
    next
      case (Inr u)
      then have pn: "map_of (e_pending e1) (d_Key rule) = None" using p(6) assms(3) by simp
      note b = apply_books [OF r2 p(1) pn] and c = applyRuleLocked_cases [OF r2]
      have sb: "same_books e e2 k" if "k \<noteq> key" for k using b p(2) that assms(3) by (auto simp: same_books_def)
      show ?thesis
      proof (cases r2)
        case i: (Inr v)
        then have e': "e' = unmark key (e2\<lparr>e_active := AList.update key rule (e_active e2)\<rparr>)"
          using assms(2) False r1 Inr r2 by (simp add: applyKey_def)
        have "agrees e2 key (Some rule)" using b i assms(3) by simp
        then have "agrees e' key (map_of (e_active e') key)" unfolding e' by (simp add: agrees_def update_conv')
        moreover have "same_books e e' k" if "k \<noteq> key" for k using sb [OF that] unfolding e' by (simp add: same_books_def)
        moreover have "sane (e_quota e')" using b unfolding e' by simp
        ultimately show ?thesis using exact_conflict_free [OF ok' _ assms(1), of key] un by blast
      next
        case l: (Inl err)
        then have e': "e' = (if map_of (e_active e2) key \<noteq> None \<or> map_of (e_pending e2) key \<noteq> None then mark key e2 else e2)"
          using assms(2) False r1 Inr r2 by (simp add: applyKey_def)
        have "e_datapath e' = e_datapath e2 \<and> e_quota e' = e_quota e2" unfolding e' by simp
        then have sb': "same_books e e' k = same_books e e2 k" "agrees e' k x = agrees e2 k x" "sane (e_quota e')" for k x
          using b by (simp_all add: same_books_def agrees_def)
        have "agrees e' key (map_of (e_active e') key)" if nd: "key \<notin> set (e_dirty e')"
        proof -
          have n: "map_of (e_active e2) key = None" "map_of (e_pending e2) key = None" "e' = e2"
            using nd e' by (auto split: if_splits)
          then have "key \<notin> set (e_dirty e)" using nd c p(4) by simp
          then have e1: "e1 = e" using d p(5) by blast
          have a: "map_of (e_active e) key = None" using n(1) c p(3) by simp
          then have "agrees e key None" using assms(1) \<open>key \<notin> set (e_dirty e)\<close> unfolding exact_def by metis
          moreover have "same_books e e2 key \<or> agrees e2 key None" using b l n(2) assms(3) e1 by simp
          ultimately have "agrees e2 key None" using same_books_agrees by blast
          then show ?thesis using n by simp
        qed
        then show ?thesis using exact_conflict_free [OF ok' sb'(3) assms(1), of key] un sb sb'(1) by blast
      qed
    qed
  qed
qed

lemma exact_applyRules:
  "exact e \<Longrightarrow> applyRules ops toRemove desired keys e = (ss, e') \<Longrightarrow> \<forall>k\<in>set keys. d_Key (get zeroRule desired k) = k \<Longrightarrow> exact e'"
proof (induction keys arbitrary: e ss)
  case (Cons key keys)
  obtain s e1 where s: "applyKey ops toRemove key (get zeroRule desired key) e = (s, e1)" by (rule prod.exhaust)
  obtain ss1 e2 where ss: "applyRules ops toRemove desired keys e1 = (ss1, e2)" by (rule prod.exhaust)
  have "e2 = e'" using Cons.prems(2) s ss by simp
  moreover have "exact e1" using exact_applyKey [OF Cons.prems(1) s] Cons.prems(3) by simp
  ultimately show ?case using Cons.IH [of e1 ss1] ss Cons.prems(3) by simp
qed simp

lemma exact_Reconcile:
  assumes "exact e" "wf_rules desired" "engine_Reconcile ops desired e = (status, e')"
  shows "exact e'"
proof -
  obtain toApply toRemove removed e1 applied where keys: "reconcileKeys desired e = (toApply, toRemove)"
    and rem: "removeRules ops toRemove e = (removed, e1)" and app: "applyRules ops toRemove desired toApply e1 = (applied, e')"
    by (rule reconcile_parts [OF assms(3)])
  have ok: "engine_ok e" using assms(1) by (simp add: exact_def)
  show ?thesis by (rule exact_applyRules [OF exact_removeRules [OF assms(1) rem] app apply_keys_own [OF keys ok assms(2)]])
qed

lemma exact_only_datapath:
  assumes "exact e" "only_datapath e e'" "held (e_datapath e') = held (e_datapath e)"
  shows "exact e'"
proof -
  have "e_active e' = e_active e \<and> e_dirty e' = e_dirty e \<and> e_quota e' = e_quota e"
    using assms(2) unfolding only_datapath_def by (metis Engine.select_convs Engine.surjective Engine.update_convs(4))
  then show ?thesis using assms only_datapath_ok [OF assms(2)] by (simp add: exact_def agrees_def)
qed

theorem reachable_exact:
  assumes "engine_reachable ops d0 q0 e" "sane q0" "\<And>k. reserved q0 k = None" "\<And>k. held d0 k = []"
  shows "exact e"
  using assms(1)
proof (induction rule: engine_reachable.induct)
  case start
  show ?case using assms(2-4) by (simp add: exact_def agrees_def NewEngine_def engine_ok_def wf_rules_def)
next
  case (pass e desired)
  show ?case by (rule exact_Reconcile [OF pass.IH pass.hyps(2)]) (rule surjective_pairing)
next
  case (stop e)
  show ?case using stop.IH unfolding engine_Stop_def by (rule exact_stopRules) (rule surjective_pairing)
qed (rule exact_only_datapath [OF _ guard_only_datapath(1)] exact_only_datapath [OF _ guard_only_datapath(2)]
    exact_only_datapath [OF _ guard_only_datapath(3)] exact_only_datapath [OF _ guard_only_datapath(4)]
    exact_only_datapath [OF _ guard_only_datapath(5)] exact_only_datapath [OF _ guard_only_datapath(6)],
    assumption, rule guard_frame [OF surjective_pairing])+

end

section \<open>The engine over the eBPF datapath and the node's quota\<close>

text \<open>The engine as the gateway command assembles it. The texts of the datapath's errors are a parameter.\<close>

definition with_text :: "(dp_error \<Rightarrow> string) \<Rightarrow> 'a dp \<Rightarrow> KernelDatapath \<Rightarrow> (string + 'a) \<times> KernelDatapath" where
  "with_text msg m d = (case m d of (Inl e, d') \<Rightarrow> (Inl (msg e), d') | (Inr x, d') \<Rightarrow> (Inr x, d'))"

definition kernel_ops :: "kernel \<Rightarrow> (dp_error \<Rightarrow> string) \<Rightarrow> (KernelDatapath, NodeQuotaEnforcer) engine_ops" where
  "kernel_ops kn msg = \<lparr>op_ApplyRule = \<lambda>rule. with_text msg (ApplyRule kn rule), op_RemoveRule = \<lambda>name. with_text msg (RemoveRule kn name),
     op_Generation = \<lambda>d. (now kn (m_ops (kd_maps d)), d\<lparr>kd_maps := tick (kd_maps d)\<rparr>),
     op_ReconcileOrphans = \<lambda>live cutoff. with_text msg (ReconcileOrphans kn live cutoff),
     op_SetOwnedVIPs = Some (\<lambda>addrs. with_text msg (SetOwnedVIPs kn addrs)), op_SetBlockedVIPs = Some (\<lambda>addrs. with_text msg (kd_SetBlockedVIPs kn addrs)),
     op_RenewVIPs = Some (\<lambda>addrs. with_text msg (kd_RenewVIPs kn addrs)), op_OwnedVIPs = Some (with_text msg (kd_OwnedVIPs kn)),
     op_SupportsPortRanges = Some (\<lambda>_. True), op_SupportsOwnedVIPs = Some (\<lambda>_. True),
     op_CheckAndReserve = \<lambda>rule q. (case CheckAndReserve q rule of (b, q') \<Rightarrow> (Inr b, q')), op_Release = \<lambda>key q. (Inr (), Release q key)\<rparr>"

definition rule_keys :: "DesiredRule \<Rightarrow> VIPKey list" where
  "rule_keys rule = (case vipKeysForRule rule of Inl _ \<Rightarrow> [] | Inr keys \<Rightarrow> keys)"

lemma with_text_Inr [simp]: "with_text msg m d = (Inr x, d') \<longleftrightarrow> m d = (Inr x, d')"
  by (auto simp: with_text_def split: prod.splits sum.splits)

lemma with_text_snd [simp]: "snd (with_text msg m d) = snd (m d)"
  by (simp add: with_text_def split: prod.splits sum.splits)

lemma with_text_keeps: "with_text msg m d = (x, d') \<Longrightarrow> keeps p m \<Longrightarrow> p d' = p d"
  using with_text_snd [of msg m d] by (simp add: keeps_def)

lemma onMaps_books: "keeps (\<lambda>d. vipKeys d n) (onMaps m)" "keeps vipKeys (onMaps m)"
  by (simp_all add: keeps_def onMaps_def fun_eq_iff split: prod.splits sum.splits)

lemma modify_books: "(\<And>d. vipKeys (f d) n = vipKeys d n) \<Longrightarrow> keeps (\<lambda>d. vipKeys d n) (modify f)"
  by (simp add: keeps_def modify_def)

lemma clearVPC_books [simp]: "vipKeys (clearVPC k d) n = vipKeys d n"
  by (simp add: clearVPC_def)

lemma recordWritten_books:
  assumes "n \<noteq> name"
  shows "vipKeys (recordWritten name written unwritten d) n = vipKeys d n"
proof -
  have "vipKeys (fold (\<lambda>k d. if k \<in> set (vipKeys d name) then d else clearVPC k d) ks d) n = vipKeys d n" for ks d
    by (induction ks arbitrary: d) auto
  moreover have "vipKeys (fold (\<lambda>k d. if k \<in> set (vipKeys d name) then d
      else d\<lparr>kd_vipKeysByName := AList.update name (vipKeys d name @ [k]) (kd_vipKeysByName d)\<rparr>) ks d) n = vipKeys d n" for ks d
    using assms by (induction ks arbitrary: d) auto
  ultimately show ?thesis by (simp add: recordWritten_def Let_def)
qed

lemma registerAll_books:
  assumes "n \<noteq> name"
  shows "keeps (\<lambda>d. vipKeys d n) (registerAll kn t name affinity fams written keys)"
  unfolding keeps_def
proof
  show "vipKeys (snd (registerAll kn t name affinity fams written keys d)) n = vipKeys d n" for d
  proof (induction keys arbitrary: d written)
    case (Cons key keys)
    obtain bs tbl where f: "get ([], []) fams (Is4 (vk_VIP key)) = (bs, tbl)" by (rule prod.exhaust)
    obtain r d' where r: "onMaps (Register kn t key affinity bs tbl) d = (r, d')" by (rule prod.exhaust)
    have "vipKeys d' n = vipKeys d n" using keepsD [OF onMaps_books(1) r] .
    then show ?case using f r Cons.IH by (cases r) (simp_all add: recordWritten_books [OF assms] del: onMaps_Inr)
  qed simp
qed

lemma activateKey_books: "keeps (\<lambda>d. vipKeys d n) (activateKey kn rule keys t key)"
  by (simp add: keeps_def activateKey_def split: prod.splits sum.splits option.splits)

lemma ApplyRule_books:
  assumes "n \<noteq> d_Key rule"
  shows "keeps (\<lambda>d. vipKeys d n) (ApplyRule kn rule)"
proof -
  have fe: "keeps (\<lambda>d. vipKeys d n) (forEach (\<lambda>key. onMaps (f key)) ks)" for f :: "VIPKey \<Rightarrow> (maps, unit) io" and ks
    by (intro keeps_forEach onMaps_books)
  have "keeps (\<lambda>d. vipKeys d n) (retireCoverage kn rule)"
    using fe unfolding keeps_def retireCoverage_def by simp
  moreover have "keeps (\<lambda>d. vipKeys d n) (switchTable kn rule)"
    using fe unfolding keeps_def switchTable_def by (simp split: option.splits)
  moreover have "keeps (\<lambda>d. vipKeys d n) (pruneKeys kn t name keys)" for t name keys
  proof -
    have "keeps (\<lambda>d. vipKeys d n) (forEach (\<lambda>old. if old \<in> set keys then ret ()
        else bind (onMaps (Unregister kn t old)) (\<lambda>_. modify (clearVPC old))) ks)" for ks
      by (intro keeps_forEach keeps_intros onMaps_books modify_books clearVPC_books)
    then show ?thesis unfolding keeps_def pruneKeys_def by simp
  qed
  moreover have "keeps (\<lambda>d. vipKeys d n) (activateRanges kn rule keys t)" for keys t
    unfolding activateRanges_def by (intro keeps_intros keeps_forEach activateKey_books)
  ultimately show ?thesis
    unfolding ApplyRule_def Let_def by (intro keeps_intros registerAll_books assms modify_books) (use assms in simp_all)
qed

lemma ApplyRule_own:
  assumes "ApplyRule kn rule d = (Inr u, d')"
  shows "vipKeysForRule rule = Inr (vipKeys d' (d_Key rule))"
proof -
  obtain keys d1 where keys: "vipKeysForRule rule = Inr keys"
    and d1: "activateRanges kn rule keys (tableFor (d_PortEnd rule \<noteq> 0)) d1 = (Inr u, d')" "vipKeys d1 (d_Key rule) = keys"
    using assms by (auto simp: ApplyRule_def Let_def)
  have "keeps (\<lambda>d. vipKeys d (d_Key rule)) (activateRanges kn rule keys t)" for t
    unfolding activateRanges_def by (intro keeps_intros keeps_forEach activateKey_books)
  then have "vipKeys d' (d_Key rule) = vipKeys d1 (d_Key rule)" using d1(1) by (rule keepsD)
  then show ?thesis using d1(2) keys by simp
qed

lemma RemoveRule_books:
  assumes "RemoveRule kn name d = (x, d')"
  shows "n \<noteq> name \<Longrightarrow> vipKeys d' n = vipKeys d n" "x = Inr u \<Longrightarrow> vipKeys d' name = []"
proof -
  let ?loop = "forEach (\<lambda>k. bind (onMaps (RemoveRange kn k)) (\<lambda>_. bind (onMaps (Unregister kn (tableFor (get False (kd_rangeRules d) name)) k))
      (\<lambda>_. modify (clearVPC k)))) (vipKeys d name)"
  have del: "vipKeys (d\<lparr>kd_vipKeysByName := AList.delete name (kd_vipKeysByName d)\<rparr>) n = (if n = name then [] else vipKeys d n)" for d n
    by (simp add: vipKeys_def get_def delete_conv')
  have k: "keeps (\<lambda>d. vipKeys d n) ?loop" for n by (intro keeps_forEach keeps_intros onMaps_books modify_books clearVPC_books)
  show "vipKeys d' n = vipKeys d n" if "n \<noteq> name"
  proof -
    have "keeps (\<lambda>d. vipKeys d n) (bind ?loop (\<lambda>_. modify (\<lambda>d. d\<lparr>kd_vipKeysByName := AList.delete name (kd_vipKeysByName d),
        kd_rangeRules := AList.delete name (kd_rangeRules d)\<rparr>)))"
      by (intro keeps_intros k modify_books) (simp add: del that)
    then show ?thesis using assms [unfolded RemoveRule_def Let_def] by (rule keepsD)
  qed
  show "vipKeys d' name = []" if "x = Inr u" using assms that by (auto simp: RemoveRule_def Let_def del)
qed

lemma guards_books:
  "keeps vipKeys (SetOwnedVIPs kn addrs)" "keeps vipKeys (kd_SetBlockedVIPs kn addrs)" "keeps vipKeys (kd_RenewVIPs kn addrs)"
  "keeps vipKeys (kd_OwnedVIPs kn)" "keeps vipKeys (ReconcileOrphans kn live cutoff)"
proof -
  have "keeps vipKeys (reconcileTable kn t ks cutoff)" for t ks
    by (simp add: keeps_def reconcileTable_def fun_eq_iff split: prod.splits)
  then show "keeps vipKeys (ReconcileOrphans kn live cutoff)"
    unfolding ReconcileOrphans_def by (intro keeps_intros onMaps_books)
qed (simp_all add: SetOwnedVIPs_def Generation_def kd_SetBlockedVIPs_def kd_RenewVIPs_def kd_OwnedVIPs_def onMaps_books keeps_intros)

interpretation kernel_datapath: datapath_contract "op_ApplyRule (kernel_ops kn msg)" "op_RemoveRule (kernel_ops kn msg)" vipKeys rule_keys
  for kn msg
proof
  show "vipKeys d' (d_Key r) = rule_keys r" if "op_ApplyRule (kernel_ops kn msg) r d = (Inr u, d')" for r d u d'
    using that ApplyRule_own [of kn r d u d'] by (simp add: kernel_ops_def rule_keys_def)
  show "vipKeys d' k = vipKeys d k" if "op_ApplyRule (kernel_ops kn msg) r d = (x, d')" "k \<noteq> d_Key r" for r d x d' k
    using with_text_keeps [OF _ ApplyRule_books [OF that(2)]] that(1) by (simp add: kernel_ops_def)
  show "vipKeys d' n = []" if "op_RemoveRule (kernel_ops kn msg) n d = (Inr u, d')" for n d u d'
    using that RemoveRule_books(2) [of kn n d "Inr u" d'] by (simp add: kernel_ops_def)
  show "vipKeys d' k = vipKeys d k" if "op_RemoveRule (kernel_ops kn msg) n d = (x, d')" "k \<noteq> n" for n d x d' k
    using that RemoveRule_books(1) [of kn n d "fst (RemoveRule kn n d)" d' k] with_text_snd [of msg "RemoveRule kn n" d]
    by (simp add: kernel_ops_def)
qed

interpretation node_quota: quota_contract "op_CheckAndReserve (kernel_ops kn msg)" "op_Release (kernel_ops kn msg)" "\<lambda>q. map_of (q_rules q)" quota_books
  for kn msg
proof
  fix q r q' k
  show "quota_books q' \<and> map_of (q_rules q') = (map_of (q_rules q))(d_Key r \<mapsto> r)"
    if "quota_books q" "op_CheckAndReserve (kernel_ops kn msg) r q = (Inr True, q')"
  proof -
    have c: "CheckAndReserve q r = (True, q')" using that(2) by (simp add: kernel_ops_def split: prod.splits)
    show ?thesis using CheckAndReserve_books [OF that(1), of r] c CheckAndReserve_accepted(4) [OF that(1) c] by (simp add: update_conv')
  qed
  show "q' = q" if "quota_books q" "op_CheckAndReserve (kernel_ops kn msg) r q = (x, q')" "x \<noteq> Inr True" for x
  proof -
    have "CheckAndReserve q r = (the_b, q') \<and> x = Inr the_b" if "fst (CheckAndReserve q r) = the_b" for the_b
      using \<open>op_CheckAndReserve (kernel_ops kn msg) r q = (x, q')\<close> that by (auto simp: kernel_ops_def split: prod.splits)
    then obtain b where "CheckAndReserve q r = (b, q')" "x = Inr b" by blast
    then show ?thesis using that(3) CheckAndReserve_refused by (cases b) auto
  qed
  show "y = Inr () \<and> quota_books q' \<and> map_of (q_rules q') = (map_of (q_rules q))(k := None)"
    if "quota_books q" "op_Release (kernel_ops kn msg) k q = (y, q')" for y
    using that Release_books Release_rules by (auto simp: kernel_ops_def delete_conv')
qed

interpretation gateway: engine_contract "kernel_ops kn msg" vipKeys rule_keys "\<lambda>q. map_of (q_rules q)" quota_books
  for kn msg
proof
  fix e e' x y z addrs cutoff and desired :: rule_map
  let ?ops = "kernel_ops kn msg"
  show "engine_SetOwnedVIPs ?ops addrs e = (x, e') \<Longrightarrow> vipKeys (e_datapath e') = vipKeys (e_datapath e)"
    using with_text_keeps [OF _ guards_books(1)] by (auto simp: engine_SetOwnedVIPs_def guarded_def kernel_ops_def split: prod.splits)
  show "engine_SetBlockedVIPs ?ops addrs e = (x, e') \<Longrightarrow> vipKeys (e_datapath e') = vipKeys (e_datapath e)"
    using with_text_keeps [OF _ guards_books(2)] by (auto simp: engine_SetBlockedVIPs_def guarded_def kernel_ops_def split: prod.splits)
  show "engine_RenewVIPs ?ops addrs e = (x, e') \<Longrightarrow> vipKeys (e_datapath e') = vipKeys (e_datapath e)"
    using with_text_keeps [OF _ guards_books(3)] by (auto simp: engine_RenewVIPs_def guarded_def kernel_ops_def split: prod.splits)
  show "engine_OwnedVIPs ?ops e = (y, e') \<Longrightarrow> vipKeys (e_datapath e') = vipKeys (e_datapath e)"
    using with_text_keeps [OF _ guards_books(4)] by (auto simp: engine_OwnedVIPs_def kernel_ops_def split: prod.splits)
  show "DatapathGeneration ?ops e = (z, e') \<Longrightarrow> vipKeys (e_datapath e') = vipKeys (e_datapath e)"
    by (auto simp: DatapathGeneration_def kernel_ops_def fun_eq_iff)
  obtain r d' where r: "with_text msg (ReconcileOrphans kn (map snd desired) cutoff) (e_datapath e) = (r, d')" by (rule prod.exhaust)
  then have "vipKeys d' = vipKeys (e_datapath e)" using with_text_keeps [OF _ guards_books(5)] by blast
  then show "engine_ReconcileOrphans ?ops desired cutoff e = (x, e') \<Longrightarrow> vipKeys (e_datapath e') = vipKeys (e_datapath e)"
    using r by (cases r) (auto simp: engine_ReconcileOrphans_def kernel_ops_def simp del: with_text_Inr)
qed


section \<open>Progress\<close>

text \<open>A rule marked for a retry blocks a desired rule that comes before it if it still holds one of its ports.\<close>

definition unblocked :: "rule_map \<Rightarrow> ('d, 'q) Engine \<Rightarrow> bool" where
  "unblocked desired e \<longleftrightarrow> (\<forall>(k, rule) \<in> set desired. \<forall>(k', old) \<in> set (e_active e) \<union> set (e_pending e).
     k' \<in> set (e_dirty e) \<and> map_of desired k' \<noteq> None \<and> k < k' \<longrightarrow> \<not> rulesOverlap old rule)"

lemma unblockedD:
  "unblocked desired e \<Longrightarrow> (k, rule) \<in> set desired \<Longrightarrow> (k', old) \<in> set (e_active e) \<union> set (e_pending e) \<Longrightarrow> k' \<in> set (e_dirty e) \<Longrightarrow>
    map_of desired k' \<noteq> None \<Longrightarrow> k < k' \<Longrightarrow> \<not> rulesOverlap old rule"
  unfolding unblocked_def by fast

text \<open>A backend that serves the engine: under an invariant of its state each operation succeeds and keeps the
  invariant, for the rules in question.\<close>

locale live_backend =
  fixes ops :: "('d, 'q) engine_ops" and I :: "'d \<Rightarrow> bool" and J :: "'q \<Rightarrow> bool" and R :: "DesiredRule \<Rightarrow> bool"
  assumes apply_works: "I d \<Longrightarrow> R r \<Longrightarrow> \<exists>d'. op_ApplyRule ops r d = (Inr (), d') \<and> I d'"
    and remove_works: "I d \<Longrightarrow> \<exists>d'. op_RemoveRule ops k d = (Inr (), d') \<and> I d'"
    and reserve_works: "J q \<Longrightarrow> R r \<Longrightarrow> \<exists>q'. op_CheckAndReserve ops r q = (Inr True, q') \<and> J q'"
    and release_works: "J q \<Longrightarrow> \<exists>q'. op_Release ops k q = (Inr (), q') \<and> J q'"
begin

definition live :: "('d, 'q) Engine \<Rightarrow> bool" where
  "live e \<longleftrightarrow> I (e_datapath e) \<and> J (e_quota e)"

lemma live_frames [simp]: "live (emit ev e) = live e" "live (mark k e) = live e" "live (unmark k e) = live e"
  "live (e\<lparr>e_active := a\<rparr>) = live e" "live (e\<lparr>e_pending := a\<rparr>) = live e"
  by (simp_all add: live_def)

lemma removeRuleLocked_works:
  assumes "live e"
  shows "\<exists>e'. removeRuleLocked ops key e = (Inr (), e') \<and> live e'"
proof -
  obtain d where d: "op_RemoveRule ops key (e_datapath e) = (Inr (), d)" "I d" using remove_works assms by (auto simp: live_def)
  obtain q where q: "op_Release ops key (e_quota e) = (Inr (), q)" "J q" using release_works assms by (auto simp: live_def)
  show ?thesis using d q by (simp add: removeRuleLocked_def live_def)
qed

lemma applyRuleLocked_works:
  assumes "live e" "R rule"
  shows "\<exists>e'. applyRuleLocked ops rule e = (Inr (), e') \<and> live e'"
proof -
  obtain q where q: "op_CheckAndReserve ops rule (e_quota e) = (Inr True, q)" "J q" using reserve_works assms by (auto simp: live_def)
  obtain d where d: "op_ApplyRule ops rule (e_datapath e) = (Inr (), d)" "I d" using apply_works assms by (auto simp: live_def)
  show ?thesis using d q by (simp add: applyRuleLocked_def live_def Let_def)
qed

lemma applyKey_works:
  assumes "live e" "R rule" "\<not> ruleConflictsLocked e key rule toRemove"
  shows "\<exists>e'. applyKey ops toRemove key rule e = (status_ok key, e') \<and> live e'"
proof -
  obtain e1 where e1: "(if map_of (e_pending e) key \<noteq> None then removeRuleLocked ops key e else (Inr (), e)) = (Inr (), e1)" "live e1"
    using removeRuleLocked_works [OF assms(1), of key] assms(1) by (cases "map_of (e_pending e) key = None") auto
  obtain e2 where e2: "applyRuleLocked ops rule e1 = (Inr (), e2)" "live e2" using applyRuleLocked_works [OF e1(2) assms(2)] by blast
  show ?thesis using assms(3) e1(1) e2 by (simp add: applyKey_def)
qed

lemma removeRules_works: "live e \<Longrightarrow> \<exists>e'. removeRules ops keys e = ([], e') \<and> live e'"
proof (induction keys arbitrary: e)
  case (Cons key keys)
  obtain e1 where e1: "removeRuleLocked ops key e = (Inr (), e1)" "live e1" using removeRuleLocked_works [OF Cons.prems] by blast
  then show ?case using Cons.IH [of "unmark key (e1\<lparr>e_active := AList.delete key (e_active e1)\<rparr>)"] by simp
qed simp

end

text \<open>What the apply loop keeps while it runs down the sorted keys: what is still marked is still ahead, and
  does not hold a port of a rule that comes before it.\<close>

definition ahead :: "rule_map \<Rightarrow> string list \<Rightarrow> string list \<Rightarrow> ('d, 'q) Engine \<Rightarrow> bool" where
  "ahead desired toRemove keys e \<longleftrightarrow> engine_ok e \<and> (\<forall>k\<in>set toRemove. map_of (e_active e) k = None \<and> k \<notin> set keys) \<and>
     (\<forall>k old. k \<in> set (e_dirty e) \<longrightarrow> map_of (e_active e) k = Some old \<or> map_of (e_pending e) k = Some old \<longrightarrow>
        k \<in> set keys \<and> (\<forall>key\<in>set keys. key < k \<longrightarrow> \<not> rulesOverlap old (get zeroRule desired key)))"

lemma ahead_no_conflict:
  assumes "ahead desired toRemove (key # keys) e" "\<forall>k\<in>set keys. key < k"
  shows "\<not> ruleConflictsLocked e key (get zeroRule desired key) toRemove"
proof -
  let ?rule = "get zeroRule desired key"
  have ok: "engine_ok e" "wf_rules (e_active e)" "wf_rules (e_pending e)" using assms(1) by (simp_all add: ahead_def engine_ok_def)
  have none: "\<not> rulesOverlap old ?rule" if "k \<in> set (e_dirty e)" "k \<noteq> key"
      "map_of (e_active e) k = Some old \<or> map_of (e_pending e) k = Some old" for k old
  proof -
    have "k \<in> set (key # keys)" "\<forall>key'\<in>set (key # keys). key' < k \<longrightarrow> \<not> rulesOverlap old (get zeroRule desired key')"
      using assms(1) that unfolding ahead_def by blast+
    then show ?thesis using assms(2) that(2) by simp
  qed
  have pend: "map_of (e_pending e) k \<noteq> None \<Longrightarrow> k \<in> set (e_dirty e)" for k using ok(1) by (auto simp: engine_ok_def dom_def)
  have a: "map_of (e_active e) k = Some old" if "(k, old) \<in> set (e_active e)" for k old
    using that ok(2) by (simp add: wf_rules_def)
  have p: "map_of (e_pending e) k = Some old" if "(k, old) \<in> set (e_pending e)" for k old
    using that ok(3) by (simp add: wf_rules_def)
  have "\<not> (\<exists>removed \<in> set toRemove. case map_of (e_active e) removed of None \<Rightarrow> False | Some old \<Rightarrow> rulesOverlap old ?rule)"
    using assms(1) by (auto simp: ahead_def)
  moreover have "\<not> (\<exists>(oldKey, old) \<in> set (e_active e). oldKey \<noteq> key \<and>
      (oldKey \<in> set (e_dirty e) \<or> map_of (e_pending e) oldKey \<noteq> None) \<and> rulesOverlap old ?rule)"
    using none a pend by blast
  moreover have "\<not> (\<exists>(oldKey, old) \<in> set (e_pending e). oldKey \<noteq> key \<and> rulesOverlap old ?rule)"
    using none p pend by (metis (mono_tags, lifting) case_prodE option.distinct(1))
  ultimately show ?thesis unfolding ruleConflictsLocked_def by (simp only: if_False not_False_eq_True)
qed

lemma ahead_step:
  assumes "ahead desired toRemove (key # keys) e" "d_Key (get zeroRule desired key) = key" "key \<notin> set keys"
    "applyKey ops toRemove key (get zeroRule desired key) e = (status_ok key, e')"
  shows "ahead desired toRemove keys e'"
proof -
  have ok: "engine_ok e" using assms(1) by (simp add: ahead_def)
  have c: "\<And>k. k \<noteq> key \<Longrightarrow> untouched e e' k" "settled e' key (Some (get zeroRule desired key))"
    using applyKey_cases [OF assms(4,2)] by (auto simp: status_ok_def)
  have "map_of (e_active e') k = None \<and> k \<notin> set keys" if "k \<in> set toRemove" for k
    using c(1) [of k] assms(1) that by (auto simp: ahead_def untouched_def)
  moreover have "k \<in> set keys \<and> (\<forall>key'\<in>set keys. key' < k \<longrightarrow> \<not> rulesOverlap old (get zeroRule desired key'))"
    if k: "k \<in> set (e_dirty e')" "map_of (e_active e') k = Some old \<or> map_of (e_pending e') k = Some old" for k old
  proof -
    have ne: "k \<noteq> key" using c(2) k(1) by (auto simp: settled_def)
    then have "k \<in> set (e_dirty e)" "map_of (e_active e) k = Some old \<or> map_of (e_pending e) k = Some old"
      using c(1) [OF ne] k by (auto simp: untouched_def)
    then have "k \<in> set (key # keys) \<and> (\<forall>key'\<in>set (key # keys). key' < k \<longrightarrow> \<not> rulesOverlap old (get zeroRule desired key'))"
      using assms(1) unfolding ahead_def by blast
    then show ?thesis using ne by simp
  qed
  moreover have "engine_ok e'" using engine_ok_apply [OF ok assms(4,2)] .
  ultimately show ?thesis unfolding ahead_def by blast
qed

context live_backend
begin

lemma applyRules_works:
  "live e \<Longrightarrow> ahead desired toRemove keys e \<Longrightarrow> sorted keys \<Longrightarrow> distinct keys \<Longrightarrow>
    \<forall>k\<in>set keys. d_Key (get zeroRule desired k) = k \<and> R (get zeroRule desired k) \<Longrightarrow>
    \<exists>e'. applyRules ops toRemove desired keys e = (map status_ok keys, e')"
proof (induction keys arbitrary: e)
  case (Cons key keys)
  have lt: "\<forall>k\<in>set keys. key < k" using Cons.prems(3,4) by (auto simp: less_le)
  obtain e1 where e1: "applyKey ops toRemove key (get zeroRule desired key) e = (status_ok key, e1)" "live e1"
    using applyKey_works [OF Cons.prems(1) _ ahead_no_conflict [OF Cons.prems(2) lt]] Cons.prems(5) by auto
  have "ahead desired toRemove keys e1" using ahead_step [OF Cons.prems(2) _ _ e1(1)] Cons.prems(4,5) by simp
  then obtain e2 where "applyRules ops toRemove desired keys e1 = (map status_ok keys, e2)"
    using Cons.IH [OF e1(2)] Cons.prems(3-5) by auto
  then show ?case using e1(1) by simp
qed simp

lemma Reconcile_works:
  assumes "live e" "engine_ok e" "wf_rules desired" "list_all (\<lambda>(k, r). R r) desired" "unblocked desired e"
  shows "es_Healthy (fst (engine_Reconcile ops desired e))"
proof -
  obtain status e' where run: "engine_Reconcile ops desired e = (status, e')" by (rule prod.exhaust)
  obtain toApply toRemove unchanged removed e1 applied where keys: "reconcileKeys desired e = (toApply, toRemove)"
    and un: "unchanged = map status_ok (filter (\<lambda>key. key \<notin> set toApply) (map fst desired))"
    and rem: "removeRules ops toRemove e = (removed, e1)" and app: "applyRules ops toRemove desired toApply e1 = (applied, e')"
    and st: "es_Healthy status = list_all (\<lambda>s. s_Error s = []) (unchanged @ removed @ applied)"
    by (rule reconcile_parts [OF run])
  note kf = reconcileKeys_facts [OF keys assms(2,3)]
  have rl: "removed = []" "live e1" using removeRules_works [OF assms(1), of toRemove] rem by auto
  note rm = removeRules_cases [OF rem kf(4)]
  have settled: "settled e1 k None" if "k \<in> set toRemove" for k using rm that rl(1) by simp
  have inv: "map_of (inventory e) = map_of (e_active e) ++ map_of (e_pending e)" using assms(2) by (simp add: engine_ok_def map_of_inventory)
  have sorted: "sorted toApply" using keys by (auto simp: reconcileKeys_def split: prod.splits)
  have R: "R (get zeroRule desired k)" if key: "k \<in> set toApply" for k
  proof -
    obtain r where r: "map_of desired k = Some r" using kf(1) [of k] key by auto
    then show ?thesis using assms(4) map_of_SomeD [OF r] by (auto simp: get_def list_all_iff)
  qed
  have "ahead desired toRemove toApply e1"
    unfolding ahead_def
  proof (intro conjI ballI allI impI)
    show "engine_ok e1" by (rule engine_ok_removeRules [OF assms(2) rem])
    show "map_of (e_active e1) k = None" if "k \<in> set toRemove" for k using settled [OF that] by (simp add: settled_def)
    show "k \<notin> set toApply" if "k \<in> set toRemove" for k using that kf(1) [of k] kf(2) [of k] by simp
    fix k old assume d: "k \<in> set (e_dirty e1)" and o: "map_of (e_active e1) k = Some old \<or> map_of (e_pending e1) k = Some old"
    have nr: "k \<notin> set toRemove" using d settled [of k] by (auto simp: settled_def)
    then have u: "untouched e e1 k" using rm by blast
    then have e: "k \<in> set (e_dirty e)" "map_of (e_active e) k = Some old \<or> map_of (e_pending e) k = Some old"
      using d o by (auto simp: untouched_def)
    then have "map_of (inventory e) k \<noteq> None" by (auto simp: inv)
    then have des: "map_of desired k \<noteq> None" using nr kf(2) [of k] by simp
    then show "k \<in> set toApply" using kf(1) [of k] e(1) by simp
    fix key assume key: "key \<in> set toApply" "key < k"
    then obtain rule where r: "map_of desired key = Some rule" using kf(1) [of key] by auto
    have "(key, rule) \<in> set desired" "(k, old) \<in> set (e_active e) \<union> set (e_pending e)" using r e(2) by (auto dest: map_of_SomeD)
    then show "\<not> rulesOverlap old (get zeroRule desired key)"
      using unblockedD [OF assms(5)] e(1) des key(2) unfolding get_desired [OF r] by simp
  qed
  moreover have "\<forall>k\<in>set toApply. d_Key (get zeroRule desired k) = k \<and> R (get zeroRule desired k)"
    using apply_keys_own [OF keys assms(2,3)] R by simp
  ultimately have "\<exists>e2. applyRules ops toRemove desired toApply e1 = (map status_ok toApply, e2)"
    by (rule applyRules_works [OF rl(2) _ sorted kf(3)])
  then have "applied = map status_ok toApply" using app by simp
  then have "es_Healthy status" using st un rl(1) by (auto simp: list_all_iff status_ok_def)
  then show ?thesis using run by simp
qed

end

text \<open>The eBPF datapath on a working kernel serves valid single-port rules, as long as its own books hold
  addresses that fit the maps.\<close>

definition datapath_fit :: "KernelDatapath \<Rightarrow> bool" where
  "datapath_fit d \<longleftrightarrow> ranges_ok (kd_maps d) \<and> (\<forall>n. list_all (\<lambda>k. wireable (vk_VIP k)) (vipKeys d n))"

lemma vipKeysForRule_vips: "vipKeysForRule rule = Inr ks \<Longrightarrow> vk_VIP ` set ks = set (d_VIPAddresses rule)"
  by (cases "protoNumber (d_Protocol rule)") (auto simp: vipKeysForRule_def image_image)

lemma ApplyRule_fit:
  assumes "works kn" "valid_rule rule" "datapath_fit d"
  shows "\<exists>d'. ApplyRule kn rule d = (Inr (), d') \<and> datapath_fit d'"
proof -
  obtain d' where d': "ApplyRule kn rule d = (Inr (), d')" using ApplyRule_works [OF assms(1,2)] assms(3) by (auto simp: datapath_fit_def)
  have "ranges_ok (kd_maps d')" using ApplyRule_ranges_ok [OF d'] assms(2,3) by (simp add: valid_rule_def datapath_fit_def)
  moreover have "list_all (\<lambda>k. wireable (vk_VIP k)) (vipKeys d' n)" for n
  proof (cases "n = d_Key rule")
    case True
    have "vipKeysForRule rule = Inr (vipKeys d' n)" using ApplyRule_own [OF d'] True by simp
    then have "vk_VIP ` set (vipKeys d' n) = set (d_VIPAddresses rule)" by (rule vipKeysForRule_vips)
    then show ?thesis using assms(2) by (auto simp: valid_rule_def list_all_iff)
  next
    case False
    then show ?thesis using keepsD [OF ApplyRule_books [OF False] d'] assms(3) by (simp add: datapath_fit_def)
  qed
  ultimately show ?thesis using d' by (auto simp: datapath_fit_def)
qed

lemma RemoveRule_fit:
  assumes "works kn" "datapath_fit d"
  shows "\<exists>d'. RemoveRule kn name d = (Inr (), d') \<and> datapath_fit d'"
proof -
  let ?t = "tableFor (get False (kd_rangeRules d) name)"
  let ?step = "\<lambda>k. bind (onMaps (RemoveRange kn k)) (\<lambda>_. bind (onMaps (Unregister kn ?t k)) (\<lambda>_. modify (clearVPC k)))"
  have step: "\<exists>u d2. ?step k d1 = (Inr u, d2) \<and> ranges_ok (kd_maps d2)" if k: "k \<in> set (vipKeys d name)" and r: "ranges_ok (kd_maps d1)" for k d1
  proof -
    have w: "wireable (vk_VIP k)" using assms(2) k by (simp add: datapath_fit_def list_all_iff)
    obtain w1 where w1: "RemoveRange kn k (kd_maps d1) = (Inr (), w1)" using RemoveRange_works [OF assms(1) w r] by blast
    obtain u w2 where w2: "Unregister kn ?t k w1 = (Inr u, w2)" using Unregister_works [OF assms(1) w] unfolding succeeds_def by blast
    have "ranges_ok w1" using ranges_ok_remove [OF r w1] .
    moreover have "vip_range_table w2 = vip_range_table w1" using keepsD [OF Unregister_keeps(1) w2] .
    ultimately have "ranges_ok w2" using ranges_ok_same by blast
    then show ?thesis using w1 w2 by (simp add: bind_Inr clearVPC_def)
  qed
  obtain d1 where d1: "forEach ?step (vipKeys d name) d = (Inr (), d1)" "ranges_ok (kd_maps d1)"
    using forEach_works [of "vipKeys d name" "\<lambda>d. ranges_ok (kd_maps d)" ?step d] step assms(2) unfolding datapath_fit_def by blast
  then obtain d' where d': "RemoveRule kn name d = (Inr (), d')" "kd_maps d' = kd_maps d1" by (simp add: RemoveRule_def Let_def bind_Inr)
  have "list_all (\<lambda>k. wireable (vk_VIP k)) (vipKeys d' n)" for n
    using RemoveRule_books(1) [OF d'(1), of n] RemoveRule_books(2) [OF d'(1) refl] assms(2) by (cases "n = name") (simp_all add: datapath_fit_def)
  then show ?thesis using d' d1(2) by (simp add: datapath_fit_def)
qed

text \<open>The quota has room for a set of names: its reservations are among them, single-port and of bounded size,
  and the caps allow them all.\<close>

definition quota_room :: "string set \<Rightarrow> nat \<Rightarrow> NodeQuotaEnforcer \<Rightarrow> bool" where
  "quota_room K M q \<longleftrightarrow> quota_books q \<and> (\<forall>(k, r) \<in> set (q_rules q). k \<in> K \<and> d_PortEnd r = 0 \<and> rule_rows r \<le> int M) \<and>
     finite K \<and> int (card K) \<le> q_maxRulesPerTenant q \<and> int (card K * M) \<le> q_maxRuleTableEntries q"

definition fits :: "string set \<Rightarrow> nat \<Rightarrow> DesiredRule \<Rightarrow> bool" where
  "fits K M rule \<longleftrightarrow> valid_rule rule \<and> d_Key rule \<in> K \<and> rule_rows rule \<le> int M"

lemma counts_bound:
  assumes "distinct (map fst m)" "fst ` set m \<subseteq> K" "finite K" "\<forall>(k, r)\<in>set m. rule_rows r \<le> int M"
  shows "tenant_count m t \<le> int (card K)" "total_rows m \<le> int (card K * M)"
proof -
  have len: "length m \<le> card K"
    using card_mono [OF assms(3,2)] distinct_card [OF assms(1)] by simp
  have "tenant_count m t \<le> int (length m)" unfolding tenant_count_def by (induction m) auto
  then show "tenant_count m t \<le> int (card K)" using len by simp
  have "total_rows m \<le> int (length m * M)" using assms(4) unfolding total_rows_def by (induction m) auto
  also have "\<dots> \<le> int (card K * M)" using len by (simp add: mult_le_mono1 del: of_nat_mult)
  finally show "total_rows m \<le> int (card K * M)" .
qed

lemma rangeCapacity_single:
  assumes "d_PortEnd rule = 0" "\<forall>(k, r)\<in>set (q_rules q). d_PortEnd r = 0"
  shows "rangeCapacity q rule"
proof -
  have "d_PortEnd other = 0" if "other \<in> set (sharing_vip (q_rules q) rule vip)" for other vip
    using that assms(2) by (auto simp: sharing_vip_def split: if_splits)
  then have "vip_capacity (q_rules q) rule vip" for vip using assms(1) by (simp add: vip_capacity_def Let_def)
  then show ?thesis using assms by (auto simp: rangeCapacity_def Let_def list_all_iff)
qed

lemma CheckAndReserve_room:
  assumes "quota_room K M q" "fits K M rule"
  shows "\<exists>q'. CheckAndReserve q rule = (True, q') \<and> quota_room K M q'"
proof -
  let ?R = "AList.update (d_Key rule) rule (q_rules q)"
  have b: "quota_books q" "distinct (map fst (q_rules q))" "finite K" using assms(1) by (simp_all add: quota_room_def quota_books_def)
  have z: "d_PortEnd rule = 0" using assms(2) by (simp add: fits_def valid_rule_def)
  have R: "\<forall>(k, r)\<in>set ?R. k \<in> K \<and> d_PortEnd r = 0 \<and> rule_rows r \<le> int M"
    using assms z set_delete_subset [of "d_Key rule" "q_rules q"] b(2) by (auto simp: quota_room_def fits_def set_update)
  have dr: "distinct (map fst ?R)" "fst ` set ?R \<subseteq> K" "\<forall>(k, r)\<in>set ?R. rule_rows r \<le> int M" using R b(2) by (auto simp: distinct_update)
  note c = counts_bound [OF dr(1,2) b(3) dr(3)]
  have caps: "tenant_count ?R (d_VPCRef rule) \<le> q_maxRulesPerTenant q" "total_rows ?R \<le> q_maxRuleTableEntries q"
    using c(1) [of "d_VPCRef rule"] c(2) assms(1) by (simp_all add: quota_room_def)
  have cap: "rangeCapacity q rule" using z assms(1) by (intro rangeCapacity_single) (auto simp: quota_room_def)
  have cond: "(\<not> already \<or> already \<and> tenant \<noteq> v) \<longleftrightarrow> (\<not> already \<or> tenant \<noteq> v)" for already tenant and v :: string by blast
  have "fst (CheckAndReserve q rule)"
    using cap caps unfolding CheckAndReserve_def Let_def rule_rows_eq cond not_not reserved_tenant_count [OF b(1)] reserved_total [OF b(1)] by simp
  then obtain q' where q': "CheckAndReserve q rule = (True, q')" by (cases "CheckAndReserve q rule") simp
  have "quota_books q'" using CheckAndReserve_books [OF b(1), of rule] q' by simp
  then have "quota_room K M q'" using CheckAndReserve_accepted [OF b(1) q'] R assms(1) by (simp add: quota_room_def)
  then show ?thesis using q' by blast
qed

lemma Release_room: "quota_room K M q \<Longrightarrow> quota_room K M (Release q k)"
  using Release_books [of q k] Release_rules [of q k] set_delete_subset [of k "q_rules q"] unfolding quota_room_def by auto

interpretation working_gateway: live_backend
  "kernel_ops \<lparr>fault = \<lambda>_. False, now = clock, cut = cuts\<rparr> msg" datapath_fit "quota_room K M" "fits K M"
  for clock cuts msg K M
proof -
  have w: "works \<lparr>fault = \<lambda>_. False, now = clock, cut = cuts\<rparr>" by (simp add: works_def)
  show "live_backend (kernel_ops \<lparr>fault = \<lambda>_. False, now = clock, cut = cuts\<rparr> msg) datapath_fit (quota_room K M) (fits K M)"
  proof
    fix d :: KernelDatapath and q :: NodeQuotaEnforcer and r k
    let ?ops = "kernel_ops \<lparr>fault = \<lambda>_. False, now = clock, cut = cuts\<rparr> msg"
    show "\<exists>d'. op_ApplyRule ?ops r d = (Inr (), d') \<and> datapath_fit d'" if "datapath_fit d" "fits K M r"
      using ApplyRule_fit [OF w _ that(1), of r] that(2) by (simp add: kernel_ops_def fits_def)
    show "\<exists>d'. op_RemoveRule ?ops k d = (Inr (), d') \<and> datapath_fit d'" if "datapath_fit d"
      using RemoveRule_fit [OF w that, of k] by (simp add: kernel_ops_def)
    show "\<exists>q'. op_CheckAndReserve ?ops r q = (Inr True, q') \<and> quota_room K M q'" if "quota_room K M q" "fits K M r"
      using CheckAndReserve_room [OF that] by (auto simp: kernel_ops_def)
    show "\<exists>q'. op_Release ?ops k q = (Inr (), q') \<and> quota_room K M q'" if "quota_room K M q"
      using Release_room [OF that, of k] by (simp add: kernel_ops_def)
  qed
qed

text \<open>Two rules marked for a retry that hold each other's new ports.\<close>

definition crossed :: "string \<Rightarrow> string \<Rightarrow> DesiredRule \<Rightarrow> DesiredRule \<Rightarrow> ('d, 'q) Engine \<Rightarrow> bool" where
  "crossed a b ra rb e \<longleftrightarrow> engine_ok e \<and> a \<noteq> b \<and> map_of (e_active e) a = Some ra \<and> map_of (e_active e) b = Some rb \<and> {a, b} \<subseteq> set (e_dirty e)"

lemma dirty_conflict:
  assumes "map_of (e_active e) k = Some old" "k \<in> set (e_dirty e)" "k \<noteq> key" "rulesOverlap old rule"
  shows "ruleConflictsLocked e key rule toRemove"
proof -
  have "\<exists>(oldKey, old) \<in> set (e_active e). oldKey \<noteq> key \<and>
      (oldKey \<in> set (e_dirty e) \<or> map_of (e_pending e) oldKey \<noteq> None) \<and> rulesOverlap old rule"
    by (rule bexI [OF _ map_of_SomeD [OF assms(1)]]) (use assms in simp)
  then show ?thesis unfolding ruleConflictsLocked_def by presburger
qed

lemma crossed_conflict:
  "crossed a b ra rb e \<Longrightarrow> rulesOverlap rb rule \<Longrightarrow> ruleConflictsLocked e a rule toRemove"
  "crossed a b ra rb e \<Longrightarrow> rulesOverlap ra rule \<Longrightarrow> ruleConflictsLocked e b rule toRemove"
  unfolding crossed_def by (blast intro: dirty_conflict)+

lemma crossed_applyRules:
  assumes "crossed a b ra rb e" "applyRules ops toRemove desired keys e = (ss, e')" "\<forall>k\<in>set keys. d_Key (get zeroRule desired k) = k"
    "rulesOverlap rb (get zeroRule desired a)" "rulesOverlap ra (get zeroRule desired b)"
  shows "crossed a b ra rb e' \<and> (a \<in> set keys \<longrightarrow> failed ss a)"
  using assms(1-3)
proof (induction keys arbitrary: e ss)
  case (Cons key keys)
  obtain s e1 where s: "applyKey ops toRemove key (get zeroRule desired key) e = (s, e1)" by (rule prod.exhaust)
  obtain ss1 e2 where ss: "applyRules ops toRemove desired keys e1 = (ss1, e2)" by (rule prod.exhaust)
  have eq: "ss = s # ss1" "e' = e2" using Cons.prems(2) s ss by simp_all
  have own: "d_Key (get zeroRule desired key) = key" using Cons.prems(3) by simp
  have ok: "engine_ok e" "a \<noteq> b" using Cons.prems(1) by (simp_all add: crossed_def)
  have c: "crossed a b ra rb e1 \<and> (key = a \<longrightarrow> failed [s] a)"
  proof (cases "key = a \<or> key = b")
    case True
    then have "ruleConflictsLocked e key (get zeroRule desired key) toRemove"
      using crossed_conflict(1) [OF Cons.prems(1) assms(4), of toRemove] crossed_conflict(2) [OF Cons.prems(1) assms(5), of toRemove] by (elim disjE) simp_all
    then have "(s, e1) = (status_error key False ''conflicting prior rule has not withdrawn'', e)" using s by (simp only: applyKey_def if_True)
    then show ?thesis using Cons.prems(1) by (simp add: failed_def status_error_def)
  next
    case False
    have u: "\<forall>k. k \<noteq> key \<longrightarrow> untouched e e1 k" using applyKey_cases [OF s own] by (elim conjE)
    have "a \<noteq> key" "b \<noteq> key" using False by auto
    then have "untouched e e1 a" "untouched e e1 b" using u [THEN spec, of a] u [THEN spec, of b] by simp_all
    then show ?thesis using Cons.prems(1) False engine_ok_apply [OF ok(1) s own] by (simp add: crossed_def untouched_def)
  qed
  have "crossed a b ra rb e' \<and> (a \<in> set keys \<longrightarrow> failed ss1 a)" 
    unfolding eq(2) [symmetric] by (rule Cons.IH [OF conjunct1 [OF c]]) (use ss eq(2) Cons.prems(3) in simp_all)
  moreover have "failed ss a \<longleftrightarrow> failed [s] a \<or> failed ss1 a" using failed_append [of "[s]" ss1 a] eq(1) by simp
  ultimately show ?case using c by (cases "key = a") simp_all
qed simp

lemma crossed_Reconcile:
  assumes "crossed a b ra rb e" "wf_rules desired" "map_of desired a = Some ra'" "map_of desired b = Some rb'"
    "rulesOverlap rb ra'" "rulesOverlap ra rb'" "engine_Reconcile ops desired e = (status, e')"
  shows "crossed a b ra rb e' \<and> \<not> es_Healthy status"
proof -
  have ok: "engine_ok e" using assms(1) by (simp add: crossed_def)
  obtain toApply toRemove unchanged removed e1 applied where keys: "reconcileKeys desired e = (toApply, toRemove)"
    and rem: "removeRules ops toRemove e = (removed, e1)" and app: "applyRules ops toRemove desired toApply e1 = (applied, e')"
    and st: "es_Rules status = annotateRuleVIPs (unchanged @ removed @ applied) (inventory e) (e_active e') desired"
    by (rule reconcile_parts [OF assms(7)])
  note kf = reconcileKeys_facts [OF keys ok assms(2)]
  have "a \<notin> set toRemove" "b \<notin> set toRemove" "a \<in> set toApply" using kf(1) [of a] kf(2) [of a] kf(2) [of b] assms(1,3,4) by (simp_all add: crossed_def)
  then have "untouched e e1 a" "untouched e e1 b" using removeRules_cases [OF rem kf(4)] by blast+
  then have "crossed a b ra rb e1" using assms(1) engine_ok_removeRules [OF ok rem] by (simp add: crossed_def untouched_def)
  then have "crossed a b ra rb e' \<and> failed applied a"
    using crossed_applyRules [OF _ app apply_keys_own [OF keys ok assms(2)], of a b ra rb] assms(5,6) \<open>a \<in> set toApply\<close>
    unfolding get_desired [OF assms(3)] get_desired [OF assms(4)] by blast
  moreover then have "failed (es_Rules status) a" unfolding st by simp
  ultimately show ?thesis using healthy_not_failed [OF assms(7)] by blast
qed

text \<open>C36. A failure does not always heal: two active rules that are both marked for a retry, and whose desired
  forms ask for a port that the other one's last form held, block each other for good. However often the
  engine is run toward that desired state, with whatever datapath and quota, the two rules stay in
  their old form and every pass reports failure.\<close>

theorem crossed_rules_stuck:
  assumes "engine_reachable ops d0 q0 e" "a \<noteq> b" "map_of (e_active e) a = Some ra" "map_of (e_active e) b = Some rb" "{a, b} \<subseteq> set (e_dirty e)"
    and "wf_rules desired" "map_of desired a = Some ra'" "map_of desired b = Some rb'" "rulesOverlap rb ra'" "rulesOverlap ra rb'"
    and "e' = ((\<lambda>e. snd (engine_Reconcile ops desired e)) ^^ n) e"
  shows "map_of (e_active e') a = Some ra \<and> map_of (e_active e') b = Some rb \<and> \<not> es_Healthy (fst (engine_Reconcile ops desired e'))"
proof -
  have "crossed a b ra rb e" using reachable_ok [OF assms(1)] assms(2-5) by (simp add: crossed_def)
  then have "crossed a b ra rb (((\<lambda>e. snd (engine_Reconcile ops desired e)) ^^ n) e)"
  proof (induction n)
    case (Suc n)
    show ?case using crossed_Reconcile [OF Suc.IH [OF Suc.prems] assms(6-10) surjective_pairing] by simp
  qed simp
  then have c: "crossed a b ra rb e'" using assms(11) by simp
  then show ?thesis using crossed_Reconcile [OF c assms(6-10) surjective_pairing] by (simp add: crossed_def)
qed


text \<open>Examples: two services on two addresses, and a datapath that refuses chosen applies by their number.\<close>

definition rule_u :: "string \<Rightarrow> string \<Rightarrow> u32 \<Rightarrow> u16 \<Rightarrow> DesiredRule" where
  "rule_u key vpc ip port = \<lparr>d_Key = key, d_VPCRef = vpc, d_VIPAddresses = [Addr4 ip], d_Protocol = ''udp'', d_Port = port, d_PortEnd = 0,
     d_Affinity = [], d_Backends = [], d_IPv4Backends = []\<rparr>"

definition flaky_ops :: "nat list \<Rightarrow> (nat, unit) engine_ops" where
  "flaky_ops bad = \<lparr>op_ApplyRule = \<lambda>_ n. (if n \<in> set bad then Inl ''fault'' else Inr (), Suc n), op_RemoveRule = \<lambda>_ n. (Inr (), n),
     op_Generation = \<lambda>n. (0, n), op_ReconcileOrphans = \<lambda>_ _ n. (Inr (), n), op_SetOwnedVIPs = None, op_SetBlockedVIPs = None,
     op_RenewVIPs = None, op_OwnedVIPs = None, op_SupportsPortRanges = None, op_SupportsOwnedVIPs = None,
     op_CheckAndReserve = \<lambda>_ q. (Inr True, q), op_Release = \<lambda>_ q. (Inr (), q)\<rparr>"

definition pass_on :: "nat list \<Rightarrow> rule_map \<Rightarrow> (nat, unit) Engine \<Rightarrow> (nat, unit) Engine" where
  "pass_on bad desired e = snd (engine_Reconcile (flaky_ops bad) desired e)"

definition desired_uv :: rule_map where
  "desired_uv = [(''u'', rule_u ''u'' ''t'' 1 53), (''v'', rule_u ''v'' ''t'' 2 53)]"

lemma desired_uv_wf: "wf_rules desired_uv"
  by (simp add: wf_rules_def desired_uv_def rule_u_def)

theorem healthy_means_converged_witness:
  "engine_reachable (flaky_ops [1]) 0 () (pass_on [1] desired_uv (NewEngine 0 ())) \<and>
   map_of (e_active (pass_on [1] desired_uv (NewEngine 0 ()))) ''v'' = None \<and>
   map_of (e_active (pass_on [1] desired_uv (pass_on [1] desired_uv (NewEngine 0 ())))) = map_of desired_uv"
proof -
  let ?e = "pass_on [1] desired_uv (NewEngine 0 ())"
  have r: "engine_reachable (flaky_ops [1]) 0 () ?e" unfolding pass_on_def by (intro engine_reachable.start engine_reachable.pass desired_uv_wf)
  have n: "map_of (e_active ?e) ''v'' = None" by code_simp
  obtain st e' where run: "engine_Reconcile (flaky_ops [1]) desired_uv ?e = (st, e')" by (rule prod.exhaust)
  have "es_Healthy (fst (engine_Reconcile (flaky_ops [1]) desired_uv ?e))" by code_simp
  then have "map_of (e_active e') = map_of desired_uv" using healthy_means_converged [OF r desired_uv_wf run] run by simp
  moreover have "pass_on [1] desired_uv ?e = e'" using run by (simp add: pass_on_def)
  ultimately show ?thesis using r n by simp
qed

theorem vip_converged_sound_witness:
  "\<not> es_Healthy (fst (engine_Reconcile (flaky_ops [1]) desired_uv (NewEngine 0 ()))) \<and>
   map_of (e_active (pass_on [1] desired_uv (NewEngine 0 ()))) ''u'' = Some (rule_u ''u'' ''t'' 1 53)"
proof -
  obtain st e' where run: "engine_Reconcile (flaky_ops [1]) desired_uv (NewEngine 0 ()) = (st, e')" by (rule prod.exhaust)
  have "VIPConverged (fst (engine_Reconcile (flaky_ops [1]) desired_uv (NewEngine 0 ()))) (Addr4 1)" by code_simp
  then have "map_of (e_active e') ''u'' = Some (rule_u ''u'' ''t'' 1 53)"
    using vip_converged_sound [OF engine_reachable.start desired_uv_wf run, of "Addr4 1" "rule_u ''u'' ''t'' 1 53" "''u''"] run
    by (simp add: rule_u_def desired_uv_def)
  moreover have "\<not> es_Healthy (fst (engine_Reconcile (flaky_ops [1]) desired_uv (NewEngine 0 ())))" by code_simp
  ultimately show ?thesis using run by (simp add: pass_on_def)
qed

text \<open>Two rules on one address go active; an update of both fails in the kernel; then they swap their ports.\<close>

definition on_ports :: "string \<Rightarrow> u16 \<Rightarrow> u16 \<Rightarrow> rule_map" where
  "on_ports vpc p p' = [(''u'', rule_u ''u'' vpc 1 p), (''v'', rule_u ''v'' vpc 1 p')]"

lemma on_ports_wf: "wf_rules (on_ports vpc p p')"
  by (simp add: wf_rules_def on_ports_def rule_u_def)

theorem crossed_rules_stuck_witness:
  "engine_reachable (flaky_ops [2, 3]) 0 () (pass_on [2, 3] (on_ports ''s'' 53 80) (pass_on [2, 3] (on_ports ''t'' 53 80) (NewEngine 0 ()))) \<and>
   map_of (e_active ((pass_on [2, 3] (on_ports ''s'' 80 53) ^^ 7)
     (pass_on [2, 3] (on_ports ''s'' 53 80) (pass_on [2, 3] (on_ports ''t'' 53 80) (NewEngine 0 ()))))) ''u'' = Some (rule_u ''u'' ''t'' 1 53)"
proof -
  let ?ops = "flaky_ops [2, 3]"
  let ?e = "pass_on [2, 3] (on_ports ''s'' 53 80) (pass_on [2, 3] (on_ports ''t'' 53 80) (NewEngine 0 ()))"
  have r: "engine_reachable ?ops 0 () ?e" unfolding pass_on_def by (intro engine_reachable.start engine_reachable.pass on_ports_wf)
  have a: "map_of (e_active ?e) ''u'' = Some (rule_u ''u'' ''t'' 1 53)" "map_of (e_active ?e) ''v'' = Some (rule_u ''v'' ''t'' 1 80)"
    "{''u'', ''v''} \<subseteq> set (e_dirty ?e)" by code_simp+
  have d: "map_of (on_ports ''s'' 80 53) ''u'' = Some (rule_u ''u'' ''s'' 1 80)" "map_of (on_ports ''s'' 80 53) ''v'' = Some (rule_u ''v'' ''s'' 1 53)"
    by (simp_all add: on_ports_def)
  have o: "rulesOverlap (rule_u ''v'' ''t'' 1 80) (rule_u ''u'' ''s'' 1 80)" "rulesOverlap (rule_u ''u'' ''t'' 1 53) (rule_u ''v'' ''s'' 1 53)"
    by code_simp+
  have p: "pass_on [2, 3] (on_ports ''s'' 80 53) = (\<lambda>e. snd (engine_Reconcile ?ops (on_ports ''s'' 80 53) e))" by (simp add: pass_on_def fun_eq_iff)
  show ?thesis unfolding p using crossed_rules_stuck [OF r _ a on_ports_wf d o refl, of 7] r by simp
qed

text \<open>The running example of the datapath, as the engine's only rule.\<close>

lemma desired_rule0: "wf_rules [(''a'', rule0)]" "list_all (\<lambda>(k, rule). fits {''a''} 1 rule) [(''a'', rule0)]"
  using rule0_valid(2) by (simp_all add: wf_rules_def fits_def rule0_def rule_rows_def)

lemma fresh_node:
  "datapath_fit datapath0" "quota_room {''a''} 1 (NewNodeQuotaEnforcer 1 1)" "unblocked desired (NewEngine d q)"
  using rule0_valid(4) quota_start [of 1 1]
  by (simp_all add: datapath_fit_def rule0_valid(7) quota_room_def NewNodeQuotaEnforcer_def unblocked_def NewEngine_def)



end
