(* ===== verification/Spec2Isabelle.thy ===== *)
theory Spec2Isabelle
  imports Prelude Netip Netip_Parse Netpkg Uformat Nptv6 Maglev TrafficPolicy TrafficPolicyAPI
    GoMap StateError GatewayQuota EdgeMap XdpDispatch EdgeProg EdgeForward Netip_String KernelDatapath GatewayEngine
begin

text \<open>
  A verification library for the decision-making core of the galactic network fabric.
\<close>

end
